(* ===== verification/Prelude.thy ===== *)
theory Prelude
  imports Main "HOL-Library.Word"
begin

text \<open>
  Shared vocabulary of the development: the machine integers of the program, the faults a
  C operation can raise and the result type that carries them, byte order, the C string
  functions on fixed-size name fields, and the first-match list walk that most lookup loops
  of the router are.
\<close>

unbundle bit_operations_syntax

section \<open>Machine integers and time\<close>

text \<open>
  \<^verbatim>\<open>uint8_t\<close>, \<^verbatim>\<open>uint16_t\<close> and \<^verbatim>\<open>uint32_t\<close> keep their width. \<^verbatim>\<open>time_t\<close> is an
  integer number of seconds.
\<close>

type_synonym u8 = "8 word"
type_synonym u16 = "16 word"
type_synonym u32 = "32 word"
type_synonym bytes = "u8 list"
type_synonym mac = "u8 list"
type_synonym time = int

section \<open>Faults\<close>

text \<open>
  What stops a C operation: a failed \<^verbatim>\<open>assert\<close>, a null pointer dereference, an access
  outside an allocated block, an access to a freed block, or a loop that does not end.
\<close>

datatype fault = Assertion_failure | Null_pointer | Out_of_bounds | Use_after_free | Diverges

type_synonym 'a result = "fault + 'a"

definition rbind :: "'a result \<Rightarrow> ('a \<Rightarrow> 'b result) \<Rightarrow> 'b result" where
  "rbind m k = (case m of Inl e \<Rightarrow> Inl e | Inr x \<Rightarrow> k x)"

lemma rbind_simps [simp]:
  "rbind (Inl e) k = Inl e"
  "rbind (Inr x) k = k x"
  by (simp_all add: rbind_def)

lemma rbind_assoc: "rbind (rbind m f) g = rbind m (\<lambda>x. rbind (f x) g)"
  by (cases m) simp_all

lemma rbind_eq_Inr: "rbind m k = Inr y \<longleftrightarrow> (\<exists>x. m = Inr x \<and> k x = Inr y)"
  by (cases m) simp_all

lemma rbind_eq_Inl: "rbind m k = Inl e \<longleftrightarrow> m = Inl e \<or> (\<exists>x. m = Inr x \<and> k x = Inl e)"
  by (cases m) simp_all

text \<open>A C assertion, and a loop over a list whose body may fault.\<close>

definition rassert :: "bool \<Rightarrow> unit result" where
  "rassert b = (if b then Inr () else Inl Assertion_failure)"

lemma rassert_simps [simp]:
  "rassert True = Inr ()"
  "rassert False = Inl Assertion_failure"
  by (simp_all add: rassert_def)

primrec foldr_res :: "('a \<Rightarrow> 's \<Rightarrow> 's result) \<Rightarrow> 'a list \<Rightarrow> 's \<Rightarrow> 's result" where
  "foldr_res f [] s = Inr s"
| "foldr_res f (x # xs) s = rbind (f x s) (foldr_res f xs)"

lemma foldr_res_append:
  "foldr_res f (xs @ ys) s = rbind (foldr_res f xs s) (foldr_res f ys)"
proof (induction xs arbitrary: s)
  case (Cons x xs)
  then show ?case by (cases "f x s") simp_all
qed simp

lemma foldr_res_map: "foldr_res f (map g xs) = foldr_res (\<lambda>x. f (g x)) xs"
  by (induction xs) (rule ext, simp)+

text \<open>
  The invariant rule for such loops: a body that never faults and keeps \<open>P\<close> makes a loop
  that never faults and keeps \<open>P\<close>.
\<close>

lemma foldr_res_invariant:
  assumes "P s" and "\<And>x s. x \<in> set xs \<Longrightarrow> P s \<Longrightarrow> \<exists>s'. f x s = Inr s' \<and> P s'"
  shows "\<exists>s'. foldr_res f xs s = Inr s' \<and> P s'"
  using assms
proof (induction xs arbitrary: s)
  case (Cons x xs)
  from Cons.prems obtain s' where s': "f x s = Inr s'" "P s'" by (meson list.set_intros(1))
  have "\<exists>s''. foldr_res f xs s' = Inr s'' \<and> P s''"
    using s'(2) Cons.prems(2) by (intro Cons.IH) auto
  with s'(1) show ?case by simp
qed simp

text \<open>Partial correctness of the same loops: whatever the body keeps, the loop keeps.\<close>

lemma foldr_res_keeps:
  assumes "foldr_res f xs s = Inr s'" and "P s"
    and "\<And>x s s'. x \<in> set xs \<Longrightarrow> P s \<Longrightarrow> f x s = Inr s' \<Longrightarrow> P s'"
  shows "P s'"
  using assms
proof (induction xs arbitrary: s)
  case (Cons x xs)
  from Cons.prems(1) obtain t where t: "f x s = Inr t" "foldr_res f xs t = Inr s'"
    by (auto simp: rbind_eq_Inr)
  have "P t" using Cons.prems(3)[OF _ Cons.prems(2) t(1)] by simp
  with t(2) show ?case using Cons.prems(3) by (intro Cons.IH[of t]) auto
qed simp

section \<open>Byte order\<close>

text \<open>
  The program is modelled on a little-endian machine (the \<^verbatim>\<open>_LINUX_\<close> build of the
  Makefile on x86): a field in network byte order is read by a plain load with its bytes
  reversed, and \<^verbatim>\<open>ntohs\<close>, \<^verbatim>\<open>htons\<close>, \<^verbatim>\<open>ntohl\<close>, \<^verbatim>\<open>htonl\<close> swap bytes.
\<close>

definition load16 :: "u8 \<Rightarrow> u8 \<Rightarrow> u16" where
  "load16 a b = ucast a OR push_bit 8 (ucast b)"

definition store16 :: "u16 \<Rightarrow> bytes" where
  "store16 x = [ucast x, ucast (drop_bit 8 x)]"

definition load32 :: "u8 \<Rightarrow> u8 \<Rightarrow> u8 \<Rightarrow> u8 \<Rightarrow> u32" where
  "load32 a b c d = ucast a OR push_bit 8 (ucast b) OR push_bit 16 (ucast c) OR
                    push_bit 24 (ucast d)"

definition store32 :: "u32 \<Rightarrow> bytes" where
  "store32 x = [ucast x, ucast (drop_bit 8 x), ucast (drop_bit 16 x), ucast (drop_bit 24 x)]"

definition ntohs :: "u16 \<Rightarrow> u16" where
  "ntohs x = load16 (ucast (drop_bit 8 x)) (ucast x)"

definition ntohl :: "u32 \<Rightarrow> u32" where
  "ntohl x = load32 (ucast (drop_bit 24 x)) (ucast (drop_bit 16 x)) (ucast (drop_bit 8 x)) (ucast x)"

abbreviation htons :: "u16 \<Rightarrow> u16" where "htons \<equiv> ntohs"
abbreviation htonl :: "u32 \<Rightarrow> u32" where "htonl \<equiv> ntohl"

lemma length_store [simp]: "length (store16 x) = 2" "length (store32 y) = 4"
  by (simp_all add: store16_def store32_def)

lemma bit_u8_ge [simp]: "8 \<le> n \<Longrightarrow> \<not> bit (a :: u8) n"
  using bit_imp_le_length[of a n] by fastforce

lemma unat_u8_less: "unat (a :: u8) < 256"
  using unsigned_less[of a, where ?'a = nat] by simp

lemma load16_bytes [simp]:
  "ucast (load16 a b) = a" "ucast (drop_bit 8 (load16 a b)) = b"
  by (auto simp: load16_def bit_simps intro!: bit_word_eqI)

lemma load32_bytes [simp]:
  "ucast (load32 a b c d) = a" "ucast (drop_bit 8 (load32 a b c d)) = b"
  "ucast (drop_bit 16 (load32 a b c d)) = c" "ucast (drop_bit 24 (load32 a b c d)) = d"
  by (auto simp: load32_def bit_simps intro!: bit_word_eqI)

lemma load_bytes_id [simp]:
  fixes x :: u16 and y :: u32
  shows "load16 (ucast x) (ucast (drop_bit 8 x)) = x"
    and "load32 (ucast y) (ucast (drop_bit 8 y)) (ucast (drop_bit 16 y)) (ucast (drop_bit 24 y)) = y"
proof -
  show "load16 (ucast x) (ucast (drop_bit 8 x)) = x"
  proof (rule bit_word_eqI)
    fix n assume "n < LENGTH(16)"
    then show "bit (load16 (ucast x) (ucast (drop_bit 8 x))) n = bit x n"
      by (cases "n < 8") (auto simp: load16_def bit_simps)
  qed
  show "load32 (ucast y) (ucast (drop_bit 8 y)) (ucast (drop_bit 16 y)) (ucast (drop_bit 24 y)) = y"
  proof (rule bit_word_eqI)
    fix n assume "n < LENGTH(32)"
    then consider "n < 8" | "8 \<le> n" "n < 16" | "16 \<le> n" "n < 24" | "24 \<le> n" "n < 32"
      by fastforce
    then show "bit (load32 (ucast y) (ucast (drop_bit 8 y)) (ucast (drop_bit 16 y))
        (ucast (drop_bit 24 y))) n = bit y n"
      by cases (auto simp: load32_def bit_simps)
  qed
qed

lemma load16_store16: "store16 x = [a, b] \<Longrightarrow> load16 a b = x"
  by (auto simp: store16_def)

lemma load32_store32: "store32 x = [a, b, c, d] \<Longrightarrow> load32 a b c d = x"
  by (auto simp: store32_def)

lemma ntohs_ntohs [simp]: "ntohs (ntohs x) = x"
  by (simp add: ntohs_def)

lemma ntohl_ntohl [simp]: "ntohl (ntohl x) = x"
  by (simp add: ntohl_def)

lemma ntohs_eq_iff [simp]: "ntohs x = ntohs y \<longleftrightarrow> x = y"
  by (metis ntohs_ntohs)

lemma ntohl_eq_iff [simp]: "ntohl x = ntohl y \<longleftrightarrow> x = y"
  by (metis ntohl_ntohl)

section \<open>C strings in fixed-size fields\<close>

text \<open>
  Interface names are NUL-terminated strings in 32-byte fields (\<^verbatim>\<open>sr_IFACE_NAMELEN\<close>).
  A name is modelled by its characters before the NUL. \<^verbatim>\<open>strncpy\<close> into such a field keeps
  at most 32 of them; \<^verbatim>\<open>strncmp\<close> over 32 characters compares that much of both.
\<close>

definition sr_IFACE_NAMELEN :: nat where
  "sr_IFACE_NAMELEN = 32"

definition strncpy_name :: "string \<Rightarrow> string" where
  "strncpy_name s = take sr_IFACE_NAMELEN s"

definition strncmp_name :: "string \<Rightarrow> string \<Rightarrow> bool" where
  "strncmp_name a b \<longleftrightarrow> take sr_IFACE_NAMELEN a = take sr_IFACE_NAMELEN b"

lemma strncpy_name_short [simp]: "length s \<le> sr_IFACE_NAMELEN \<Longrightarrow> strncpy_name s = s"
  by (simp add: strncpy_name_def)

lemma strncmp_name_refl [simp]: "strncmp_name a a"
  by (simp add: strncmp_name_def)

lemma strncmp_name_strncpy [simp]:
  "strncmp_name (strncpy_name a) b = strncmp_name a b"
  "strncmp_name a (strncpy_name b) = strncmp_name a b"
  by (simp_all add: strncmp_name_def strncpy_name_def)

section \<open>First-match lookup\<close>

text \<open>
  Most lookups of the router walk a linked list and stop at the first node with the key
  asked for. The interface is stated once: a lookup that agrees with the walk. Each
  component interprets it on its own lookup function.
\<close>

locale first_match =
  fixes hit :: "'k \<Rightarrow> 'e \<Rightarrow> bool" and lookup :: "'e list \<Rightarrow> 'k \<Rightarrow> 'e option"
  assumes lookup_Nil: "lookup [] k = None"
    and lookup_Cons: "lookup (x # xs) k = (if hit k x then Some x else lookup xs k)"
begin

lemma lookup_find: "lookup xs k = find (hit k) xs"
  by (induction xs) (simp_all add: lookup_Nil lookup_Cons)

lemma lookup_None: "lookup xs k = None \<longleftrightarrow> (\<forall>x \<in> set xs. \<not> hit k x)"
  by (auto simp: lookup_find find_None_iff)

lemma lookup_Some: "lookup xs k = Some x \<Longrightarrow> x \<in> set xs \<and> hit k x"
  by (auto simp: lookup_find find_Some_iff)

lemma lookup_append:
  "lookup (xs @ ys) k = (case lookup xs k of Some x \<Rightarrow> Some x | None \<Rightarrow> lookup ys k)"
  by (induction xs) (simp_all add: lookup_Nil lookup_Cons)

lemma lookup_snoc_new:
  "lookup xs k = None \<Longrightarrow> lookup (xs @ [x]) k = (if hit k x then Some x else None)"
  by (simp add: lookup_append lookup_Nil lookup_Cons)

lemma lookup_first:
  "lookup xs k = Some x \<longleftrightarrow>
     (\<exists>us vs. xs = us @ x # vs \<and> hit k x \<and> (\<forall>u \<in> set us. \<not> hit k u))"
proof
  assume "lookup xs k = Some x"
  then obtain i where i: "i < length xs" "hit k (xs ! i)" "x = xs ! i" "\<forall>j<i. \<not> hit k (xs ! j)"
    by (auto simp: lookup_find find_Some_iff)
  then have "xs = take i xs @ x # drop (Suc i) xs" by (simp add: id_take_nth_drop)
  with i show "\<exists>us vs. xs = us @ x # vs \<and> hit k x \<and> (\<forall>u \<in> set us. \<not> hit k u)"
    by (metis in_set_conv_nth length_take min_less_iff_conj nth_take)
next
  assume "\<exists>us vs. xs = us @ x # vs \<and> hit k x \<and> (\<forall>u \<in> set us. \<not> hit k u)"
  then obtain us vs where xs: "xs = us @ x # vs" and x: "hit k x" and us: "\<forall>u \<in> set us. \<not> hit k u"
    by blast
  from us have "lookup us k = None" by (simp add: lookup_None)
  with xs x show "lookup xs k = Some x" by (simp add: lookup_append lookup_Cons)
qed

end

end
