(* ===== verification/Topology.thy ===== *)
theory Topology
  imports Prelude "HOL-Library.Multiset"
begin

text \<open>
  The topology database of \<^verbatim>\<open>top_info.c\<close>: the routers that link state updates describe, their
  adjacencies and their subnets. Routers are heap objects that point to each other, so the
  model keeps a store of routers by address, where a freed router leaves a hole; the
  \<^verbatim>\<open>network\<close> list is the list of the addresses it links.
\<close>

section \<open>Data\<close>

record route =
  prefix :: u32
  rmask :: u32
  rnext_hop :: u32
  r_id :: u32
  from_lsu :: int

text \<open>
  The two pointer arrays of \<^verbatim>\<open>struct router\<close> are lists of their used part (so \<^verbatim>\<open>adj_size\<close> and
  \<^verbatim>\<open>subnet_size\<close> are lengths), with the element count the code believes the block to have
  and the number of bytes it has. A route belongs to the one array that points to it.
\<close>

record router =
  adjacencies :: "nat list"
  adj_buf_size :: nat
  adj_bytes :: nat
  subnets :: "route list"
  subnet_buf_size :: nat
  subnet_bytes :: nat
  last_seq :: u16
  expired :: time
  rid :: u32
  known :: bool
  dist :: int
  prev :: "nat option"

record topo =
  store :: "router option list"
  network :: "nat list"
  this_router :: nat
  init_time :: time

definition INIT_ADJLIST_SIZE :: nat where "INIT_ADJLIST_SIZE = 10"
definition INIT_SUBNET_SIZE :: nat where "INIT_SUBNET_SIZE = 10"
definition OSPF_DEFAULT_LSUINT :: time where "OSPF_DEFAULT_LSUINT = 30"
definition ptr_bytes :: nat where "ptr_bytes = 8"

lemmas topo_consts = INIT_ADJLIST_SIZE_def INIT_SUBNET_SIZE_def OSPF_DEFAULT_LSUINT_def ptr_bytes_def

text \<open>Following a router pointer, and writing through one.\<close>

definition deref :: "topo \<Rightarrow> nat \<Rightarrow> router result" where
  "deref s a =
     (if a < length (store s)
      then (case store s ! a of Some r \<Rightarrow> Inr r | None \<Rightarrow> Inl Use_after_free)
      else Inl Use_after_free)"

definition set_rt :: "topo \<Rightarrow> nat \<Rightarrow> router \<Rightarrow> topo" where
  "set_rt s a r = s\<lparr>store := (store s)[a := Some r]\<rparr>"

section \<open>Routes of one router\<close>

definition route_cmp :: "route \<Rightarrow> route \<Rightarrow> int" where
  "route_cmp r1 r2 =
     (if prefix r1 = prefix r2 \<and> rmask r1 = rmask r2 \<and> r_id r1 = r_id r2 then 0 else - 1)"

text \<open>The index at which a loop over an array stops, and the removal that keeps it packed.\<close>

primrec find_index :: "('a \<Rightarrow> bool) \<Rightarrow> 'a list \<Rightarrow> nat option" where
  "find_index P [] = None"
| "find_index P (x # xs) = (if P x then Some 0 else map_option Suc (find_index P xs))"

definition swap_remove :: "nat \<Rightarrow> 'a list \<Rightarrow> 'a list" where
  "swap_remove i xs = butlast (xs[i := last xs])"

definition drop_subnet :: "(route \<Rightarrow> bool) \<Rightarrow> router \<Rightarrow> router" where
  "drop_subnet P r =
     (case find_index P (subnets r) of
        None \<Rightarrow> r
      | Some i \<Rightarrow> r\<lparr>subnets := swap_remove i (subnets r)\<rparr>)"

definition router_contains :: "route \<Rightarrow> router \<Rightarrow> bool" where
  "router_contains rt host \<longleftrightarrow> find_index (\<lambda>x. route_cmp x rt = 0) (subnets host) \<noteq> None"

definition router_contains_subnet :: "router \<Rightarrow> u32 \<Rightarrow> nat option" where
  "router_contains_subnet host pfx = find_index (\<lambda>x. prefix x = pfx) (subnets host)"

definition sub_in_adv :: "route list \<Rightarrow> route \<Rightarrow> bool" where
  "sub_in_adv advs rt \<longleftrightarrow> find_index (\<lambda>a. route_cmp rt a = 0) advs \<noteq> None"

section \<open>Operations through pointers\<close>

primrec adj_index :: "topo \<Rightarrow> nat list \<Rightarrow> u32 \<Rightarrow> nat option result" where
  "adj_index s [] ident = Inr None"
| "adj_index s (a # as) ident =
     rbind (deref s a) (\<lambda>r.
       if rid r = ident then Inr (Some 0)
       else rbind (adj_index s as ident) (\<lambda>i. Inr (map_option Suc i)))"

definition remove_rt_adj_using_id :: "topo \<Rightarrow> nat \<Rightarrow> u32 \<Rightarrow> topo result" where
  "remove_rt_adj_using_id s host ident =
     rbind (deref s host) (\<lambda>h.
     rbind (adj_index s (adjacencies h) ident) (\<lambda>i.
       Inr (case i of None \<Rightarrow> s
            | Some j \<Rightarrow> set_rt s host (h\<lparr>adjacencies := swap_remove j (adjacencies h)\<rparr>))))"

definition remove_rt_sn_using_id :: "topo \<Rightarrow> nat \<Rightarrow> u32 \<Rightarrow> topo result" where
  "remove_rt_sn_using_id s a ident =
     rbind (deref s a) (\<lambda>r. Inr (set_rt s a (drop_subnet (\<lambda>x. r_id x = ident) r)))"

definition remove_subnet_from_router :: "topo \<Rightarrow> nat \<Rightarrow> route \<Rightarrow> topo result" where
  "remove_subnet_from_router s a subnet =
     rbind (deref s a) (\<lambda>r.
       let s' = set_rt s a (drop_subnet (\<lambda>x. route_cmp x subnet = 0) r)
       in if r_id subnet \<noteq> 0 then remove_rt_adj_using_id s' a (r_id subnet) else Inr s')"

definition router_has_adjacency :: "topo \<Rightarrow> nat \<Rightarrow> nat \<Rightarrow> bool result" where
  "router_has_adjacency s host con =
     rbind (deref s host) (\<lambda>h.
     rbind (deref s con) (\<lambda>c.
     rbind (adj_index s (adjacencies h) (rid c)) (\<lambda>i. Inr (i \<noteq> None))))"

primrec net_walk :: "topo \<Rightarrow> nat list \<Rightarrow> u32 \<Rightarrow> nat option result" where
  "net_walk s [] ident = Inr None"
| "net_walk s (a # as) ident =
     rbind (deref s a) (\<lambda>r. if rid r = ident then Inr (Some a) else net_walk s as ident)"

definition adj_list_contains :: "topo \<Rightarrow> u32 \<Rightarrow> nat option result" where
  "adj_list_contains s ident = net_walk s (network s) ident"

text \<open>
  Growing an array: \<^verbatim>\<open>realloc(p, 2*buf_size)\<close> asks for \<open>2 * buf_size\<close> bytes, and
  \<^verbatim>\<open>buf_size *= 2\<close> believes them to be elements. The write that follows needs the bytes.
\<close>

definition grow :: "nat \<Rightarrow> nat \<Rightarrow> nat \<Rightarrow> nat \<times> nat" where
  "grow used buf bytes = (if buf = used then (2 * buf, 2 * buf) else (buf, bytes))"

definition add_new_route :: "topo \<Rightarrow> route \<Rightarrow> nat \<Rightarrow> topo result" where
  "add_new_route s current host =
     rbind (deref s host) (\<lambda>h.
       let n = length (subnets h); (buf, by) = grow n (subnet_buf_size h) (subnet_bytes h)
       in if ptr_bytes * (n + 1) \<le> by
          then Inr (set_rt s host (h\<lparr>subnet_buf_size := buf, subnet_bytes := by,
                                     subnets := subnets h @ [current]\<rparr>))
          else Inl Out_of_bounds)"

definition add_adjacency :: "topo \<Rightarrow> nat \<Rightarrow> nat \<Rightarrow> topo result" where
  "add_adjacency s host con =
     rbind (deref s host) (\<lambda>h.
       let n = length (adjacencies h); (buf, by) = grow n (adj_buf_size h) (adj_bytes h)
       in if ptr_bytes * (n + 1) \<le> by
          then Inr (set_rt s host (h\<lparr>adj_buf_size := buf, adj_bytes := by,
                                     adjacencies := adjacencies h @ [con]\<rparr>))
          else Inl Out_of_bounds)"

definition new_router :: "time \<Rightarrow> u32 \<Rightarrow> router" where
  "new_router now host_rid =
     \<lparr>adjacencies = [], adj_buf_size = INIT_ADJLIST_SIZE, adj_bytes = ptr_bytes * INIT_ADJLIST_SIZE,
      subnets = [], subnet_buf_size = INIT_SUBNET_SIZE, subnet_bytes = ptr_bytes * INIT_SUBNET_SIZE,
      last_seq = 0, expired = now + 3 * OSPF_DEFAULT_LSUINT, rid = host_rid,
      known = False, dist = - 1, prev = None\<rparr>"

definition add_new_router :: "topo \<Rightarrow> time \<Rightarrow> u32 \<Rightarrow> topo \<times> nat" where
  "add_new_router s now host_rid =
     (s\<lparr>store := store s @ [Some (new_router now host_rid)], network := network s @ [length (store s)]\<rparr>,
      length (store s))"

section \<open>Expiry\<close>

definition forget :: "u32 \<Rightarrow> nat \<Rightarrow> topo \<Rightarrow> topo result" where
  "forget ident n s = rbind (remove_rt_sn_using_id s n ident) (\<lambda>s'. remove_rt_adj_using_id s' n ident)"

definition remove_from_topo :: "topo \<Rightarrow> nat \<Rightarrow> topo result" where
  "remove_from_topo s a =
     rbind (deref s a) (\<lambda>r.
     rbind (foldr_res (forget (rid r)) (network s) (set_rt s a (r\<lparr>subnets := []\<rparr>))) (\<lambda>s'.
       Inr (s'\<lparr>store := (store s')[a := None]\<rparr>)))"

text \<open>
  The walk of \<^verbatim>\<open>check_top_invalid\<close>: \<open>pre\<close> are the nodes passed and kept, and the three
  ways the code unlinks a node.
\<close>

definition unlink :: "nat list \<Rightarrow> nat list \<Rightarrow> nat list" where
  "unlink pre next = (if pre = [] then next else if next \<noteq> [] then pre @ next else pre)"

primrec top_walk :: "time \<Rightarrow> nat list \<Rightarrow> nat list \<Rightarrow> bool \<Rightarrow> topo \<Rightarrow> (bool \<times> topo) result" where
  "top_walk now [] pre changed s = Inr (changed, s)"
| "top_walk now (a # as) pre changed s =
     rbind (deref s a) (\<lambda>r.
     rbind (deref s (this_router s)) (\<lambda>me.
       if expired r \<le> now \<and> rid r \<noteq> rid me then
         rbind (remove_from_topo s a) (\<lambda>s'. top_walk now as pre True (s'\<lparr>network := unlink pre as\<rparr>))
       else top_walk now as (pre @ [a]) changed s))"

section \<open>Link state updates\<close>

definition set_sub_rid :: "topo \<Rightarrow> nat \<Rightarrow> nat \<Rightarrow> u32 \<Rightarrow> topo result" where
  "set_sub_rid s a j ident =
     rbind (deref s a) (\<lambda>r. Inr (set_rt s a (r\<lparr>subnets := (subnets r)[j := (subnets r ! j)\<lparr>r_id := ident\<rparr>]\<rparr>)))"

text \<open>
  The two halves of one turn of the loop of \<^verbatim>\<open>add_to_existing_router\<close>: the route into the host's
  subnets (the boolean is the code's \<^verbatim>\<open>continue\<close>), and the opposite route and the
  adjacencies.
\<close>

definition advertise_host :: "topo \<Rightarrow> nat \<Rightarrow> route \<Rightarrow> (topo \<times> bool) result" where
  "advertise_host s host rt =
     rbind (deref s host) (\<lambda>h.
       if router_contains rt h then Inr (s, False)
       else (case router_contains_subnet h (prefix rt) of
          Some j \<Rightarrow>
            let old_sub = subnets h ! j in
            if rmask rt \<noteq> rmask old_sub \<and> (r_id rt = 0 \<or> r_id old_sub = 0) then
              rbind (add_new_route s rt host) (\<lambda>s'. Inr (s', False))
            else if r_id old_sub = 0 then rbind (set_sub_rid s host j (r_id rt)) (\<lambda>s'. Inr (s', False))
            else rbind (remove_subnet_from_router s host old_sub) (\<lambda>s'. Inr (s', True))
        | None \<Rightarrow> rbind (add_new_route s rt host) (\<lambda>s'. Inr (s', False))))"

definition connect :: "topo \<Rightarrow> nat \<Rightarrow> nat \<Rightarrow> topo result" where
  "connect s host con =
     rbind (router_has_adjacency s host con) (\<lambda>b. if b then Inr s else add_adjacency s host con)"

definition advertise_opposite :: "topo \<Rightarrow> nat \<Rightarrow> nat \<Rightarrow> route \<Rightarrow> topo result" where
  "advertise_opposite s host con rt =
     rbind (deref s host) (\<lambda>h.
     rbind (deref s con) (\<lambda>c.
       let opp_route = rt\<lparr>r_id := rid h\<rparr> in
       if router_contains opp_route c then Inr s
       else (case router_contains_subnet c (prefix opp_route) of
          Some j \<Rightarrow>
            if r_id (subnets c ! j) = 0 then set_sub_rid s con j (r_id opp_route)
            else remove_subnet_from_router s con opp_route
        | None \<Rightarrow> add_new_route s opp_route con)))"

definition find_or_add :: "topo \<Rightarrow> time \<Rightarrow> u32 \<Rightarrow> (topo \<times> nat) result" where
  "find_or_add s now ident =
     rbind (adj_list_contains s ident) (\<lambda>c.
       Inr (case c of Some a \<Rightarrow> (s, a) | None \<Rightarrow> add_new_router s now ident))"

definition add_advert :: "time \<Rightarrow> nat \<Rightarrow> route \<Rightarrow> topo \<Rightarrow> topo result" where
  "add_advert now host rt s =
     rbind (advertise_host s host rt) (\<lambda>(s1, continue).
       if continue \<or> r_id rt = 0 then Inr s1
       else
         rbind (find_or_add s1 now (r_id rt)) (\<lambda>(s2, con).
         rbind (connect s2 host con) (\<lambda>s3.
         rbind (connect s3 con host) (\<lambda>s4.
           advertise_opposite s4 host con rt))))"

definition add_to_existing_router :: "topo \<Rightarrow> time \<Rightarrow> route list \<Rightarrow> nat \<Rightarrow> topo result" where
  "add_to_existing_router s now routes host =
     rbind (deref s host) (\<lambda>h.
       foldr_res (add_advert now host) routes
         (set_rt s host (h\<lparr>expired := now + 3 * OSPF_DEFAULT_LSUINT\<rparr>)))"

text \<open>
  The pruning loop of \<^verbatim>\<open>add_to_top\<close>. Each turn either passes a subnet or makes the array
  shorter; the fuel is a bound on the turns.
\<close>

definition prune_subnet :: "topo \<Rightarrow> nat \<Rightarrow> u32 \<Rightarrow> u32 \<Rightarrow> topo result" where
  "prune_subnet s host host_rid ident =
     rbind (adj_list_contains s ident) (\<lambda>nbor.
     rbind (remove_rt_sn_using_id s host ident) (\<lambda>s1.
       (case nbor of
          None \<Rightarrow> Inr s1
        | Some n \<Rightarrow>
            rbind (remove_rt_sn_using_id s1 n host_rid) (\<lambda>s2.
            rbind (remove_rt_adj_using_id s2 n host_rid) (\<lambda>s3.
            rbind (deref s3 n) (\<lambda>nr. remove_rt_adj_using_id s3 host (rid nr)))))))"

primrec prune :: "nat \<Rightarrow> nat \<Rightarrow> topo \<Rightarrow> nat \<Rightarrow> u32 \<Rightarrow> route list \<Rightarrow> topo result" where
  "prune 0 i s host host_rid advs = Inl Diverges"
| "prune (Suc fuel) i s host host_rid advs =
     rbind (deref s host) (\<lambda>h.
       if i < length (subnets h) then
         (if sub_in_adv advs (subnets h ! i) then prune fuel (i + 1) s host host_rid advs
          else rbind (prune_subnet s host host_rid (r_id (subnets h ! i))) (\<lambda>s'.
                 prune fuel i s' host host_rid advs))
       else Inr s)"

text \<open>\<^verbatim>\<open>add_to_top\<close> up to the recomputation of the routes, which the callers add.\<close>

definition merge_lsu :: "topo \<Rightarrow> time \<Rightarrow> u32 \<Rightarrow> route list \<Rightarrow> topo result" where
  "merge_lsu s now host_rid advs =
     rbind (find_or_add s now host_rid) (\<lambda>(s1, host).
     rbind (add_to_existing_router s1 now advs host) (\<lambda>s2.
       if init_time s2 < now
       then rbind (deref s2 host) (\<lambda>h. prune (length (subnets h) + 1) 0 s2 host host_rid advs)
       else Inr s2))"

section \<open>Sequence numbers\<close>

definition get_sequence :: "u32 \<Rightarrow> topo \<Rightarrow> u16 result" where
  "get_sequence router_id s =
     rbind (adj_list_contains s router_id) (\<lambda>c.
       case c of None \<Rightarrow> Inr 0 | Some a \<Rightarrow> rbind (deref s a) (\<lambda>r. Inr (last_seq r)))"

definition set_sequence :: "u32 \<Rightarrow> u16 \<Rightarrow> topo \<Rightarrow> topo result" where
  "set_sequence router_id seqno s =
     rbind (adj_list_contains s router_id) (\<lambda>c.
       case c of None \<Rightarrow> Inr s | Some a \<Rightarrow> rbind (deref s a) (\<lambda>r. Inr (set_rt s a (r\<lparr>last_seq := seqno\<rparr>))))"

section \<open>Lists\<close>

lemma find_index_None: "find_index P xs = None \<longleftrightarrow> (\<forall>x \<in> set xs. \<not> P x)"
  by (induction xs) auto

lemma find_index_Some: "find_index P xs = Some i \<Longrightarrow> i < length xs \<and> P (xs ! i)"
  by (induction xs arbitrary: i) (auto split: if_splits)

lemma swap_remove_mset: "i < length xs \<Longrightarrow> mset (swap_remove i xs) = mset xs - {#xs ! i#}"
proof -
  assume i: "i < length xs"
  let ?ys = "xs[i := last xs]"
  have ne: "?ys \<noteq> []" using i by auto
  have "xs \<noteq> []" using i by auto
  then have "last ?ys = last xs" by (simp add: last_list_update)
  then have "mset ?ys = add_mset (last xs) (mset (butlast ?ys))"
    using arg_cong[OF append_butlast_last_id[OF ne], of mset] by simp
  then show ?thesis using i by (simp add: swap_remove_def mset_update)
qed

lemma length_swap_remove [simp]: "length (swap_remove i xs) = length xs - 1"
  by (simp add: swap_remove_def)

lemma swap_remove_subset: "i < length xs \<Longrightarrow> set (swap_remove i xs) \<subseteq> set xs"
  by (metis swap_remove_mset set_mset_mset diff_subset_eq_self set_mset_mono)

lemma swap_remove_distinct:
  assumes "i < length xs" "distinct xs"
  shows "distinct (swap_remove i xs)" "set (swap_remove i xs) = set xs - {xs ! i}"
proof -
  have m: "mset (swap_remove i xs) = mset_set (set xs) - {#xs ! i#}"
    using assms by (simp add: swap_remove_mset mset_set_set)
  also have "\<dots> = mset_set (set xs - {xs ! i})"
    using assms by (simp add: mset_set_Diff)
  finally have m': "mset (swap_remove i xs) = mset_set (set xs - {xs ! i})" .
  then show st: "set (swap_remove i xs) = set xs - {xs ! i}"
    by (metis finite_Diff finite_set finite_set_mset_mset_set set_mset_mset)
  have "card (set (swap_remove i xs)) = length (swap_remove i xs)"
    using assms by (simp add: st distinct_card)
  then show "distinct (swap_remove i xs)" by (rule card_distinct)
qed

lemma length_drop_subnet: "length (subnets (drop_subnet P r)) \<le> length (subnets r)"
  by (auto simp: drop_subnet_def split: option.split)

lemma drop_subnet_simps [simp]:
  "adjacencies (drop_subnet P r) = adjacencies r" "adj_buf_size (drop_subnet P r) = adj_buf_size r"
  "adj_bytes (drop_subnet P r) = adj_bytes r" "subnet_buf_size (drop_subnet P r) = subnet_buf_size r"
  "subnet_bytes (drop_subnet P r) = subnet_bytes r" "rid (drop_subnet P r) = rid r"
  "expired (drop_subnet P r) = expired r"
  by (simp_all add: drop_subnet_def split: option.split)

section \<open>The invariant\<close>

definition rt :: "topo \<Rightarrow> nat \<Rightarrow> router" where
  "rt s a = the (store s ! a)"

definition alive :: "topo \<Rightarrow> nat \<Rightarrow> bool" where
  "alive s a \<longleftrightarrow> a < length (store s) \<and> store s ! a \<noteq> None"

definition wf_router :: "nat set \<Rightarrow> router \<Rightarrow> bool" where
  "wf_router N r \<longleftrightarrow> set (adjacencies r) \<subseteq> N \<and> distinct (adjacencies r) \<and>
     length (adjacencies r) \<le> 10 \<and> adj_buf_size r = 10 \<and> adj_bytes r = 80 \<and>
     length (subnets r) \<le> 10 \<and> subnet_buf_size r = 10 \<and> subnet_bytes r = 80"

text \<open>
  The network links live routers with different identifiers, among them this router, and no
  adjacency of theirs points anywhere else.
\<close>

definition wf_topo :: "topo \<Rightarrow> bool" where
  "wf_topo s \<longleftrightarrow> distinct (network s) \<and> (\<forall>a \<in> set (network s). alive s a) \<and>
     inj_on (\<lambda>a. rid (rt s a)) (set (network s)) \<and>
     (\<forall>a \<in> set (network s). wf_router (set (network s)) (rt s a)) \<and>
     this_router s \<in> set (network s)"

lemma wf_topoD:
  assumes "wf_topo s"
  shows "distinct (network s)" "\<And>a. a \<in> set (network s) \<Longrightarrow> alive s a"
    "\<And>a b. a \<in> set (network s) \<Longrightarrow> b \<in> set (network s) \<Longrightarrow> rid (rt s a) = rid (rt s b) \<Longrightarrow> a = b"
    "\<And>a. a \<in> set (network s) \<Longrightarrow> wf_router (set (network s)) (rt s a)"
    "this_router s \<in> set (network s)"
  using assms unfolding wf_topo_def by (auto dest: inj_onD)

lemma wf_adj: "wf_topo s \<Longrightarrow> a \<in> set (network s) \<Longrightarrow> b \<in> set (adjacencies (rt s a)) \<Longrightarrow> b \<in> set (network s)"
  using wf_topoD(4) by (auto simp: wf_router_def)

lemma deref_alive [simp]: "alive s a \<Longrightarrow> deref s a = Inr (rt s a)"
  by (auto simp: alive_def deref_def rt_def)

lemma deref_net [simp]: "wf_topo s \<Longrightarrow> a \<in> set (network s) \<Longrightarrow> deref s a = Inr (rt s a)"
  by (simp add: wf_topoD(2))

lemma set_rt_simps [simp]:
  "network (set_rt s a r) = network s" "this_router (set_rt s a r) = this_router s"
  "init_time (set_rt s a r) = init_time s" "length (store (set_rt s a r)) = length (store s)"
  by (simp_all add: set_rt_def)

lemma rt_set_rt: "alive s a \<Longrightarrow> rt (set_rt s a r) b = (if b = a then r else rt s b)"
  by (auto simp: set_rt_def rt_def alive_def)

lemma alive_set_rt: "alive s a \<Longrightarrow> alive (set_rt s a r) b = alive s b"
  by (auto simp: set_rt_def alive_def nth_list_update)

text \<open>How the topology may evolve: routers come but keep their identifiers.\<close>

definition evolves :: "topo \<Rightarrow> topo \<Rightarrow> bool" where
  "evolves s s' \<longleftrightarrow> wf_topo s' \<and> set (network s) \<subseteq> set (network s') \<and>
     this_router s' = this_router s \<and> init_time s' = init_time s \<and>
     (\<forall>a \<in> set (network s). rid (rt s' a) = rid (rt s a))"

lemma evolves_refl: "wf_topo s \<Longrightarrow> evolves s s"
  by (simp add: evolves_def)

lemma evolves_trans: "evolves s t \<Longrightarrow> evolves t u \<Longrightarrow> evolves s u"
  by (auto simp: evolves_def)

lemma evolvesD: "evolves s s' \<Longrightarrow> wf_topo s'" "evolves s s' \<Longrightarrow> a \<in> set (network s) \<Longrightarrow> a \<in> set (network s')"
  by (auto simp: evolves_def)

lemma evolves_set_rt:
  assumes wf: "wf_topo s" and a: "a \<in> set (network s)" and r: "wf_router (set (network s)) r" "rid r = rid (rt s a)"
  shows "evolves s (set_rt s a r)"
proof -
  note D = wf_topoD[OF wf]
  have al: "alive s a" using D(2) a .
  have rt': "rid (rt (set_rt s a r) b) = rid (rt s b)" for b
    using r(2) al by (simp add: rt_set_rt)
  have "wf_topo (set_rt s a r)"
    unfolding wf_topo_def
  proof (intro conjI ballI)
    show "inj_on (\<lambda>b. rid (rt (set_rt s a r) b)) (set (network (set_rt s a r)))"
      using D(3) by (simp add: rt' inj_on_def)
  next
    fix b assume "b \<in> set (network (set_rt s a r))"
    then show "alive (set_rt s a r) b" "wf_router (set (network (set_rt s a r))) (rt (set_rt s a r) b)"
      using D(2)[of b] D(4)[of b] r(1) al by (simp_all add: alive_set_rt rt_set_rt)
  qed (use D(1,5) in simp_all)
  then show ?thesis by (simp add: evolves_def rt')
qed

text \<open>
  Total correctness up to the one fault left: \<open>safe P m\<close> says that \<open>m\<close> either returns with \<open>P\<close>
  or writes past an array; it never follows a dangling or null pointer, never fails an
  assertion and never diverges.
\<close>

definition safe :: "('a \<Rightarrow> bool) \<Rightarrow> 'a result \<Rightarrow> bool" where
  "safe P m \<longleftrightarrow> (case m of Inr x \<Rightarrow> P x | Inl e \<Rightarrow> e = Out_of_bounds)"

lemma safe_simps [simp]: "safe P (Inr x) = P x" "safe P (Inl e) = (e = Out_of_bounds)"
  by (simp_all add: safe_def)

lemma safe_rbind: "safe Q m \<Longrightarrow> (\<And>x. Q x \<Longrightarrow> safe P (k x)) \<Longrightarrow> safe P (rbind m k)"
  by (cases m) simp_all

lemma safe_mono: "safe Q m \<Longrightarrow> (\<And>x. Q x \<Longrightarrow> P x) \<Longrightarrow> safe P m"
  by (cases m) simp_all

lemma safe_foldr:
  assumes "P s" "\<And>x s. x \<in> set xs \<Longrightarrow> P s \<Longrightarrow> safe P (f x s)"
  shows "safe P (foldr_res f xs s)"
  using assms
proof (induction xs arbitrary: s)
  case (Cons x xs)
  show ?case
    using Cons.prems by (auto intro!: safe_rbind[of P] Cons.IH)
qed simp

section \<open>Removal\<close>

lemma set_rt_self: "alive s a \<Longrightarrow> set_rt s a (rt s a) = s"
  by (cases s) (auto simp: set_rt_def rt_def alive_def)

lemma set_rt_twice [simp]: "set_rt (set_rt s a r) a r' = set_rt s a r'"
  by (simp add: set_rt_def)

lemma adj_index_wf:
  "wf_topo s \<Longrightarrow> set as \<subseteq> set (network s) \<Longrightarrow>
   adj_index s as ident = Inr (find_index (\<lambda>a. rid (rt s a) = ident) as)"
  by (induction as) auto

lemma remove_rt_adj_eq:
  assumes wf: "wf_topo s" and h: "h \<in> set (network s)"
  obtains as' where "remove_rt_adj_using_id s h ident = Inr (set_rt s h ((rt s h)\<lparr>adjacencies := as'\<rparr>))"
    and "distinct as'" and "set as' = {b \<in> set (adjacencies (rt s h)). rid (rt s b) \<noteq> ident}"
    and "length as' \<le> length (adjacencies (rt s h))"
proof -
  let ?as = "adjacencies (rt s h)"
  have w: "set ?as \<subseteq> set (network s)" "distinct ?as"
    using wf_topoD(4)[OF wf h] by (auto simp: wf_router_def)
  have eq: "remove_rt_adj_using_id s h ident =
      Inr (case find_index (\<lambda>a. rid (rt s a) = ident) ?as of None \<Rightarrow> s
           | Some j \<Rightarrow> set_rt s h ((rt s h)\<lparr>adjacencies := swap_remove j ?as\<rparr>))"
    using wf h w by (simp add: remove_rt_adj_using_id_def adj_index_wf)
  show thesis
  proof (cases "find_index (\<lambda>a. rid (rt s a) = ident) ?as")
    case None
    then have nn: "\<forall>a \<in> set ?as. rid (rt s a) \<noteq> ident" by (simp add: find_index_None)
    have self: "set_rt s h (rt s h) = s" by (rule set_rt_self[OF wf_topoD(2)[OF wf h]])
    show thesis by (rule that[of ?as]) (use None nn self w in \<open>auto simp: eq\<close>)
  next
    case (Some j)
    note j = find_index_Some[OF Some]
    have "{b \<in> set ?as. rid (rt s b) \<noteq> ident} = set ?as - {?as ! j}"
      using j w wf_topoD(3)[OF wf, of "?as ! j"] nth_mem[of j ?as] by blast
    with Some j w show thesis
      by (intro that[of "swap_remove j ?as"]) (auto simp: eq swap_remove_distinct)
  qed
qed

text \<open>What \<open>forget\<close> leaves of a router.\<close>

definition forgotten :: "topo \<Rightarrow> u32 \<Rightarrow> router \<Rightarrow> router \<Rightarrow> bool" where
  "forgotten s ident r r' \<longleftrightarrow>
     set (adjacencies r') = {b \<in> set (adjacencies r). rid (rt s b) \<noteq> ident} \<and>
     subnets r' = subnets (drop_subnet (\<lambda>x. r_id x = ident) r) \<and>
     rid r' = rid r \<and> expired r' = expired r"

lemma wf_router_smaller:
  assumes "wf_router N r" "set (adjacencies r') \<subseteq> set (adjacencies r)" "distinct (adjacencies r')"
    "length (adjacencies r') \<le> length (adjacencies r)" "length (subnets r') \<le> length (subnets r)"
    "adj_buf_size r' = adj_buf_size r" "adj_bytes r' = adj_bytes r"
    "subnet_buf_size r' = subnet_buf_size r" "subnet_bytes r' = subnet_bytes r"
  shows "wf_router N r'"
  using assms by (auto simp: wf_router_def)

lemma forget_ok:
  assumes wf: "wf_topo s" and n: "n \<in> set (network s)"
  obtains r' where "forget ident n s = Inr (set_rt s n r')" "forgotten s ident (rt s n) r'"
    "evolves s (set_rt s n r')"
proof -
  let ?d = "drop_subnet (\<lambda>x. r_id x = ident) (rt s n)"
  have al: "alive s n" using wf_topoD(2)[OF wf n] .
  have wr: "wf_router (set (network s)) (rt s n)" using wf_topoD(4)[OF wf n] .
  then have "wf_router (set (network s)) ?d"
    by (rule wf_router_smaller) (use wr in \<open>auto simp: length_drop_subnet wf_router_def\<close>)
  from evolves_set_rt[OF wf n this] have ev: "evolves s (set_rt s n ?d)" by simp
  then obtain as' where as': "remove_rt_adj_using_id (set_rt s n ?d) n ident =
        Inr (set_rt s n (?d\<lparr>adjacencies := as'\<rparr>))" "distinct as'"
      "set as' = {b \<in> set (adjacencies ?d). rid (rt s b) \<noteq> ident}"
      "length as' \<le> length (adjacencies ?d)"
    using remove_rt_adj_eq[of "set_rt s n ?d" n ident] n al evolvesD(1)[OF ev]
    by (smt (verit, ccfv_SIG) Collect_cong drop_subnet_simps(6) rt_set_rt set_rt_simps(1) set_rt_twice)
  have "forget ident n s = Inr (set_rt s n (?d\<lparr>adjacencies := as'\<rparr>))"
    using as'(1) wf n by (simp add: forget_def remove_rt_sn_using_id_def)
  moreover have "forgotten s ident (rt s n) (?d\<lparr>adjacencies := as'\<rparr>)"
    using as'(3) by (simp add: forgotten_def)
  moreover have "wf_router (set (network s)) (?d\<lparr>adjacencies := as'\<rparr>)"
    by (rule wf_router_smaller[OF wr]) (use as' in \<open>auto simp: length_drop_subnet\<close>)
  with wf n have "evolves s (set_rt s n (?d\<lparr>adjacencies := as'\<rparr>))" by (intro evolves_set_rt) simp_all
  ultimately show thesis by (rule that)
qed

lemma forgotten_cong: "(\<And>b. rid (rt s b) = rid (rt t b)) \<Longrightarrow> forgotten s i r r' \<longleftrightarrow> forgotten t i r r'"
  by (simp add: forgotten_def)

lemma forget_loop:
  assumes "wf_topo s" "set ns \<subseteq> set (network s)" "distinct ns"
  shows "\<exists>s'. foldr_res (forget ident) ns s = Inr s' \<and> evolves s s' \<and> network s' = network s \<and>
     length (store s') = length (store s) \<and> (\<forall>b. rid (rt s' b) = rid (rt s b)) \<and>
     (\<forall>b. b \<notin> set ns \<longrightarrow> rt s' b = rt s b) \<and>
     (\<forall>b \<in> set ns. forgotten s ident (rt s b) (rt s' b))"
  using assms
proof (induction ns arbitrary: s)
  case Nil
  then show ?case by (simp add: evolves_refl)
next
  case (Cons n ns)
  then have n: "n \<in> set (network s)" and al: "alive s n" using wf_topoD(2) by auto
  obtain r' where r': "forget ident n s = Inr (set_rt s n r')" "forgotten s ident (rt s n) r'"
    "evolves s (set_rt s n r')"
    using forget_ok[OF Cons.prems(1) n] by blast
  let ?t = "set_rt s n r'"
  have rid: "rid (rt ?t b) = rid (rt s b)" for b
    using r'(2) al by (simp add: rt_set_rt forgotten_def)
  obtain s' where s': "foldr_res (forget ident) ns ?t = Inr s'" "evolves ?t s'" "network s' = network ?t"
      "length (store s') = length (store ?t)" "\<forall>b. rid (rt s' b) = rid (rt ?t b)"
      "\<forall>b. b \<notin> set ns \<longrightarrow> rt s' b = rt ?t b" "\<forall>b \<in> set ns. forgotten ?t ident (rt ?t b) (rt s' b)"
    using Cons.IH[of ?t] Cons.prems evolvesD(1)[OF r'(3)] by auto
  have "forgotten s ident (rt s b) (rt s' b)" if "b \<in> set (n # ns)" for b
    using that s'(6,7) r'(2) Cons.prems(3) al forgotten_cong[of ?t s] rid
    by (cases "b = n") (auto simp: rt_set_rt)
  with s' r' rid al show ?case
    by (intro exI[of _ s']) (auto simp: rt_set_rt intro: evolves_trans)
qed

section \<open>Expiry keeps the topology well formed\<close>

lemma rt_store_None: "b \<noteq> a \<Longrightarrow> rt (s\<lparr>store := (store s)[a := None], network := ns\<rparr>) b = rt s b"
  by (simp add: rt_def)

lemma alive_store_None: "b \<noteq> a \<Longrightarrow> alive (s\<lparr>store := (store s)[a := None], network := ns\<rparr>) b = alive s b"
  by (simp add: alive_def)

text \<open>The database without a router that nothing points to any more.\<close>

lemma wf_freed:
  assumes net: "network s = pre @ a # as" and a: "a \<noteq> this_router s"
    and wf: "wf_topo s" and adj: "\<And>b. b \<in> set (pre @ as) \<Longrightarrow> a \<notin> set (adjacencies (rt s b))"
  shows "wf_topo (s\<lparr>store := (store s)[a := None], network := pre @ as\<rparr>)" (is "wf_topo ?t")
  unfolding wf_topo_def
proof (intro conjI ballI)
  note D = wf_topoD[OF wf]
  have sub: "set (pre @ as) = set (network s) - {a}" using D(1) net by auto
  then have ne: "b \<noteq> a" if "b \<in> set (pre @ as)" for b using that by auto
  show "distinct (network ?t)" using D(1) net by simp
  show "inj_on (\<lambda>b. rid (rt ?t b)) (set (network ?t))"
    using D(3) ne sub by (auto simp: inj_on_def rt_store_None)
  show "this_router ?t \<in> set (network ?t)" using D(5) a sub by auto
  fix b assume "b \<in> set (network ?t)"
  then have b: "b \<in> set (pre @ as)" by simp
  then have "b \<in> set (network s)" using sub by blast
  then show "alive ?t b" using D(2)[of b] ne[OF b] by (simp add: alive_store_None)
  have "wf_router (set (network s)) (rt s b)" using D(4)[of b] b sub by auto
  then show "wf_router (set (network ?t)) (rt ?t b)"
    using adj[OF b] sub ne[OF b] by (auto simp: wf_router_def rt_store_None)
qed

lemma remove_from_topo_ok:
  assumes wf: "wf_topo s" and net: "network s = pre @ a # as" and a: "a \<noteq> this_router s"
  obtains s' where "remove_from_topo s a = Inr s'" "wf_topo (s'\<lparr>network := pre @ as\<rparr>)"
    "this_router s' = this_router s" "init_time s' = init_time s"
    "\<And>b. b \<in> set (pre @ as) \<Longrightarrow> rid (rt s' b) = rid (rt s b) \<and> expired (rt s' b) = expired (rt s b) \<and>
       set (adjacencies (rt s' b)) = set (adjacencies (rt s b)) - {a} \<and>
       subnets (rt s' b) = subnets (drop_subnet (\<lambda>x. r_id x = rid (rt s a)) (rt s b))"
proof -
  note D = wf_topoD[OF wf]
  have an: "a \<in> set (network s)" and al: "alive s a" using net D(2) by auto
  let ?s0 = "set_rt s a ((rt s a)\<lparr>subnets := []\<rparr>)"
  have "wf_router (set (network s)) ((rt s a)\<lparr>subnets := []\<rparr>)"
    by (rule wf_router_smaller[OF D(4)[OF an]]) (use D(4)[OF an] in \<open>auto simp: wf_router_def\<close>)
  then have ev0: "evolves s ?s0" by (intro evolves_set_rt wf an) simp_all
  have wf0: "wf_topo ?s0" by (rule evolvesD(1)[OF ev0])
  have rid0: "rid (rt ?s0 b) = rid (rt s b)" for b using al by (simp add: rt_set_rt)
  obtain s1 where s1: "foldr_res (forget (rid (rt s a))) (network s) ?s0 = Inr s1" "evolves ?s0 s1"
      "network s1 = network s" "length (store s1) = length (store s)" "\<forall>b. rid (rt s1 b) = rid (rt ?s0 b)"
      "\<forall>b \<in> set (network s). forgotten ?s0 (rid (rt s a)) (rt ?s0 b) (rt s1 b)"
    using forget_loop[OF wf0, of "network s" "rid (rt s a)"] D(1) by auto
  let ?s' = "s1\<lparr>store := (store s1)[a := None]\<rparr>"
  have sub: "set (pre @ as) = set (network s) - {a}" using D(1) net by auto
  have ne: "b \<noteq> a" if "b \<in> set (pre @ as)" for b using that sub by auto
  have th: "this_router s1 = this_router s" "init_time s1 = init_time s"
    using s1(2) ev0 by (auto simp: evolves_def)
  have facts: "rid (rt s1 b) = rid (rt s b) \<and> expired (rt s1 b) = expired (rt s b) \<and>
       set (adjacencies (rt s1 b)) = set (adjacencies (rt s b)) - {a} \<and>
       subnets (rt s1 b) = subnets (drop_subnet (\<lambda>x. r_id x = rid (rt s a)) (rt s b))"
    if b: "b \<in> set (pre @ as)" for b
  proof -
    have bn: "b \<in> set (network s)" "b \<noteq> a" using b sub by auto
    have r0: "rt ?s0 b = rt s b" using bn al by (simp add: rt_set_rt)
    have "{c \<in> set (adjacencies (rt s b)). rid (rt s c) \<noteq> rid (rt s a)} = set (adjacencies (rt s b)) - {a}"
      using D(3)[OF _ an] wf_adj[OF wf bn(1)] by blast
    then show ?thesis using s1(6) bn(1) by (simp add: forgotten_def r0 rid0)
  qed
  have wft: "wf_topo (?s'\<lparr>network := pre @ as\<rparr>)"
    using wf_freed[of s1 pre a as] facts s1(3) net a th(1) evolvesD(1)[OF s1(2)] by simp
  show thesis
  proof (rule that[of ?s'])
    show "remove_from_topo s a = Inr ?s'" using wf an s1(1) by (simp add: remove_from_topo_def)
    show "wf_topo (?s'\<lparr>network := pre @ as\<rparr>)" by (rule wft)
    show "this_router ?s' = this_router s" "init_time ?s' = init_time s" using th by simp_all
    fix b assume b: "b \<in> set (pre @ as)"
    have "rt ?s' b = rt s1 b" using ne[OF b] by (simp add: rt_def)
    then show "rid (rt ?s' b) = rid (rt s b) \<and> expired (rt ?s' b) = expired (rt s b) \<and>
       set (adjacencies (rt ?s' b)) = set (adjacencies (rt s b)) - {a} \<and>
       subnets (rt ?s' b) = subnets (drop_subnet (\<lambda>x. r_id x = rid (rt s a)) (rt s b))"
      using facts[OF b] by simp
  qed
qed

text \<open>A router the walk deletes.\<close>

definition dead :: "time \<Rightarrow> topo \<Rightarrow> nat \<Rightarrow> bool" where
  "dead now s a \<longleftrightarrow> expired (rt s a) \<le> now \<and> rid (rt s a) \<noteq> rid (rt s (this_router s))"

lemma unlink_append [simp]: "unlink pre as = pre @ as"
  by (simp add: unlink_def)

text \<open>A turn of the walk that deletes a router.\<close>

lemma top_walk_deletes:
  assumes wf: "wf_topo s" and net: "network s = pre @ a # as" and dead: "dead now s a"
  obtains t where "top_walk now (a # as) pre ch s = top_walk now as pre True t" "wf_topo t"
    "network t = pre @ as" "this_router t = this_router s" "init_time t = init_time s"
    "\<And>b. b \<in> set (pre @ as) \<Longrightarrow> rid (rt t b) = rid (rt s b) \<and> expired (rt t b) = expired (rt s b) \<and>
       set (adjacencies (rt t b)) = set (adjacencies (rt s b)) - {a} \<and> dead now t b = dead now s b"
proof -
  have an: "a \<in> set (network s)" using net by simp
  have ne: "a \<noteq> this_router s" using dead by (auto simp: dead_def)
  obtain t where t: "remove_from_topo s a = Inr t" "wf_topo (t\<lparr>network := pre @ as\<rparr>)"
    "this_router t = this_router s" "init_time t = init_time s"
    "\<And>b. b \<in> set (pre @ as) \<Longrightarrow> rid (rt t b) = rid (rt s b) \<and> expired (rt t b) = expired (rt s b) \<and>
       set (adjacencies (rt t b)) = set (adjacencies (rt s b)) - {a}"
    using remove_from_topo_ok[OF wf net ne] by metis
  let ?t = "t\<lparr>network := pre @ as\<rparr>"
  have rt: "rt ?t b = rt t b" for b by (simp add: rt_def)
  have th: "this_router s \<in> set (pre @ as)" using wf_topoD(5)[OF wf] net ne by auto
  show thesis
  proof (rule that[of ?t])
    show "top_walk now (a # as) pre ch s = top_walk now as pre True ?t"
      using dead t(1) an wf_topoD(5)[OF wf] wf by (simp add: dead_def)
    show "rid (rt ?t b) = rid (rt s b) \<and> expired (rt ?t b) = expired (rt s b) \<and>
        set (adjacencies (rt ?t b)) = set (adjacencies (rt s b)) - {a} \<and> dead now ?t b = dead now s b"
      if "b \<in> set (pre @ as)" for b
      using t(3) t(5)[OF that] t(5)[OF th] by (simp add: dead_def rt)
  qed (use t in simp_all)
qed

lemma top_walk_ok:
  assumes "wf_topo s" "network s = pre @ cur" "\<forall>b \<in> set pre. \<not> dead now s b"
  shows "\<exists>s'. top_walk now cur pre ch s = Inr (ch \<or> (\<exists>a \<in> set cur. dead now s a), s') \<and> wf_topo s' \<and>
     this_router s' = this_router s \<and> init_time s' = init_time s \<and>
     network s' = filter (\<lambda>a. \<not> dead now s a) (network s) \<and>
     (\<forall>b \<in> set (network s'). rid (rt s' b) = rid (rt s b) \<and> expired (rt s' b) = expired (rt s b) \<and>
        set (adjacencies (rt s' b)) = {c \<in> set (adjacencies (rt s b)). \<not> dead now s c})"
  using assms
proof (induction cur arbitrary: pre ch s)
  case Nil
  have "\<not> dead now s c" if "b \<in> set (network s)" "c \<in> set (adjacencies (rt s b))" for b c
    using wf_adj[OF Nil.prems(1) that] Nil.prems(2,3) by simp
  with Nil show ?case by auto
next
  case (Cons a as)
  have an: "a \<in> set (network s)" using Cons.prems by simp
  have me: "deref s (this_router s) = Inr (rt s (this_router s))"
    using Cons.prems(1) wf_topoD(5) by simp
  show ?case
  proof (cases "dead now s a")
    case False
    then have "\<not> (expired (rt s a) \<le> now \<and> rid (rt s a) \<noteq> rid (rt s (this_router s)))" by (simp add: dead_def)
    with Cons.IH[of s "pre @ [a]" ch] Cons.prems False an me show ?thesis by auto
  next
    case True
    from Cons.prems(2) obtain t where t: "top_walk now (a # as) pre ch s = top_walk now as pre True t" "wf_topo t"
      "network t = pre @ as" "this_router t = this_router s" "init_time t = init_time s"
      and r: "\<And>b. b \<in> set (pre @ as) \<Longrightarrow> rid (rt t b) = rid (rt s b) \<and> expired (rt t b) = expired (rt s b) \<and>
         set (adjacencies (rt t b)) = set (adjacencies (rt s b)) - {a} \<and> dead now t b = dead now s b"
      using top_walk_deletes[OF Cons.prems(1) _ True] by metis
    obtain s' where s': "top_walk now as pre True t = Inr (True, s')" "wf_topo s'"
        "this_router s' = this_router t" "init_time s' = init_time t"
        "network s' = filter (\<lambda>a. \<not> dead now t a) (network t)"
        "\<forall>b \<in> set (network s'). rid (rt s' b) = rid (rt t b) \<and> expired (rt s' b) = expired (rt t b) \<and>
          set (adjacencies (rt s' b)) = {c \<in> set (adjacencies (rt t b)). \<not> dead now t c}"
      using Cons.IH[of t pre True] t(2,3) Cons.prems(3) r by auto
    have "filter (\<lambda>a. \<not> dead now t a) (pre @ as) = filter (\<lambda>a. \<not> dead now s a) (pre @ as)"
      by (rule filter_cong) (use r in simp_all)
    then have net: "network s' = filter (\<lambda>a. \<not> dead now s a) (network s)"
      using True Cons.prems(2) s'(5) t(3) by simp
    have "rid (rt s' b) = rid (rt s b) \<and> expired (rt s' b) = expired (rt s b) \<and>
        set (adjacencies (rt s' b)) = {c \<in> set (adjacencies (rt s b)). \<not> dead now s c}"
      if b: "b \<in> set (network s')" for b
    proof -
      have bp: "b \<in> set (pre @ as)" using b s'(5) t(3) by auto
      have "c \<in> set (pre @ as)" if "c \<in> set (adjacencies (rt s b)) - {a}" for c
        using wf_adj[OF Cons.prems(1), of b c] that bp Cons.prems(2) by auto
      then have "{c \<in> set (adjacencies (rt t b)). \<not> dead now t c} = {c \<in> set (adjacencies (rt s b)). \<not> dead now s c}"
        using r[OF bp] r True by auto
      then show ?thesis using s'(6) b r[OF bp] by simp
    qed
    with s' net show ?thesis using True t by (intro exI[of _ s']) simp
  qed
qed

section \<open>Link state updates keep the topology well formed\<close>

lemma net_walk_wf:
  "wf_topo s \<Longrightarrow> set as \<subseteq> set (network s) \<Longrightarrow> net_walk s as ident = Inr (find (\<lambda>a. rid (rt s a) = ident) as)"
  by (induction as) auto

lemma adj_list_contains_wf:
  "wf_topo s \<Longrightarrow> adj_list_contains s ident = Inr (find (\<lambda>a. rid (rt s a) = ident) (network s))"
  by (simp add: adj_list_contains_def net_walk_wf)

lemma find_SomeD: "find P xs = Some x \<Longrightarrow> x \<in> set xs \<and> P x"
  by (auto simp: find_Some_iff)

text \<open>A record update of one router that keeps its links and array bounds.\<close>

lemma evolves_update:
  assumes "wf_topo s" "a \<in> set (network s)" "rid r = rid (rt s a)" "adjacencies r = adjacencies (rt s a)"
    "length (subnets r) \<le> 10" "adj_buf_size r = adj_buf_size (rt s a)" "adj_bytes r = adj_bytes (rt s a)"
    "subnet_buf_size r = subnet_buf_size (rt s a)" "subnet_bytes r = subnet_bytes (rt s a)"
  shows "evolves s (set_rt s a r)"
  using wf_topoD(4)[OF assms(1,2)] assms by (intro evolves_set_rt) (auto simp: wf_router_def)

lemma wf_lengths:
  "wf_topo s \<Longrightarrow> a \<in> set (network s) \<Longrightarrow> length (subnets (rt s a)) \<le> 10 \<and> length (adjacencies (rt s a)) \<le> 10"
  using wf_topoD(4) by (auto simp: wf_router_def)

lemma add_new_route_eq:
  assumes "wf_topo s" "h \<in> set (network s)"
  shows "add_new_route s r h =
    (if length (subnets (rt s h)) = 10 then Inl Out_of_bounds
     else Inr (set_rt s h ((rt s h)\<lparr>subnets := subnets (rt s h) @ [r]\<rparr>)))"
proof -
  have "wf_router (set (network s)) (rt s h)" using wf_topoD(4) assms .
  then show ?thesis
    using assms
    by (cases "rt s h") (auto simp: add_new_route_def grow_def ptr_bytes_def wf_router_def Let_def)
qed

lemma safe_add_new_route:
  assumes "wf_topo s" "h \<in> set (network s)"
  shows "safe (evolves s) (add_new_route s r h)"
  using assms wf_lengths[OF assms] by (auto simp: add_new_route_eq intro!: evolves_update)

lemma safe_add_adjacency:
  assumes "wf_topo s" "h \<in> set (network s)" "c \<in> set (network s)" "c \<notin> set (adjacencies (rt s h))"
  shows "safe (evolves s) (add_adjacency s h c)"
proof -
  have w: "wf_router (set (network s)) (rt s h)" using wf_topoD(4) assms(1,2) .
  show ?thesis
  proof (cases "length (adjacencies (rt s h)) = 10")
    case True
    with w assms show ?thesis by (simp add: add_adjacency_def grow_def ptr_bytes_def wf_router_def)
  next
    case False
    with w assms have "add_adjacency s h c =
        Inr (set_rt s h ((rt s h)\<lparr>adjacencies := adjacencies (rt s h) @ [c]\<rparr>))"
      by (cases "rt s h") (simp add: add_adjacency_def grow_def ptr_bytes_def wf_router_def)
    moreover have "evolves s (set_rt s h ((rt s h)\<lparr>adjacencies := adjacencies (rt s h) @ [c]\<rparr>))"
      using w False assms by (intro evolves_set_rt) (auto simp: wf_router_def)
    ultimately show ?thesis by simp
  qed
qed

lemma router_has_adjacency_eq:
  assumes "wf_topo s" "h \<in> set (network s)" "c \<in> set (network s)"
  shows "router_has_adjacency s h c = Inr (c \<in> set (adjacencies (rt s h)))"
proof -
  have sub: "set (adjacencies (rt s h)) \<subseteq> set (network s)"
    using wf_adj[OF assms(1,2)] by blast
  then have "(find_index (\<lambda>a. rid (rt s a) = rid (rt s c)) (adjacencies (rt s h)) \<noteq> None) \<longleftrightarrow>
      c \<in> set (adjacencies (rt s h))"
    unfolding find_index_None using wf_topoD(3)[OF assms(1) _ assms(3)] by blast
  with sub assms show ?thesis by (simp add: router_has_adjacency_def adj_index_wf)
qed

lemma safe_connect:
  "wf_topo s \<Longrightarrow> h \<in> set (network s) \<Longrightarrow> c \<in> set (network s) \<Longrightarrow> safe (evolves s) (connect s h c)"
  by (simp add: connect_def router_has_adjacency_eq evolves_refl safe_add_adjacency)

lemma safe_set_sub_rid:
  "wf_topo s \<Longrightarrow> a \<in> set (network s) \<Longrightarrow> safe (evolves s) (set_sub_rid s a j ident)"
  using wf_lengths[of s a] by (auto simp: set_sub_rid_def intro!: evolves_update)

lemma evolves_drop_subnet:
  assumes "wf_topo s" "a \<in> set (network s)"
  shows "evolves s (set_rt s a (drop_subnet P (rt s a)))"
  using wf_lengths[OF assms] length_drop_subnet[of P "rt s a"] assms
  by (intro evolves_update) auto

lemma safe_remove_rt_sn:
  "wf_topo s \<Longrightarrow> a \<in> set (network s) \<Longrightarrow> safe (evolves s) (remove_rt_sn_using_id s a ident)"
  by (simp add: remove_rt_sn_using_id_def evolves_drop_subnet)

lemma safe_remove_rt_adj:
  assumes "wf_topo s" "a \<in> set (network s)"
  shows "safe (evolves s) (remove_rt_adj_using_id s a ident)"
proof -
  obtain as' where as': "remove_rt_adj_using_id s a ident = Inr (set_rt s a ((rt s a)\<lparr>adjacencies := as'\<rparr>))"
    "distinct as'" "set as' = {b \<in> set (adjacencies (rt s a)). rid (rt s b) \<noteq> ident}"
    "length as' \<le> length (adjacencies (rt s a))"
    by (rule remove_rt_adj_eq[OF assms])
  have "wf_router (set (network s)) ((rt s a)\<lparr>adjacencies := as'\<rparr>)"
    by (rule wf_router_smaller[OF wf_topoD(4)[OF assms]]) (use as' in auto)
  with as'(1) assms show ?thesis by (simp add: evolves_set_rt)
qed

lemma safe_remove_subnet:
  assumes "wf_topo s" "a \<in> set (network s)"
  shows "safe (evolves s) (remove_subnet_from_router s a r)"
proof -
  let ?s = "set_rt s a (drop_subnet (\<lambda>x. route_cmp x r = 0) (rt s a))"
  have ev: "evolves s ?s" by (rule evolves_drop_subnet[OF assms])
  have "safe (evolves s) (remove_rt_adj_using_id ?s a (r_id r))"
    by (rule safe_mono[OF safe_remove_rt_adj]) (use ev assms in \<open>auto dest: evolvesD intro: evolves_trans\<close>)
  then show ?thesis using ev assms by (simp add: remove_subnet_from_router_def Let_def)
qed

lemma find_or_add_ok:
  assumes wf: "wf_topo s"
  obtains s' a where "find_or_add s now ident = Inr (s', a)" "evolves s s'" "a \<in> set (network s')"
    "rid (rt s' a) = ident"
proof (cases "find (\<lambda>a. rid (rt s a) = ident) (network s)")
  case (Some a)
  with wf show thesis
    by (intro that[of s a]) (auto simp: find_or_add_def adj_list_contains_wf evolves_refl dest: find_SomeD)
next
  case None
  let ?n = "length (store s)"
  let ?s = "s\<lparr>store := store s @ [Some (new_router now ident)], network := network s @ [?n]\<rparr>"
  note D = wf_topoD[OF wf]
  have lt: "a < ?n" if "a \<in> set (network s)" for a using D(2)[OF that] by (simp add: alive_def)
  have old: "rt ?s a = rt s a" "alive ?s a" if "a \<in> set (network s)" for a
    using lt[OF that] D(2)[OF that] by (simp_all add: rt_def alive_def nth_append)
  have new: "rt ?s ?n = new_router now ident" "alive ?s ?n" by (simp_all add: rt_def alive_def)
  have fresh: "rid (rt s a) \<noteq> ident" if "a \<in> set (network s)" for a using None that by (simp add: find_None_iff)
  have ridn: "rid (rt ?s ?n) = ident" by (simp only: new) (simp add: new_router_def)
  have rido: "rid (rt ?s a) = rid (rt s a)" if "a \<in> set (network s)" for a using old(1)[OF that] by simp
  have "wf_topo ?s"
    unfolding wf_topo_def
  proof (intro conjI ballI)
    show "distinct (network ?s)" using D(1) lt by auto
  next
    fix a assume "a \<in> set (network ?s)"
    then show "alive ?s a" using old(2) new(2) by auto
  next
    show "inj_on (\<lambda>a. rid (rt ?s a)) (set (network ?s))"
      using D(3) fresh ridn rido by (simp add: inj_on_def) metis
  next
    fix a assume "a \<in> set (network ?s)"
    then consider "a \<in> set (network s)" | "a = ?n" by auto
    then show "wf_router (set (network ?s)) (rt ?s a)"
    proof cases
      case 1
      then show ?thesis using D(4)[OF 1] by (auto simp: old wf_router_def)
    next
      case 2
      then show ?thesis by (simp only: new) (simp add: wf_router_def new_router_def topo_consts)
    qed
  qed (use D(5) in simp)
  then have "evolves s ?s" by (auto simp: evolves_def old)
  with None wf new show thesis
    by (intro that[of ?s ?n]) (auto simp: find_or_add_def adj_list_contains_wf add_new_router_def new_router_def)
qed

lemma safe_advertise_host:
  assumes "wf_topo s" "h \<in> set (network s)"
  shows "safe (\<lambda>(s', _). evolves s s') (advertise_host s h r)"
proof -
  have *: "safe (\<lambda>(s', _). evolves s s') (rbind m (\<lambda>s'. Inr (s', b)))"
    if "safe (evolves s) m" for m and b :: bool
    by (rule safe_rbind[OF that]) simp
  show ?thesis
    using assms * safe_add_new_route[OF assms] safe_set_sub_rid[OF assms] safe_remove_subnet[OF assms]
    by (auto simp: advertise_host_def evolves_refl Let_def split: option.split)
qed

lemma safe_advertise_opposite:
  assumes "wf_topo s" "h \<in> set (network s)" "c \<in> set (network s)"
  shows "safe (evolves s) (advertise_opposite s h c r)"
  using assms safe_add_new_route safe_set_sub_rid safe_remove_subnet
  by (auto simp: advertise_opposite_def evolves_refl Let_def split: option.split)

lemma evolves_step:
  "evolves s t \<Longrightarrow> (wf_topo t \<Longrightarrow> safe (evolves t) m) \<Longrightarrow> safe (evolves s) m"
  by (rule safe_mono[of "evolves t"]) (auto dest: evolvesD intro: evolves_trans)

lemma safe_add_advert:
  assumes "evolves s0 s" "h \<in> set (network s0)"
  shows "safe (evolves s0) (add_advert now h r s)"
proof -
  note wf = evolvesD(1)[OF assms(1)] and h = evolvesD(2)[OF assms]
  show ?thesis
    unfolding add_advert_def
  proof (rule safe_rbind[OF safe_advertise_host[OF wf h, of r]], clarify)
    fix s1 skip assume "evolves s s1"
    then have ev1: "evolves s0 s1" using assms(1) evolves_trans by blast
    note wf1 = evolvesD(1)[OF ev1]
    show "safe (evolves s0) (if skip \<or> r_id r = 0 then Inr s1
       else rbind (find_or_add s1 now (r_id r)) (\<lambda>(s2, con). rbind (connect s2 h con)
         (\<lambda>s3. rbind (connect s3 con h) (\<lambda>s4. advertise_opposite s4 h con r))))"
    proof (cases "skip \<or> r_id r = 0")
      case False
      obtain s2 con where s2: "find_or_add s1 now (r_id r) = Inr (s2, con)" "evolves s1 s2"
        "con \<in> set (network s2)"
        by (rule find_or_add_ok[OF wf1])
      have ev2: "evolves s0 s2" using ev1 s2(2) by (rule evolves_trans)
      have in_t: "h \<in> set (network t)" "con \<in> set (network t)" "wf_topo t" if "evolves s2 t" for t
        using that evolvesD(2)[OF evolves_trans[OF ev2 that] assms(2)] evolvesD(2)[OF that s2(3)]
          evolvesD(1)[OF that] by auto
      have "safe (evolves s2) (rbind (connect s2 h con)
         (\<lambda>s3. rbind (connect s3 con h) (\<lambda>s4. advertise_opposite s4 h con r)))"
      proof (rule safe_rbind[of "evolves s2"])
        show "safe (evolves s2) (connect s2 h con)"
          using in_t[OF evolves_refl[OF evolvesD(1)[OF s2(2)]]] by (intro safe_connect)
        fix s3 assume ev3: "evolves s2 s3"
        show "safe (evolves s2) (rbind (connect s3 con h) (\<lambda>s4. advertise_opposite s4 h con r))"
        proof (rule safe_rbind[of "evolves s2"])
          show "safe (evolves s2) (connect s3 con h)"
            by (rule evolves_step[OF ev3]) (use in_t[OF ev3] in \<open>intro safe_connect\<close>)
          fix s4 assume ev4: "evolves s2 s4"
          show "safe (evolves s2) (advertise_opposite s4 h con r)"
            by (rule evolves_step[OF ev4]) (use in_t[OF ev4] in \<open>intro safe_advertise_opposite\<close>)
        qed
      qed
      then show ?thesis
        using False s2(1) by (auto intro: safe_mono evolves_trans[OF ev2])
    qed (use ev1 in simp)
  qed
qed

lemma safe_add_to_existing_router:
  assumes "wf_topo s" "h \<in> set (network s)"
  shows "safe (evolves s) (add_to_existing_router s now routes h)"
proof -
  have "evolves s (set_rt s h ((rt s h)\<lparr>expired := now + 3 * OSPF_DEFAULT_LSUINT\<rparr>))"
    using wf_lengths[OF assms] by (intro evolves_update assms) simp_all
  then have "safe (evolves s) (foldr_res (add_advert now h) routes
      (set_rt s h ((rt s h)\<lparr>expired := now + 3 * OSPF_DEFAULT_LSUINT\<rparr>)))"
    by (rule safe_foldr) (rule safe_add_advert[OF _ assms(2)])
  then show ?thesis using assms by (simp add: add_to_existing_router_def)
qed

text \<open>The pruning loop: no step adds a subnet to any router, and each turn shortens the host's array.\<close>

definition trims :: "topo \<Rightarrow> topo \<Rightarrow> bool" where
  "trims s s' \<longleftrightarrow> evolves s s' \<and> (\<forall>b. length (subnets (rt s' b)) \<le> length (subnets (rt s b)))"

lemma trims_trans: "trims s t \<Longrightarrow> trims t u \<Longrightarrow> trims s u"
  unfolding trims_def using evolves_trans le_trans by blast

lemma trims_remove_sn:
  assumes "wf_topo s" "a \<in> set (network s)"
  obtains s' where "remove_rt_sn_using_id s a ident = Inr s'" "trims s s'"
    "rt s' a = drop_subnet (\<lambda>x. r_id x = ident) (rt s a)"
proof (rule that)
  show "remove_rt_sn_using_id s a ident = Inr (set_rt s a (drop_subnet (\<lambda>x. r_id x = ident) (rt s a)))"
    using assms by (simp add: remove_rt_sn_using_id_def)
  have al: "alive s a" using wf_topoD(2)[OF assms] .
  then show "rt (set_rt s a (drop_subnet (\<lambda>x. r_id x = ident) (rt s a))) a =
      drop_subnet (\<lambda>x. r_id x = ident) (rt s a)" by (simp add: rt_set_rt)
  show "trims s (set_rt s a (drop_subnet (\<lambda>x. r_id x = ident) (rt s a)))"
    using evolves_drop_subnet[OF assms] al by (auto simp: trims_def rt_set_rt length_drop_subnet)
qed

lemma trims_remove_adj:
  assumes "wf_topo s" "a \<in> set (network s)"
  obtains s' where "remove_rt_adj_using_id s a ident = Inr s'" "trims s s'"
proof -
  obtain as' where as': "remove_rt_adj_using_id s a ident = Inr (set_rt s a ((rt s a)\<lparr>adjacencies := as'\<rparr>))"
    by (rule remove_rt_adj_eq[OF assms])
  have "evolves s (set_rt s a ((rt s a)\<lparr>adjacencies := as'\<rparr>))"
    using safe_remove_rt_adj[OF assms, of ident] as' by simp
  moreover have al: "alive s a" using wf_topoD(2)[OF assms] .
  ultimately show thesis using as' by (intro that) (auto simp: trims_def rt_set_rt)
qed

lemma length_drop_subnet_less:
  assumes "x \<in> set (subnets r)" "P x"
  shows "length (subnets (drop_subnet P r)) < length (subnets r)"
proof -
  have "find_index P (subnets r) \<noteq> None" using assms by (auto simp: find_index_None)
  moreover have "subnets r \<noteq> []" using assms(1) by auto
  ultimately show ?thesis by (auto simp: drop_subnet_def)
qed

lemma prune_subnet_ok:
  assumes wf: "wf_topo s" and h: "h \<in> set (network s)" and x: "x \<in> set (subnets (rt s h))"
  obtains s' where "prune_subnet s h hid (r_id x) = Inr s'" "evolves s s'"
    "length (subnets (rt s' h)) < length (subnets (rt s h))"
proof -
  obtain s1 where s1: "remove_rt_sn_using_id s h (r_id x) = Inr s1" "trims s s1"
      "rt s1 h = drop_subnet (\<lambda>y. r_id y = r_id x) (rt s h)"
    by (rule trims_remove_sn[OF wf h])
  have less: "length (subnets (rt s1 h)) < length (subnets (rt s h))"
    using length_drop_subnet_less[OF x] s1(3) by simp
  have ev1: "evolves s s1" using s1(2) by (simp add: trims_def)
  show thesis
  proof (cases "find (\<lambda>a. rid (rt s a) = r_id x) (network s)")
    case None
    with s1 wf ev1 less show thesis
      by (intro that[of s1]) (simp_all add: prune_subnet_def adj_list_contains_wf)
  next
    case (Some n)
    then have "n \<in> set (network s)" by (auto dest: find_SomeD)
    then have nh: "n \<in> set (network t)" "h \<in> set (network t)" "wf_topo t" if "trims s t" for t
      using that h by (auto simp: trims_def dest: evolvesD)
    obtain s2 where s2: "remove_rt_sn_using_id s1 n hid = Inr s2" "trims s1 s2"
      using nh[OF s1(2)] by (metis trims_remove_sn)
    have t2: "trims s s2" using trims_trans s1(2) s2(2) by blast
    obtain s3 where s3: "remove_rt_adj_using_id s2 n hid = Inr s3" "trims s2 s3"
      using nh[OF t2] by (metis trims_remove_adj)
    have t3: "trims s s3" using trims_trans t2 s3(2) by blast
    obtain s4 where s4: "remove_rt_adj_using_id s3 h (rid (rt s3 n)) = Inr s4" "trims s3 s4"
      using nh[OF t3] by (metis trims_remove_adj)
    have t14: "trims s1 s4" using s2(2) s3(2) s4(2) trims_trans by blast
    have "prune_subnet s h hid (r_id x) = Inr s4"
      using Some s1(1) s2(1) s3(1) s4(1) wf nh[OF t3]
      by (simp add: prune_subnet_def adj_list_contains_wf)
    moreover have "evolves s s4" using t14 ev1 evolves_trans by (auto simp: trims_def)
    moreover have "length (subnets (rt s4 h)) < length (subnets (rt s h))"
      using t14 less by (auto simp: trims_def intro: le_less_trans)
    ultimately show thesis by (rule that)
  qed
qed

lemma prune_ok:
  assumes "wf_topo s" "h \<in> set (network s)" "length (subnets (rt s h)) - i < fuel"
  shows "\<exists>s'. prune fuel i s h hid advs = Inr s' \<and> evolves s s'"
  using assms
proof (induction fuel arbitrary: i s)
  case (Suc fuel)
  let ?subs = "subnets (rt s h)"
  show ?case
  proof (cases "i < length ?subs \<and> \<not> sub_in_adv advs (?subs ! i)")
    case True
    then obtain s1 where s1: "prune_subnet s h hid (r_id (?subs ! i)) = Inr s1" "evolves s s1"
        "length (subnets (rt s1 h)) < length ?subs"
      using prune_subnet_ok[OF Suc.prems(1,2), of "?subs ! i" hid] by (metis nth_mem)
    then obtain s' where "prune fuel i s1 h hid advs = Inr s'" "evolves s1 s'"
      using Suc.IH[of s1 i] Suc.prems True evolvesD by fastforce
    with True s1 Suc.prems show ?thesis by (auto intro: evolves_trans)
  next
    case False
    then show ?thesis using Suc.IH[of s "i + 1"] Suc.prems by (auto simp: evolves_refl)
  qed
qed simp

lemma merge_lsu_ok:
  assumes "wf_topo s"
  shows "(\<exists>s'. merge_lsu s now host_rid advs = Inr s' \<and> evolves s s' \<and>
              (\<exists>a \<in> set (network s'). rid (rt s' a) = host_rid)) \<or>
         merge_lsu s now host_rid advs = Inl Out_of_bounds"
proof -
  obtain s1 host where s1: "find_or_add s now host_rid = Inr (s1, host)" "evolves s s1"
      "host \<in> set (network s1)" "rid (rt s1 host) = host_rid"
    by (rule find_or_add_ok[OF assms])
  have wf1: "wf_topo s1" by (rule evolvesD(1)[OF s1(2)])
  have "safe (evolves s1) (rbind (add_to_existing_router s1 now advs host) (\<lambda>s2.
       if init_time s2 < now
       then rbind (deref s2 host) (\<lambda>h. prune (length (subnets h) + 1) 0 s2 host host_rid advs)
       else Inr s2))"
  proof (rule safe_rbind[OF safe_add_to_existing_router[OF wf1 s1(3)]])
    fix s2 assume ev: "evolves s1 s2"
    then have wf2: "wf_topo s2" "host \<in> set (network s2)" using s1(3) by (auto dest: evolvesD)
    obtain s' where "prune (length (subnets (rt s2 host)) + 1) 0 s2 host host_rid advs = Inr s'" "evolves s2 s'"
      using prune_ok[OF wf2, of 0 "length (subnets (rt s2 host)) + 1"] by (auto simp del: prune.simps)
    then show "safe (evolves s1) (if init_time s2 < now
       then rbind (deref s2 host) (\<lambda>h. prune (length (subnets h) + 1) 0 s2 host host_rid advs)
       else Inr s2)"
      using wf2 ev evolves_trans by (simp del: prune.simps)
  qed
  then have safe: "safe (evolves s1) (merge_lsu s now host_rid advs)" using s1(1) by (simp add: merge_lsu_def)
  show ?thesis
  proof (cases "merge_lsu s now host_rid advs")
    case (Inr s')
    with safe have ev: "evolves s1 s'" by simp
    then have "host \<in> set (network s')" "rid (rt s' host) = host_rid" using s1(3,4) by (auto simp: evolves_def)
    with Inr evolves_trans[OF s1(2) ev] show ?thesis by auto
  qed (use safe in simp)
qed

text \<open>
  C7. The topology database stays well formed. Merging a link state update, whatever it
  advertises, ends (the pruning loop included), follows no dangling or null pointer, and either leaves a
  database in which every linked router is live, identifiers are unique and every adjacency
  points to a linked router, or stops at the one fault left: a write past a pointer array.
\<close>
theorem merge_lsu_safe:
  assumes "wf_topo s"
  shows "(\<exists>s'. merge_lsu s now host_rid advs = Inr s' \<and> wf_topo s' \<and>
              set (network s) \<subseteq> set (network s') \<and>
              (\<exists>a \<in> set (network s'). rid (rt s' a) = host_rid)) \<or>
         merge_lsu s now host_rid advs = Inl Out_of_bounds"
  using merge_lsu_ok[OF assms, of now host_rid advs] by (auto simp: evolves_def)

text \<open>The database of a router that knows only itself, as \<^verbatim>\<open>pwospf_init\<close> first makes it.\<close>

definition alone :: "time \<Rightarrow> u32 \<Rightarrow> topo" where
  "alone now ip = (fst (add_new_router \<lparr>store = [], network = [], this_router = 0, init_time = now + 90\<rparr> now ip))"

lemma wf_alone: "wf_topo (alone now ip)"
  by (simp add: alone_def add_new_router_def wf_topo_def alive_def rt_def wf_router_def new_router_def topo_consts)

theorem merge_lsu_safe_witness:
  "(\<exists>s'. merge_lsu (alone 0 1) 100 2 [] = Inr s' \<and> wf_topo s') \<or>
   merge_lsu (alone 0 1) 100 2 [] = Inl Out_of_bounds"
  using merge_lsu_safe[OF wf_alone, of 0 1 100 2 "[]"] by blast

section \<open>What an update of a new router leaves\<close>

lemma prune_id:
  assumes "wf_topo s" "h \<in> set (network s)" "length (subnets (rt s h)) - i < fuel"
    "\<forall>x \<in> set (subnets (rt s h)). sub_in_adv advs x"
  shows "prune fuel i s h hid advs = Inr s"
  using assms by (induction fuel arbitrary: i) auto

lemma add_advert_stub:
  assumes "wf_topo t" "h \<in> set (network t)" "r_id r = 0" "prefix r \<notin> prefix ` set (subnets (rt t h))"
  shows "add_advert now h r t =
    (if length (subnets (rt t h)) = 10 then Inl Out_of_bounds
     else Inr (set_rt t h ((rt t h)\<lparr>subnets := subnets (rt t h) @ [r]\<rparr>)))"
proof -
  have neq: "\<forall>x \<in> set (subnets (rt t h)). prefix x \<noteq> prefix r" using assms(4) by (metis imageI)
  have "find_index (\<lambda>x. route_cmp x r = 0) (subnets (rt t h)) = None"
    "find_index (\<lambda>x. prefix x = prefix r) (subnets (rt t h)) = None"
    using neq by (auto simp: find_index_None route_cmp_def)
  then show ?thesis
    using assms by (simp add: add_advert_def advertise_host_def router_contains_def
        router_contains_subnet_def add_new_route_eq)
qed

lemma add_adverts_stub:
  assumes "wf_topo t" "h \<in> set (network t)" "\<forall>r \<in> set rs. r_id r = 0"
    "distinct (map prefix (subnets (rt t h) @ rs))"
  shows "foldr_res (add_advert now h) rs t =
    (if length (subnets (rt t h)) + length rs \<le> 10
     then Inr (set_rt t h ((rt t h)\<lparr>subnets := subnets (rt t h) @ rs\<rparr>)) else Inl Out_of_bounds)"
  using assms
proof (induction rs arbitrary: t)
  case Nil
  then show ?case
    using wf_lengths[OF Nil.prems(1,2)] set_rt_self[OF wf_topoD(2)[OF Nil.prems(1,2)]] by simp
next
  case (Cons r rs)
  have step: "add_advert now h r t =
    (if length (subnets (rt t h)) = 10 then Inl Out_of_bounds
     else Inr (set_rt t h ((rt t h)\<lparr>subnets := subnets (rt t h) @ [r]\<rparr>)))"
    using Cons.prems by (intro add_advert_stub) auto
  let ?t = "set_rt t h ((rt t h)\<lparr>subnets := subnets (rt t h) @ [r]\<rparr>)"
  show ?case
  proof (cases "length (subnets (rt t h)) = 10")
    case False
    then have ev: "evolves t ?t"
      using wf_lengths[OF Cons.prems(1,2)] by (intro evolves_update Cons.prems) simp_all
    have rt': "rt ?t h = (rt t h)\<lparr>subnets := subnets (rt t h) @ [r]\<rparr>"
      using wf_topoD(2)[OF Cons.prems(1,2)] by (simp add: rt_set_rt)
    show ?thesis
      using Cons.IH[of ?t] Cons.prems evolvesD[OF ev] step False by (simp add: rt')
  qed (simp add: step)
qed

text \<open>The router that such an update enters, and what its advertisements make of it.\<close>

lemma new_router_adverts:
  fixes s :: topo and now :: time and host_rid :: u32
  defines "s1 \<equiv> fst (add_new_router s now host_rid)" and "h \<equiv> length (store s)"
  assumes "wf_topo s" and "\<forall>a \<in> set (network s). rid (rt s a) \<noteq> host_rid"
    and "\<forall>r \<in> set advs. r_id r = 0" and "distinct (map prefix advs)"
  shows "find_or_add s now host_rid = Inr (s1, h)" and "wf_topo s1" and "h \<in> set (network s1)" and "alive s1 h"
    and "add_to_existing_router s1 now advs h =
      (if length advs \<le> 10 then Inr (set_rt s1 h ((new_router now host_rid)\<lparr>expired := now + 90, subnets := advs\<rparr>))
       else Inl Out_of_bounds)"
    and "length advs \<le> 10 \<Longrightarrow> wf_topo (set_rt s1 h ((new_router now host_rid)\<lparr>expired := now + 90, subnets := advs\<rparr>))"
proof -
  obtain s0 h0 where *: "find_or_add s now host_rid = Inr (s0, h0)" "evolves s s0" "h0 \<in> set (network s0)"
    by (rule find_or_add_ok[OF assms(3)])
  show find: "find_or_add s now host_rid = Inr (s1, h)"
    using assms(3,4) find_None_iff[of "\<lambda>a. rid (rt s a) = host_rid" "network s"]
    by (simp add: find_or_add_def adj_list_contains_wf add_new_router_def s1_def h_def)
  then show wf1: "wf_topo s1" and h1: "h \<in> set (network s1)" using * evolvesD(1) by auto
  have rt1: "rt s1 h = new_router now host_rid" by (simp add: add_new_router_def rt_def s1_def h_def)
  show al1: "alive s1 h" using wf_topoD(2)[OF wf1 h1] .
  let ?s2 = "set_rt s1 h ((new_router now host_rid)\<lparr>expired := now + 90\<rparr>)"
  have "evolves s1 ?s2"
    by (rule evolves_update[OF wf1 h1]) (simp_all add: rt1 new_router_def)
  then have wf2: "wf_topo ?s2" by (rule evolvesD(1))
  have h2: "h \<in> set (network ?s2)" using h1 by simp
  have rt2: "rt ?s2 h = (new_router now host_rid)\<lparr>expired := now + 90\<rparr>" using al1 by (simp add: rt_set_rt)
  have sub2: "subnets (rt ?s2 h) = []" unfolding rt2 by (simp add: new_router_def)
  have "add_to_existing_router s1 now advs h = foldr_res (add_advert now h) advs ?s2"
    using wf1 h1 by (simp add: add_to_existing_router_def rt1 topo_consts)
  also have "\<dots> = (if length advs \<le> 10
      then Inr (set_rt ?s2 h ((rt ?s2 h)\<lparr>subnets := advs\<rparr>)) else Inl Out_of_bounds)"
    using add_adverts_stub[OF wf2 h2 assms(5), of now, unfolded sub2] assms(6) by simp
  finally show "add_to_existing_router s1 now advs h =
      (if length advs \<le> 10 then Inr (set_rt s1 h ((new_router now host_rid)\<lparr>expired := now + 90, subnets := advs\<rparr>))
       else Inl Out_of_bounds)" by (simp add: rt2)
  assume "length advs \<le> 10"
  then have "evolves ?s2 (set_rt ?s2 h ((rt ?s2 h)\<lparr>subnets := advs\<rparr>))"
    by (intro evolves_update[OF wf2 h2]) simp_all
  then show "wf_topo (set_rt s1 h ((new_router now host_rid)\<lparr>expired := now + 90, subnets := advs\<rparr>))"
    using evolvesD(1) by (fastforce simp: rt2)
qed

text \<open>
  C36. An update from a router not seen before, advertising stub networks with different prefixes. Up to
  ten of them the router is linked at the end with exactly these subnets in that order, no
  adjacency and a lifetime of three LSU intervals, and no other router changes. With an
  eleventh, \<^verbatim>\<open>realloc\<close> is asked for twice the element count in bytes, and the next write is past the block.
\<close>
theorem merge_lsu_new_router:
  assumes "wf_topo s" and "\<forall>a \<in> set (network s). rid (rt s a) \<noteq> host_rid"
    and "\<forall>r \<in> set advs. r_id r = 0" and "distinct (map prefix advs)"
  shows "if length advs \<le> 10
    then \<exists>s' h. merge_lsu s now host_rid advs = Inr s' \<and> network s' = network s @ [h] \<and>
           rid (rt s' h) = host_rid \<and> subnets (rt s' h) = advs \<and> adjacencies (rt s' h) = [] \<and>
           expired (rt s' h) = now + 90 \<and> (\<forall>a \<in> set (network s). rt s' a = rt s a)
    else merge_lsu s now host_rid advs = Inl Out_of_bounds"
proof (cases "length advs \<le> 10")
  case False
  with new_router_adverts(1,5)[OF assms] show ?thesis by (simp add: merge_lsu_def)
next
  case True
  let ?s1 = "fst (add_new_router s now host_rid)" and ?h = "length (store s)"
  let ?s3 = "set_rt ?s1 ?h ((new_router now host_rid)\<lparr>expired := now + 90, subnets := advs\<rparr>)"
  note n = new_router_adverts[OF assms, of now]
  have rt3: "rt ?s3 b = (if b = ?h then (new_router now host_rid)\<lparr>expired := now + 90, subnets := advs\<rparr>
      else rt ?s1 b)" for b
    using n(4) by (simp add: rt_set_rt)
  have "sub_in_adv advs x" if "x \<in> set advs" for x
    unfolding sub_in_adv_def by (simp add: find_index_None) (use that in \<open>auto simp: route_cmp_def\<close>)
  then have "prune (length advs + 1) 0 ?s3 ?h host_rid advs = Inr ?s3"
    using n(3) by (intro prune_id[OF n(6)[OF True]]) (simp_all add: rt3)
  moreover have "deref ?s3 ?h = Inr (rt ?s3 ?h)" using n(6)[OF True] n(3) by simp
  ultimately have "merge_lsu s now host_rid advs = Inr ?s3"
    using True n(1,5) by (simp add: merge_lsu_def rt3 del: prune.simps)
  moreover have "rt ?s3 a = rt s a" if "a \<in> set (network s)" for a
    using wf_topoD(2)[OF assms(1) that] by (auto simp: rt3 add_new_router_def rt_def alive_def nth_append set_rt_def)
  moreover have "network ?s3 = network s @ [?h]" by (simp add: add_new_router_def)
  moreover have "rid (rt ?s3 ?h) = host_rid" "subnets (rt ?s3 ?h) = advs"
    "adjacencies (rt ?s3 ?h) = []" "expired (rt ?s3 ?h) = now + 90"
    unfolding rt3 by (simp_all add: new_router_def)
  ultimately have "\<exists>s' h. merge_lsu s now host_rid advs = Inr s' \<and> network s' = network s @ [h] \<and>
         rid (rt s' h) = host_rid \<and> subnets (rt s' h) = advs \<and> adjacencies (rt s' h) = [] \<and>
         expired (rt s' h) = now + 90 \<and> (\<forall>a \<in> set (network s). rt s' a = rt s a)" by blast
  with True show ?thesis by simp
qed

definition stub :: "u32 \<Rightarrow> route" where
  "stub p = \<lparr>prefix = p, rmask = 0x00FFFFFF, rnext_hop = 0, r_id = 0, from_lsu = 1\<rparr>"

theorem merge_lsu_new_router_witness:
  "merge_lsu (alone 0 1) 100 2 (map stub [0, 1, 2, 3, 4, 5, 6, 7, 8, 9, 10]) = Inl Out_of_bounds"
proof -
  have "\<forall>a \<in> set (network (alone 0 1)). rid (rt (alone 0 1) a) \<noteq> 2"
    by (simp add: alone_def add_new_router_def rt_def new_router_def)
  from merge_lsu_new_router[OF wf_alone this, of "map stub [0, 1, 2, 3, 4, 5, 6, 7, 8, 9, 10]" 100]
  show ?thesis by (simp add: stub_def)
qed



end
