(* ===== verification/Shortest_Paths.thy ===== *)
theory Shortest_Paths
  imports Topology
begin

text \<open>
  Dijkstra's algorithm of \<^verbatim>\<open>top_info.c\<close> on the topology database, every link of weight 1. The
  invariant and the correctness argument are stated over an abstract graph; the heap
  version is shown to perform the abstract steps.
\<close>

section \<open>The abstract search\<close>

text \<open>
  A finite graph with a source. \<open>reach n v\<close> says that a walk of \<open>n\<close> links leads from the source to
  \<open>v\<close>. A state of the search is the set of known nodes, the distances (negative for
  none yet) and the predecessors.
\<close>

locale unit_graph =
  fixes V :: "'v set" and adj :: "'v \<Rightarrow> 'v set" and src :: 'v
  assumes finite_V: "finite V" and src_V: "src \<in> V" and closed: "u \<in> V \<Longrightarrow> adj u \<subseteq> V"
begin

primrec reach :: "nat \<Rightarrow> 'v \<Rightarrow> bool" where
  "reach 0 v \<longleftrightarrow> v = src"
| "reach (Suc n) v \<longleftrightarrow> (\<exists>u. reach n u \<and> v \<in> adj u)"

lemma reach_V: "reach n v \<Longrightarrow> v \<in> V"
  by (induction n arbitrary: v) (use src_V closed in auto)

text \<open>One turn: \<open>u\<close> becomes known and its unknown neighbours are relaxed.\<close>

definition improves :: "'v set \<Rightarrow> ('v \<Rightarrow> int) \<Rightarrow> 'v \<Rightarrow> 'v \<Rightarrow> bool" where
  "improves K d u v \<longleftrightarrow> v \<in> adj u \<and> v \<notin> insert u K \<and> (d u + 1 < d v \<or> d v < 0)"

definition minimal :: "'v set \<Rightarrow> ('v \<Rightarrow> int) \<Rightarrow> 'v \<Rightarrow> bool" where
  "minimal K d u \<longleftrightarrow> u \<in> V \<and> u \<notin> K \<and> 0 \<le> d u \<and> (\<forall>v \<in> V - K. 0 \<le> d v \<longrightarrow> d u \<le> d v)"

definition search_inv :: "'v set \<Rightarrow> ('v \<Rightarrow> int) \<Rightarrow> ('v \<Rightarrow> 'v option) \<Rightarrow> bool" where
  "search_inv K d p \<longleftrightarrow> K \<subseteq> V \<and> d src = 0 \<and> p src = None \<and>
     (\<forall>u \<in> K. 0 \<le> d u) \<and>
     (\<forall>v \<in> V. 0 \<le> d v \<longrightarrow> reach (nat (d v)) v) \<and>
     (\<forall>u \<in> K. \<forall>v \<in> adj u. 0 \<le> d v \<and> d v \<le> d u + 1) \<and>
     (\<forall>u \<in> K. \<forall>v \<in> V - K. 0 \<le> d v \<longrightarrow> d u \<le> d v) \<and>
     (\<forall>v \<in> V. 0 \<le> d v \<and> v \<noteq> src \<longrightarrow> (\<exists>u \<in> K. p v = Some u \<and> v \<in> adj u \<and> d v = d u + 1)) \<and>
     (\<forall>v \<in> V. d v < 0 \<longrightarrow> p v = None)"

lemma search_inv_init:
  assumes "d src = 0" "\<And>v. v \<in> V \<Longrightarrow> v \<noteq> src \<Longrightarrow> d v = - 1" "\<And>v. v \<in> V \<Longrightarrow> p v = None"
  shows "search_inv {} d p"
proof -
  have "v = src" if "v \<in> V" "0 \<le> d v" for v using assms(2)[OF that(1)] that(2) by fastforce
  then have s: "v = src" if "v \<in> V" "0 \<le> d v" for v using that by blast
  have "reach (nat (d v)) v" if "v \<in> V" "0 \<le> d v" for v
    using s[OF that] assms(1) by (simp only: nat_0 reach.simps)
  then show ?thesis unfolding search_inv_def using assms(1,3) src_V s by blast
qed

lemma search_invD:
  assumes "search_inv K d p"
  shows "K \<subseteq> V" "d src = 0" "p src = None" "\<And>u. u \<in> K \<Longrightarrow> 0 \<le> d u"
    "\<And>v. v \<in> V \<Longrightarrow> 0 \<le> d v \<Longrightarrow> reach (nat (d v)) v"
    "\<And>u v. u \<in> K \<Longrightarrow> v \<in> adj u \<Longrightarrow> 0 \<le> d v \<and> d v \<le> d u + 1"
    "\<And>u v. u \<in> K \<Longrightarrow> v \<in> V - K \<Longrightarrow> 0 \<le> d v \<Longrightarrow> d u \<le> d v"
    "\<And>v. v \<in> V \<Longrightarrow> 0 \<le> d v \<Longrightarrow> v \<noteq> src \<Longrightarrow> \<exists>u \<in> K. p v = Some u \<and> v \<in> adj u \<and> d v = d u + 1"
    "\<And>v. v \<in> V \<Longrightarrow> d v < 0 \<Longrightarrow> p v = None"
  using assms unfolding search_inv_def by blast+

lemma relaxed_known:
  assumes I: "search_inv K d p" and m: "minimal K d u"
    and d': "\<And>v. v \<in> V \<Longrightarrow> d' v = (if improves K d u v then d u + 1 else d v)"
    and p': "\<And>v. v \<in> V \<Longrightarrow> p' v = (if improves K d u v then Some u else p v)"
    and v: "v \<in> insert u K"
  shows "d' v = d v" "p' v = p v"
  using v m search_invD(1)[OF I] d'[of v] p'[of v] by (auto simp: minimal_def improves_def)

lemma relaxed_edges:
  assumes I: "search_inv K d p" and m: "minimal K d u"
    and d': "\<And>v. v \<in> V \<Longrightarrow> d' v = (if improves K d u v then d u + 1 else d v)"
    and p': "\<And>v. v \<in> V \<Longrightarrow> p' v = (if improves K d u v then Some u else p v)"
    and w: "w \<in> insert u K" and v: "v \<in> adj w"
  shows "0 \<le> d' v \<and> d' v \<le> d' w + 1"
proof -
  note D = search_invD[OF I] and old = relaxed_known(1)[OF I m d' p']
  have u: "u \<in> V" "u \<notin> K" "0 \<le> d u" using m by (auto simp: minimal_def)
  have vV: "v \<in> V" using closed w v D(1) u by blast
  show ?thesis
  proof (cases "w = u")
    case True
    show ?thesis
    proof (cases "v \<in> insert u K")
      case True
      then have "d v \<le> d u" "0 \<le> d v" using D(4,7)[of v] u by auto
      with True \<open>w = u\<close> show ?thesis by (simp add: old)
    next
      case False
      then show ?thesis using d'[OF vV] v u \<open>w = u\<close> old[of u] by (auto simp: improves_def)
    qed
  next
    case False
    then have wK: "w \<in> K" using w by simp
    have *: "0 \<le> d v \<and> d v \<le> d w + 1" by (rule D(6)[OF wK v])
    have "d u + 1 < d v \<Longrightarrow> d w \<le> d u" using D(7)[OF wK] u by blast
    with * show ?thesis using d'[OF vV] old[of w] wK u by (auto simp: improves_def)
  qed
qed

lemma relaxed_reach:
  assumes I: "search_inv K d p" and m: "minimal K d u"
    and d': "\<And>v. v \<in> V \<Longrightarrow> d' v = (if improves K d u v then d u + 1 else d v)"
    and p': "\<And>v. v \<in> V \<Longrightarrow> p' v = (if improves K d u v then Some u else p v)"
    and v: "v \<in> V" "0 \<le> d' v"
  shows "reach (nat (d' v)) v"
proof (cases "improves K d u v")
  case True
  have "reach (nat (d u)) u" "0 \<le> d u" using search_invD(5)[OF I] m by (auto simp: minimal_def)
  moreover have "v \<in> adj u" using True by (simp add: improves_def)
  moreover from calculation(2) have "nat (d' v) = Suc (nat (d u))" using True d'[OF v(1)] by simp
  ultimately show ?thesis by auto
next
  case False
  then show ?thesis using d'[OF v(1)] search_invD(5)[OF I] v by simp
qed

lemma relaxed_tree:
  assumes I: "search_inv K d p" and m: "minimal K d u"
    and d': "\<And>v. v \<in> V \<Longrightarrow> d' v = (if improves K d u v then d u + 1 else d v)"
    and p': "\<And>v. v \<in> V \<Longrightarrow> p' v = (if improves K d u v then Some u else p v)"
    and v: "v \<in> V" "0 \<le> d' v" "v \<noteq> src"
  shows "\<exists>w \<in> insert u K. p' v = Some w \<and> v \<in> adj w \<and> d' v = d' w + 1"
proof (cases "improves K d u v")
  case True
  then show ?thesis using d'[OF v(1)] p'[OF v(1)] relaxed_known(1)[OF I m d' p', of u] by (auto simp: improves_def)
next
  case False
  then show ?thesis
    using search_invD(8)[OF I, of v] v d'[OF v(1)] p'[OF v(1)] relaxed_known(1)[OF I m d' p'] by fastforce
qed

lemma search_inv_step:
  assumes I: "search_inv K d p" and m: "minimal K d u"
    and d': "\<And>v. v \<in> V \<Longrightarrow> d' v = (if improves K d u v then d u + 1 else d v)"
    and p': "\<And>v. v \<in> V \<Longrightarrow> p' v = (if improves K d u v then Some u else p v)"
  shows "search_inv (insert u K) d' p'"
proof -
  note D = search_invD[OF I] and step = I m d' p'
  have u: "u \<in> V" "u \<notin> K" "0 \<le> d u" and min: "\<And>v. v \<in> V - K \<Longrightarrow> 0 \<le> d v \<Longrightarrow> d u \<le> d v"
    using m by (auto simp: minimal_def)
  have src: "\<not> improves K d u src" using D(2) u by (auto simp: improves_def)
  have "d' src = 0" "p' src = None" using src D(2,3) d'[OF src_V] p'[OF src_V] by simp_all
  moreover have "insert u K \<subseteq> V" using D(1) u by simp
  moreover have "\<forall>w \<in> insert u K. 0 \<le> d' w" using D(4) u by (auto simp: relaxed_known(1)[OF step])
  moreover have "\<forall>w \<in> insert u K. \<forall>v \<in> V - insert u K. 0 \<le> d' v \<longrightarrow> d' w \<le> d' v"
  proof (intro ballI impI)
    fix w v assume w: "w \<in> insert u K" and v: "v \<in> V - insert u K" "0 \<le> d' v"
    have wu: "d w \<le> d u" using w D(7) u by auto
    then show "d' w \<le> d' v" using min[of v] v d'[of v] relaxed_known(1)[OF step w] by (auto split: if_splits)
  qed
  moreover have "\<forall>v \<in> V. d' v < 0 \<longrightarrow> p' v = None"
    using d' p' D(9) u by (auto split: if_splits)
  moreover have "\<forall>v \<in> V. 0 \<le> d' v \<longrightarrow> reach (nat (d' v)) v" using relaxed_reach[OF step] by blast
  moreover have "\<forall>w \<in> insert u K. \<forall>v \<in> adj w. 0 \<le> d' v \<and> d' v \<le> d' w + 1" using relaxed_edges[OF step] by blast
  moreover have "\<forall>v \<in> V. 0 \<le> d' v \<and> v \<noteq> src \<longrightarrow> (\<exists>w \<in> insert u K. p' v = Some w \<and> v \<in> adj w \<and> d' v = d' w + 1)"
    using relaxed_tree[OF step] by blast
  ultimately show ?thesis unfolding search_inv_def by blast
qed

text \<open>When no unknown node has a distance, the distances are those of shortest walks.\<close>

lemma search_inv_final:
  assumes I: "search_inv K d p" and fin: "\<And>v. v \<in> V - K \<Longrightarrow> d v < 0" and v: "v \<in> V"
  shows "0 \<le> d v \<longleftrightarrow> (\<exists>n. reach n v)" and "reach n v \<Longrightarrow> d v \<le> int n"
    and "0 \<le> d v \<Longrightarrow> reach (nat (d v)) v"
proof -
  note D = search_invD[OF I]
  have *: "0 \<le> d w \<and> d w \<le> int n" if "reach n w" for n w
    using that
  proof (induction n arbitrary: w)
    case 0
    then show ?case using D(2) by simp
  next
    case (Suc n)
    then obtain x where x: "reach n x" "w \<in> adj x" by auto
    with Suc.IH have dx: "0 \<le> d x" "d x \<le> int n" by auto
    then have "x \<in> K" using fin[of x] reach_V[OF x(1)] by fastforce
    with D(6)[OF this x(2)] dx show ?case by simp
  qed
  then show "0 \<le> d v \<longleftrightarrow> (\<exists>n. reach n v)" using D(5)[OF v] by blast
  show "reach n v \<Longrightarrow> d v \<le> int n" using * by blast
  show "0 \<le> d v \<Longrightarrow> reach (nat (d v)) v" using D(5)[OF v] .
qed

end

section \<open>The code\<close>

text \<open>
  The walk of \<^verbatim>\<open>get_smallest_unknown\<close>. The two branches that take over a router leave \<^verbatim>\<open>current\<close>
  where it is; the next turn finds \<^verbatim>\<open>min_dist == current->rt->dist\<close> and steps on, so the
  model steps on at once.
\<close>

primrec smallest_walk :: "topo \<Rightarrow> nat list \<Rightarrow> nat option \<Rightarrow> int \<Rightarrow> nat option result" where
  "smallest_walk s [] least_unknown min_dist = Inr least_unknown"
| "smallest_walk s (a # as) least_unknown min_dist =
     rbind (deref s a) (\<lambda>r.
       if known r then smallest_walk s as least_unknown min_dist
       else if dist r < 0 then smallest_walk s as least_unknown min_dist
       else if dist r < min_dist then smallest_walk s as (Some a) (dist r)
       else if min_dist < 0 then smallest_walk s as (Some a) (dist r)
       else smallest_walk s as least_unknown min_dist)"

definition get_smallest_unknown :: "topo \<Rightarrow> nat option result" where
  "get_smallest_unknown s = smallest_walk s (network s) None (- 1)"

definition clear :: "router \<Rightarrow> router" where
  "clear r = r\<lparr>known := False, dist := - 1, prev := None\<rparr>"

definition reset_routers :: "topo \<Rightarrow> topo result" where
  "reset_routers s = foldr_res (\<lambda>a s. rbind (deref s a) (\<lambda>r. Inr (set_rt s a (clear r)))) (network s) s"

definition relax :: "nat \<Rightarrow> nat \<Rightarrow> topo \<Rightarrow> topo result" where
  "relax u w s =
     rbind (deref s u) (\<lambda>lu.
     rbind (deref s w) (\<lambda>r.
       if \<not> known r \<and> (dist lu + 1 < dist r \<or> dist r < 0)
       then Inr (set_rt s w (r\<lparr>dist := dist lu + 1, prev := Some u\<rparr>)) else Inr s))"

text \<open>The main loop; each turn makes one linked router known, so their number bounds the turns.\<close>

primrec dijkstra_loop :: "nat \<Rightarrow> topo \<Rightarrow> topo result" where
  "dijkstra_loop 0 s = Inl Diverges"
| "dijkstra_loop (Suc fuel) s =
     rbind (get_smallest_unknown s) (\<lambda>least_unknown.
       case least_unknown of
         None \<Rightarrow> Inr s
       | Some u \<Rightarrow>
           rbind (deref s u) (\<lambda>r.
           rbind (foldr_res (relax u) (adjacencies r) (set_rt s u (r\<lparr>known := True\<rparr>)))
             (dijkstra_loop fuel)))"

definition dijkstra :: "topo \<Rightarrow> topo result" where
  "dijkstra s =
     rbind (reset_routers s) (\<lambda>s1.
     rbind (deref s1 (this_router s1)) (\<lambda>me.
       dijkstra_loop (length (network s1) + 1) (set_rt s1 (this_router s1) (me\<lparr>dist := 0\<rparr>))))"

section \<open>Only the search fields change\<close>

definition same_links :: "topo \<Rightarrow> topo \<Rightarrow> bool" where
  "same_links s s' \<longleftrightarrow> network s' = network s \<and> this_router s' = this_router s \<and>
     init_time s' = init_time s \<and> (\<forall>a. alive s' a = alive s a) \<and> (\<forall>a. clear (rt s' a) = clear (rt s a))"

lemma same_links_refl: "same_links s s"
  by (simp add: same_links_def)

lemma same_links_trans: "same_links s t \<Longrightarrow> same_links t u \<Longrightarrow> same_links s u"
  by (simp add: same_links_def)

lemma clear_fields:
  "clear r = clear r' \<Longrightarrow> adjacencies r = adjacencies r' \<and> subnets r = subnets r' \<and> rid r = rid r' \<and>
     expired r = expired r' \<and> last_seq r = last_seq r' \<and> adj_buf_size r = adj_buf_size r' \<and>
     adj_bytes r = adj_bytes r' \<and> subnet_buf_size r = subnet_buf_size r' \<and> subnet_bytes r = subnet_bytes r'"
  by (cases r, cases r') (simp add: clear_def)

lemma same_links_fields:
  assumes "same_links s s'"
  shows "network s' = network s" "this_router s' = this_router s" "alive s' a = alive s a"
    "adjacencies (rt s' a) = adjacencies (rt s a)" "subnets (rt s' a) = subnets (rt s a)"
    "rid (rt s' a) = rid (rt s a)"
  using assms clear_fields[of "rt s' a" "rt s a"] by (auto simp: same_links_def)

lemma same_links_wf: "wf_topo s \<Longrightarrow> same_links s s' \<Longrightarrow> wf_topo s'"
proof -
  assume wf: "wf_topo s" and sl: "same_links s s'"
  note F = same_links_fields[OF sl]
  have "wf_router N (rt s' a) = wf_router N (rt s a)" for N a
    using clear_fields[of "rt s' a" "rt s a"] sl by (auto simp: same_links_def wf_router_def)
  with wf show ?thesis by (simp add: wf_topo_def F)
qed

lemma same_links_set_rt:
  "alive s a \<Longrightarrow> clear r = clear (rt s a) \<Longrightarrow> same_links s (set_rt s a r)"
  by (simp add: same_links_def alive_set_rt rt_set_rt)

section \<open>What each piece computes\<close>

lemma smallest_walk_ok:
  assumes "wf_topo s" "set as \<subseteq> set (network s)"
    "lu = None \<and> m < 0 \<or> (\<exists>u. lu = Some u \<and> u \<in> set (network s) \<and> \<not> known (rt s u) \<and> dist (rt s u) = m \<and> 0 \<le> m)"
  shows "\<exists>lu'. smallest_walk s as lu m = Inr lu' \<and>
     (lu' = None \<and> lu = None \<or> (\<exists>u. lu' = Some u \<and> u \<in> set (network s) \<and> \<not> known (rt s u) \<and> 0 \<le> dist (rt s u) \<and>
        (lu \<noteq> None \<longrightarrow> dist (rt s u) \<le> m))) \<and>
     (\<forall>v \<in> set as. \<not> known (rt s v) \<and> 0 \<le> dist (rt s v) \<longrightarrow>
        (\<exists>u. lu' = Some u \<and> dist (rt s u) \<le> dist (rt s v)))"
  using assms
proof (induction as arbitrary: lu m)
  case (Cons a as)
  have an: "a \<in> set (network s)" using Cons.prems(2) by simp
  have da: "deref s a = Inr (rt s a)" using an Cons.prems(1) by simp
  show ?case
  proof (cases "known (rt s a) \<or> dist (rt s a) < 0 \<or> \<not> (dist (rt s a) < m \<or> m < 0)")
    case True
    have "smallest_walk s (a # as) lu m = smallest_walk s as lu m" using True by (auto simp: da)
    with Cons.IH[of lu m] Cons.prems True show ?thesis by auto
  next
    case False
    have "smallest_walk s (a # as) lu m = smallest_walk s as (Some a) (dist (rt s a))"
      using False by (auto simp: da)
    with Cons.IH[of "Some a" "dist (rt s a)"] Cons.prems an False show ?thesis by auto
  qed
qed auto

lemma get_smallest_unknown_ok:
  assumes "wf_topo s"
  obtains (none) "get_smallest_unknown s = Inr None"
      "\<forall>v \<in> set (network s). known (rt s v) \<or> dist (rt s v) < 0"
    | (some) u where "get_smallest_unknown s = Inr (Some u)" "u \<in> set (network s)" "\<not> known (rt s u)"
      "0 \<le> dist (rt s u)"
      "\<forall>v \<in> set (network s). \<not> known (rt s v) \<and> 0 \<le> dist (rt s v) \<longrightarrow> dist (rt s u) \<le> dist (rt s v)"
proof -
  obtain lu where lu: "get_smallest_unknown s = Inr lu"
    "lu = None \<or> (\<exists>u. lu = Some u \<and> u \<in> set (network s) \<and> \<not> known (rt s u) \<and> 0 \<le> dist (rt s u))"
    "\<forall>v \<in> set (network s). \<not> known (rt s v) \<and> 0 \<le> dist (rt s v) \<longrightarrow>
        (\<exists>u. lu = Some u \<and> dist (rt s u) \<le> dist (rt s v))"
    using smallest_walk_ok[OF assms, of "network s" None "- 1"] by (auto simp: get_smallest_unknown_def)
  show thesis
  proof (cases lu)
    case None
    then show thesis using lu by (intro none) (auto simp: not_le)
  next
    case (Some u)
    then show thesis using lu by (intro some[of u]) auto
  qed
qed

lemma reset_loop:
  assumes "wf_topo s" "set ns \<subseteq> set (network s)"
  shows "\<exists>s'. foldr_res (\<lambda>a s. rbind (deref s a) (\<lambda>r. Inr (set_rt s a (clear r)))) ns s = Inr s' \<and>
     same_links s s' \<and> (\<forall>a. rt s' a = (if a \<in> set ns then clear (rt s a) else rt s a))"
  using assms
proof (induction ns arbitrary: s)
  case Nil
  then show ?case by (simp add: same_links_refl)
next
  case (Cons n ns)
  have n: "n \<in> set (network s)" using Cons.prems(2) by simp
  have al: "alive s n" using wf_topoD(2)[OF Cons.prems(1) n] .
  let ?t = "set_rt s n (clear (rt s n))"
  have sl: "same_links s ?t" using al by (intro same_links_set_rt) (simp_all add: clear_def)
  obtain s' where s': "foldr_res (\<lambda>a s. rbind (deref s a) (\<lambda>r. Inr (set_rt s a (clear r)))) ns ?t = Inr s'"
     "same_links ?t s'" "\<forall>a. rt s' a = (if a \<in> set ns then clear (rt ?t a) else rt ?t a)"
    using Cons.IH[OF same_links_wf[OF Cons.prems(1) sl]] Cons.prems(2) by auto
  have cc: "clear (clear r) = clear r" for r by (simp add: clear_def)
  have "rt s' a = (if a \<in> set (n # ns) then clear (rt s a) else rt s a)" for a
    using s'(3) al cc by (auto simp: rt_set_rt)
  with s' sl same_links_trans Cons.prems(1) n show ?case by (auto intro!: exI[of _ s'])
qed

definition relaxes :: "topo \<Rightarrow> nat \<Rightarrow> nat \<Rightarrow> bool" where
  "relaxes s u v \<longleftrightarrow> \<not> known (rt s v) \<and> (dist (rt s u) + 1 < dist (rt s v) \<or> dist (rt s v) < 0)"

lemma relax_loop:
  assumes "wf_topo s" "u \<in> set (network s)" "known (rt s u)" "set ws \<subseteq> set (network s)" "distinct ws"
  shows "\<exists>s'. foldr_res (relax u) ws s = Inr s' \<and> same_links s s' \<and>
     (\<forall>v. known (rt s' v) = known (rt s v) \<and>
        dist (rt s' v) = (if v \<in> set ws \<and> relaxes s u v then dist (rt s u) + 1 else dist (rt s v)) \<and>
        prev (rt s' v) = (if v \<in> set ws \<and> relaxes s u v then Some u else prev (rt s v)))"
  using assms
proof (induction ws arbitrary: s)
  case Nil
  then show ?case by (simp add: same_links_refl)
next
  case (Cons w ws)
  have w: "w \<in> set (network s)" using Cons.prems by simp
  have al: "alive s w" using wf_topoD(2)[OF Cons.prems(1) w] .
  define t where "t = (if relaxes s u w then set_rt s w ((rt s w)\<lparr>dist := dist (rt s u) + 1, prev := Some u\<rparr>) else s)"
  have step: "relax u w s = Inr t"
    using Cons.prems(1,2) w by (simp add: relax_def relaxes_def t_def)
  have sl: "same_links s t"
    using al same_links_refl by (auto intro!: same_links_set_rt simp: clear_def t_def)
  have rtt: "rt t v = (if v = w \<and> relaxes s u w then (rt s w)\<lparr>dist := dist (rt s u) + 1, prev := Some u\<rparr>
      else rt s v)" for v
    using al by (simp add: rt_set_rt t_def)
  have uw: "relaxes s u w \<Longrightarrow> u \<noteq> w" using Cons.prems(3) by (auto simp: relaxes_def)
  then have du: "rt t u = rt s u" by (auto simp: rtt)
  have ut: "u \<in> set (network t)" "set ws \<subseteq> set (network t)" using Cons.prems(2,4) same_links_fields(1)[OF sl] by auto
  have kt: "known (rt t u)" using du Cons.prems(3) by simp
  obtain s' where s': "foldr_res (relax u) ws t = Inr s'" "same_links t s'"
     "\<forall>v. known (rt s' v) = known (rt t v) \<and>
        dist (rt s' v) = (if v \<in> set ws \<and> relaxes t u v then dist (rt t u) + 1 else dist (rt t v)) \<and>
        prev (rt s' v) = (if v \<in> set ws \<and> relaxes t u v then Some u else prev (rt t v))"
    using Cons.IH[OF same_links_wf[OF Cons.prems(1) sl] ut(1) kt ut(2)] Cons.prems(5) by auto
  have rel: "relaxes t u v = relaxes s u v" if "v \<noteq> w" for v
    using that du by (simp add: relaxes_def rtt)
  have "known (rt s' v) = known (rt s v) \<and>
        dist (rt s' v) = (if v \<in> set (w # ws) \<and> relaxes s u v then dist (rt s u) + 1 else dist (rt s v)) \<and>
        prev (rt s' v) = (if v \<in> set (w # ws) \<and> relaxes s u v then Some u else prev (rt s v))" for v
  proof (cases "v = w")
    case True
    then have "v \<notin> set ws" using Cons.prems(5) by simp
    with s'(3) True show ?thesis by (simp add: rtt)
  next
    case False
    with s'(3) rel[OF False] du show ?thesis by (simp add: rtt)
  qed
  with s'(1) step same_links_trans[OF sl s'(2)] show ?case by (intro exI[of _ s']) simp
qed

section \<open>The heap search is the abstract one\<close>

text \<open>
  The well-formed topologies as a type, so that the abstract search is interpreted on every one
  of them: the nodes are the linked routers, the links their adjacencies.
\<close>

typedef wtopo = "{s. wf_topo s}"
  using wf_alone by blast

definition net_adj :: "wtopo \<Rightarrow> nat \<Rightarrow> nat set" where
  "net_adj w a = set (adjacencies (rt (Rep_wtopo w) a))"

interpretation net: unit_graph "set (network (Rep_wtopo w))" "net_adj w" "this_router (Rep_wtopo w)" for w
proof unfold_locales
  have wf: "wf_topo (Rep_wtopo w)" using Rep_wtopo[of w] by simp
  show "finite (set (network (Rep_wtopo w)))" by simp
  show "this_router (Rep_wtopo w) \<in> set (network (Rep_wtopo w))" by (rule wf_topoD(5)[OF wf])
  show "net_adj w u \<subseteq> set (network (Rep_wtopo w))" if "u \<in> set (network (Rep_wtopo w))" for u
    using wf_adj[OF wf that] by (auto simp: net_adj_def)
qed

definition known_set :: "topo \<Rightarrow> nat set" where
  "known_set s = {a \<in> set (network s). known (rt s a)}"

text \<open>A state of the search in the topology \<open>w\<close>.\<close>

definition searching :: "wtopo \<Rightarrow> topo \<Rightarrow> bool" where
  "searching w s \<longleftrightarrow> same_links (Rep_wtopo w) s \<and>
     net.search_inv w (known_set s) (\<lambda>a. dist (rt s a)) (\<lambda>a. prev (rt s a))"

lemma Rep_wf: "wf_topo (Rep_wtopo w)"
  using Rep_wtopo[of w] by simp

lemma searching_turn:
  assumes S: "searching w s" and u: "u \<in> set (network s)" "\<not> known (rt s u)" "0 \<le> dist (rt s u)"
    and min: "\<forall>v \<in> set (network s). \<not> known (rt s v) \<and> 0 \<le> dist (rt s v) \<longrightarrow> dist (rt s u) \<le> dist (rt s v)"
  obtains s' where "foldr_res (relax u) (adjacencies (rt s u)) (set_rt s u ((rt s u)\<lparr>known := True\<rparr>)) = Inr s'"
    "searching w s'" "known_set s' = insert u (known_set s)"
proof -
  let ?w = "Rep_wtopo w"
  have sl: "same_links ?w s" and I: "net.search_inv w (known_set s) (\<lambda>a. dist (rt s a)) (\<lambda>a. prev (rt s a))"
    using S by (auto simp: searching_def)
  note F = same_links_fields[OF sl]
  have wf: "wf_topo s" by (rule same_links_wf[OF Rep_wf sl])
  have al: "alive s u" using wf_topoD(2)[OF wf u(1)] .
  define t where "t = set_rt s u ((rt s u)\<lparr>known := True\<rparr>)"
  have slt: "same_links s t" unfolding t_def using al by (intro same_links_set_rt) (simp_all add: clear_def)
  have wft: "wf_topo t" by (rule same_links_wf[OF wf slt])
  have rtt: "rt t v = (if v = u then (rt s u)\<lparr>known := True\<rparr> else rt s v)" for v
    unfolding t_def using al by (simp add: rt_set_rt)
  have adj: "set (adjacencies (rt s u)) \<subseteq> set (network t)" "distinct (adjacencies (rt s u))"
    using wf_topoD(4)[OF wf u(1)] same_links_fields(1)[OF slt] by (auto simp: wf_router_def)
  obtain s' where s': "foldr_res (relax u) (adjacencies (rt s u)) t = Inr s'" "same_links t s'"
      "\<forall>v. known (rt s' v) = known (rt t v) \<and>
        dist (rt s' v) = (if v \<in> set (adjacencies (rt s u)) \<and> relaxes t u v then dist (rt t u) + 1 else dist (rt t v)) \<and>
        prev (rt s' v) = (if v \<in> set (adjacencies (rt s u)) \<and> relaxes t u v then Some u else prev (rt t v))"
    using relax_loop[OF wft _ _ adj, of u] u(1) same_links_fields(1)[OF slt] by (auto simp: rtt)
  have nets: "network s' = network s" "network s = network ?w"
    using same_links_fields(1)[OF s'(2)] same_links_fields(1)[OF slt] F(1) by auto
  have K: "known_set s' = insert u (known_set s)"
    using s'(3) u(1) nets(1) by (auto simp: known_set_def rtt)
  have imp: "net.improves w (known_set s) (\<lambda>a. dist (rt s a)) u v \<longleftrightarrow>
      v \<in> set (adjacencies (rt s u)) \<and> relaxes t u v" if "v \<in> set (network ?w)" for v
    using that nets F(4) by (auto simp: net.improves_def net_adj_def known_set_def relaxes_def rtt)
  have "net.search_inv w (insert u (known_set s)) (\<lambda>a. dist (rt s' a)) (\<lambda>a. prev (rt s' a))"
  proof (rule net.search_inv_step[OF I])
    show "net.minimal w (known_set s) (\<lambda>a. dist (rt s a)) u"
      using u min nets by (auto simp: net.minimal_def known_set_def)
  next
    fix v assume "v \<in> set (network ?w)"
    from imp[OF this] s'(3)
    show "dist (rt s' v) = (if net.improves w (known_set s) (\<lambda>a. dist (rt s a)) u v
        then dist (rt s u) + 1 else dist (rt s v))"
      "prev (rt s' v) = (if net.improves w (known_set s) (\<lambda>a. dist (rt s a)) u v
        then Some u else prev (rt s v))"
      by (auto simp: rtt)
  qed
  then have "searching w s'"
    using same_links_trans[OF sl same_links_trans[OF slt s'(2)]] by (simp add: searching_def K)
  then show thesis using that s'(1) K by (simp add: t_def)
qed

lemma dijkstra_loop_ok:
  assumes "searching w s" "card (set (network s) - known_set s) < fuel"
  shows "\<exists>s'. dijkstra_loop fuel s = Inr s' \<and> searching w s' \<and>
     (\<forall>v \<in> set (network s') - known_set s'. dist (rt s' v) < 0)"
  using assms
proof (induction fuel arbitrary: s)
  case (Suc fuel)
  have wf: "wf_topo s" using Suc.prems(1) same_links_wf[OF Rep_wf] by (auto simp: searching_def)
  show ?case
  proof (cases rule: get_smallest_unknown_ok[OF wf])
    case none: 1
    then show ?thesis using Suc.prems(1) by (auto simp: known_set_def)
  next
    case some: (2 u)
    obtain s' where s': "foldr_res (relax u) (adjacencies (rt s u)) (set_rt s u ((rt s u)\<lparr>known := True\<rparr>)) = Inr s'"
      "searching w s'" "known_set s' = insert u (known_set s)"
      by (rule searching_turn[OF Suc.prems(1) some(2-5)])
    have net: "network s' = network s"
      using s'(2) Suc.prems(1) same_links_fields(1) by (metis searching_def)
    have "u \<in> set (network s) - known_set s" using some(2,3) by (simp add: known_set_def)
    then have "card (set (network s) - insert u (known_set s)) < card (set (network s) - known_set s)"
      by (intro psubset_card_mono) auto
    then have "card (set (network s') - known_set s') < fuel" using Suc.prems(2) by (simp add: net s'(3))
    from Suc.IH[OF s'(2) this] s'(1) some wf show ?thesis by auto
  qed
qed simp

section \<open>Correctness\<close>

text \<open>A walk of \<open>n\<close> links of the database from this router.\<close>

primrec walk :: "topo \<Rightarrow> nat \<Rightarrow> nat \<Rightarrow> bool" where
  "walk s 0 a \<longleftrightarrow> a = this_router s"
| "walk s (Suc n) a \<longleftrightarrow> (\<exists>b. walk s n b \<and> a \<in> set (adjacencies (rt s b)))"

lemma walk_reach: "net.reach w n a = walk (Rep_wtopo w) n a"
  by (induction n arbitrary: a) (simp_all add: net_adj_def)

text \<open>The predecessor pointers form a tree rooted at this router.\<close>

definition route_tree :: "topo \<Rightarrow> bool" where
  "route_tree s \<longleftrightarrow> wf_topo s \<and> dist (rt s (this_router s)) = 0 \<and> prev (rt s (this_router s)) = None \<and>
     (\<forall>a \<in> set (network s). a \<noteq> this_router s \<longrightarrow>
        (case prev (rt s a) of
           None \<Rightarrow> dist (rt s a) < 0
         | Some b \<Rightarrow> b \<in> set (network s) \<and> a \<in> set (adjacencies (rt s b)) \<and> 0 \<le> dist (rt s b) \<and>
                     dist (rt s a) = dist (rt s b) + 1))"

text \<open>What the end of a search says of the routers: a tree of predecessors, and the shortest walks.\<close>

lemma searching_route_tree:
  assumes "searching w s'"
  shows "route_tree s'"
  unfolding route_tree_def
proof (intro conjI ballI impI)
  have sl: "same_links (Rep_wtopo w) s'" and I: "net.search_inv w (known_set s') (\<lambda>a. dist (rt s' a)) (\<lambda>a. prev (rt s' a))"
    using assms by (auto simp: searching_def)
  note D = net.search_invD[OF I] and F = same_links_fields[OF sl]
  show "wf_topo s'" by (rule same_links_wf[OF Rep_wf sl])
  show "dist (rt s' (this_router s')) = 0" "prev (rt s' (this_router s')) = None" using D(2,3) F(2) by simp_all
  fix a assume a: "a \<in> set (network s')" "a \<noteq> this_router s'"
  show "case prev (rt s' a) of None \<Rightarrow> dist (rt s' a) < 0
     | Some b \<Rightarrow> b \<in> set (network s') \<and> a \<in> set (adjacencies (rt s' b)) \<and> 0 \<le> dist (rt s' b) \<and>
                 dist (rt s' a) = dist (rt s' b) + 1"
  proof (cases "0 \<le> dist (rt s' a)")
    case True
    then obtain b where "b \<in> known_set s'" "prev (rt s' a) = Some b" "a \<in> net_adj w b"
        "dist (rt s' a) = dist (rt s' b) + 1"
      using D(8)[of a] a F(1,2) by auto
    then show ?thesis using D(1,4) F(1,4) by (auto simp: net_adj_def)
  next
    case False
    then have "prev (rt s' a) = None" using D(9)[of a] a F(1) by simp
    then show ?thesis using False by simp
  qed
qed

lemma searching_shortest:
  assumes "searching w s'" "\<forall>v \<in> set (network s') - known_set s'. dist (rt s' v) < 0" and a: "a \<in> set (network (Rep_wtopo w))"
  shows "(0 \<le> dist (rt s' a) \<longleftrightarrow> (\<exists>n. walk (Rep_wtopo w) n a)) \<and> (\<forall>n. walk (Rep_wtopo w) n a \<longrightarrow> dist (rt s' a) \<le> int n) \<and>
     (0 \<le> dist (rt s' a) \<longrightarrow> walk (Rep_wtopo w) (nat (dist (rt s' a))) a)"
proof -
  have sl: "same_links (Rep_wtopo w) s'" and I: "net.search_inv w (known_set s') (\<lambda>a. dist (rt s' a)) (\<lambda>a. prev (rt s' a))"
    using assms(1) by (auto simp: searching_def)
  have fin: "\<And>v. v \<in> set (network (Rep_wtopo w)) - known_set s' \<Longrightarrow> dist (rt s' v) < 0"
    using assms(2) same_links_fields(1)[OF sl] by simp
  have "0 \<le> dist (rt s' a) \<longleftrightarrow> (\<exists>n. net.reach w n a)"
    by (rule net.search_inv_final(1)[OF I _ a]) (rule fin)
  moreover have "dist (rt s' a) \<le> int n" if "net.reach w n a" for n
    by (rule net.search_inv_final(2)[OF I _ a that]) (rule fin)
  moreover have "net.reach w (nat (dist (rt s' a))) a" if "0 \<le> dist (rt s' a)"
    by (rule net.search_inv_final(3)[OF I _ a that]) (rule fin)
  ultimately show ?thesis unfolding walk_reach by blast
qed

lemma dijkstra_ok:
  assumes wf: "wf_topo s"
  shows "\<exists>s'. dijkstra s = Inr s' \<and> same_links s s' \<and> route_tree s' \<and>
     (\<forall>a \<in> set (network s).
        (0 \<le> dist (rt s' a) \<longleftrightarrow> (\<exists>n. walk s n a)) \<and> (\<forall>n. walk s n a \<longrightarrow> dist (rt s' a) \<le> int n) \<and>
        (0 \<le> dist (rt s' a) \<longrightarrow> walk s (nat (dist (rt s' a))) a))"
proof -
  obtain w where w: "Rep_wtopo w = s" using wf Abs_wtopo_inverse by blast
  obtain s1 where s1: "reset_routers s = Inr s1" "same_links s s1"
      "\<forall>a. rt s1 a = (if a \<in> set (network s) then clear (rt s a) else rt s a)"
    using reset_loop[OF wf, of "network s"] by (auto simp: reset_routers_def)
  let ?me = "this_router s"
  note F = same_links_fields[OF s1(2)]
  have wf1: "wf_topo s1" by (rule same_links_wf[OF wf s1(2)])
  have me: "?me \<in> set (network s)" by (rule wf_topoD(5)[OF wf])
  have al: "alive s1 ?me" using wf_topoD(2)[OF wf me] F(3) by simp
  define s2 where "s2 = set_rt s1 ?me ((rt s1 ?me)\<lparr>dist := 0\<rparr>)"
  have sl2: "same_links s s2"
    unfolding s2_def
    by (rule same_links_trans[OF s1(2) same_links_set_rt[OF al]]) (simp add: clear_def)
  have rt2: "rt s2 a = (if a = ?me then (clear (rt s ?me))\<lparr>dist := 0\<rparr> else clear (rt s a))"
    if "a \<in> set (network s)" for a
    unfolding s2_def using al s1(3) that me by (simp add: rt_set_rt)
  have net2: "network s2 = network s" using same_links_fields(1)[OF sl2] .
  have K2: "known_set s2 = {}" using rt2 by (auto simp: known_set_def net2 clear_def)
  have "net.search_inv w {} (\<lambda>a. dist (rt s2 a)) (\<lambda>a. prev (rt s2 a))"
    by (rule net.search_inv_init) (auto simp: w rt2 me clear_def)
  then have S2: "searching w s2" using sl2 by (simp add: searching_def w K2)
  have "card (set (network s)) < length (network s1) + 1" using card_length[of "network s"] F(1) by simp
  then have fu: "card (set (network s2) - known_set s2) < length (network s1) + 1" by (simp add: K2 net2)
  obtain s3 where s3: "dijkstra_loop (length (network s1) + 1) s2 = Inr s3" "searching w s3"
      "\<forall>v \<in> set (network s3) - known_set s3. dist (rt s3 v) < 0"
    using dijkstra_loop_ok[OF S2 fu] by blast
  have dj: "dijkstra s = Inr s3"
    using s1(1) s3(1) wf1 me F al by (simp add: dijkstra_def s2_def del: dijkstra_loop.simps)
  have "same_links s s3" using s3(2) by (simp add: searching_def w)
  then show ?thesis
    using dj searching_route_tree[OF s3(2)] searching_shortest[OF s3(2,3), unfolded w] by (intro exI[of _ s3]) blast
qed

text \<open>
  C1. The recomputation finds shortest paths. On a well-formed topology \<^verbatim>\<open>dijkstra\<close> ends without
  a fault and changes only the search fields of the routers; afterwards a linked router has a
  non-negative distance exactly when a walk of links leads to it from this router, and the
  distance is the length of a shortest one.
\<close>
theorem dijkstra_shortest:
  assumes "wf_topo s"
  shows "\<exists>s'. dijkstra s = Inr s' \<and> network s' = network s \<and>
     (\<forall>a \<in> set (network s). clear (rt s' a) = clear (rt s a) \<and>
        (if \<exists>n. walk s n a then dist (rt s' a) = int (LEAST n. walk s n a) else dist (rt s' a) < 0))"
proof -
  obtain s' where s': "dijkstra s = Inr s'" "same_links s s'"
      "\<forall>a \<in> set (network s).
        (0 \<le> dist (rt s' a) \<longleftrightarrow> (\<exists>n. walk s n a)) \<and> (\<forall>n. walk s n a \<longrightarrow> dist (rt s' a) \<le> int n) \<and>
        (0 \<le> dist (rt s' a) \<longrightarrow> walk s (nat (dist (rt s' a))) a)"
    using dijkstra_ok[OF assms] by blast
  have "dist (rt s' a) = int (LEAST n. walk s n a)"
    if a: "a \<in> set (network s)" and w: "\<exists>n. walk s n a" for a
  proof -
    from s'(3) a w have d: "0 \<le> dist (rt s' a)" "walk s (nat (dist (rt s' a))) a"
      "\<And>n. walk s n a \<Longrightarrow> dist (rt s' a) \<le> int n" by blast+
    have "(LEAST n. walk s n a) = nat (dist (rt s' a))"
      using d by (intro Least_equality) (simp_all add: nat_le_iff)
    with d(1) show ?thesis by simp
  qed
  moreover have "dist (rt s' a) < 0" if "a \<in> set (network s)" "\<not> (\<exists>n. walk s n a)" for a
    using s'(3) that by (metis not_le)
  ultimately show ?thesis using s'(1,2) by (intro exI[of _ s']) (auto simp: same_links_def)
qed

theorem dijkstra_shortest_witness:
  "\<exists>s'. dijkstra (alone 0 1) = Inr s' \<and> dist (rt s' 0) = int (LEAST n. walk (alone 0 1) n 0)"
proof -
  have "walk (alone 0 1) 0 0" by (simp add: alone_def add_new_router_def)
  then have "\<exists>n. walk (alone 0 1) n 0" ..
  moreover have "0 \<in> set (network (alone 0 1))" by (simp add: alone_def add_new_router_def)
  ultimately show ?thesis using dijkstra_shortest[OF wf_alone, of 0 1] by metis
qed

section \<open>The tree of predecessors\<close>

text \<open>
  What the search promises to the code that reads its result: following predecessors from a node of
  depth \<open>n\<close> leads in \<open>n - 1\<close> steps to a child of the root, and the depth is bounded by
  the number of nodes.
\<close>

locale pred_tree =
  fixes V :: "'v set" and root :: 'v and parent :: "'v \<Rightarrow> 'v option" and depth :: "'v \<Rightarrow> int"
  assumes finite_nodes: "finite V" and root_V: "root \<in> V" and root_depth: "depth root = 0"
    and parent_Some: "a \<in> V \<Longrightarrow> a \<noteq> root \<Longrightarrow> parent a = Some b \<Longrightarrow>
      b \<in> V \<and> 0 \<le> depth b \<and> depth a = depth b + 1"
    and parent_None: "a \<in> V \<Longrightarrow> a \<noteq> root \<Longrightarrow> parent a = None \<Longrightarrow> depth a < 0"
begin

lemma depth_zero: "a \<in> V \<Longrightarrow> depth a = 0 \<Longrightarrow> a = root"
  using parent_Some parent_None by (cases "parent a") fastforce+

lemma parent_reached:
  assumes "a \<in> V" "a \<noteq> root" "0 \<le> depth a"
  obtains b where "parent a = Some b" "b \<in> V" "0 \<le> depth b" "depth a = depth b + 1"
  using assms parent_Some parent_None by (cases "parent a") fastforce+

text \<open>Every smaller depth occurs, so a depth is less than the number of nodes.\<close>

lemma depths_occur: "a \<in> V \<Longrightarrow> depth a = int n \<Longrightarrow> {0..int n} \<subseteq> depth ` V"
proof (induction n arbitrary: a)
  case 0
  then show ?case by force
next
  case (Suc n)
  then have "a \<noteq> root" using root_depth by auto
  with Suc.prems obtain b where b: "b \<in> V" "depth a = depth b + 1" by (auto elim: parent_reached)
  then have "{0..int n} \<subseteq> depth ` V" using Suc by simp
  moreover have "int (Suc n) \<in> depth ` V" using Suc.prems by force
  moreover have "{0..int (Suc n)} \<subseteq> insert (int (Suc n)) {0..int n}" by auto
  ultimately show ?case by blast
qed

lemma depth_bound: "a \<in> V \<Longrightarrow> depth a < int (card V)"
proof (cases "0 \<le> depth a")
  case True
  assume a: "a \<in> V"
  then have "{0..int (nat (depth a))} \<subseteq> depth ` V" using depths_occur[OF a, of "nat (depth a)"] True by simp
  then have "card {0..depth a} \<le> card V"
    using True card_mono[OF finite_imageI[OF finite_nodes]] card_image_le[OF finite_nodes, of depth]
    by (metis int_nat_eq le_trans)
  then show ?thesis using True by simp
qed simp

end

definition tree_of :: "wtopo \<Rightarrow> topo" where
  "tree_of w = (case dijkstra (Rep_wtopo w) of Inr s \<Rightarrow> s | Inl e \<Rightarrow> Rep_wtopo w)"

lemma tree_of_route_tree: "route_tree (tree_of w)"
  using dijkstra_ok[OF Rep_wf, of w] by (auto simp: tree_of_def)

lemma route_treeD:
  assumes "route_tree s"
  shows "wf_topo s" "dist (rt s (this_router s)) = 0" "prev (rt s (this_router s)) = None"
    "a \<in> set (network s) \<Longrightarrow> a \<noteq> this_router s \<Longrightarrow> prev (rt s a) = Some b \<Longrightarrow>
       b \<in> set (network s) \<and> a \<in> set (adjacencies (rt s b)) \<and> 0 \<le> dist (rt s b) \<and>
       dist (rt s a) = dist (rt s b) + 1"
    "a \<in> set (network s) \<Longrightarrow> a \<noteq> this_router s \<Longrightarrow> prev (rt s a) = None \<Longrightarrow> dist (rt s a) < 0"
  using assms by (auto simp: route_tree_def split: option.splits)

interpretation tree: pred_tree "set (network (tree_of w))" "this_router (tree_of w)"
    "\<lambda>a. prev (rt (tree_of w) a)" "\<lambda>a. dist (rt (tree_of w) a)" for w
  by unfold_locales
    (use route_treeD[OF tree_of_route_tree[of w]] wf_topoD(5)[OF route_treeD(1)[OF tree_of_route_tree[of w]]]
      in auto)

lemma dijkstra_tree:
  assumes "wf_topo s" "dijkstra s = Inr s'"
  obtains w where "tree_of w = s'"
proof -
  obtain w where "Rep_wtopo w = s" using assms(1) Abs_wtopo_inverse by blast
  then show thesis using assms(2) by (intro that[of w]) (simp add: tree_of_def)
qed

end
