(* ===== verification/Interfaces.thy ===== *)
theory Interfaces
  imports Prelude "HOL-Library.Char_ord"
begin

text \<open>
  The interface list of \<^verbatim>\<open>sr_if.c\<close> and the hardware message of \<^verbatim>\<open>sr_vns_comm.c\<close> that
  fills it. A \<^verbatim>\<open>struct sr_if\<close> is a record, the linked list a HOL list in link order.
\<close>

record sr_if =
  if_name :: string
  if_addr :: mac
  if_ip :: u32
  if_speed :: u32

section \<open>Operations of the list\<close>

primrec sr_get_interface :: "sr_if list \<Rightarrow> string \<Rightarrow> sr_if option" where
  "sr_get_interface [] name = None"
| "sr_get_interface (w # ws) name =
     (if strncmp_name (if_name w) name then Some w else sr_get_interface ws name)"

interpretation ifs: first_match "\<lambda>name w. strncmp_name (if_name w) name" sr_get_interface
  by unfold_locales simp_all

text \<open>
  \<^verbatim>\<open>sr_add_interface\<close> appends a node that is fresh from \<^verbatim>\<open>malloc\<close> and writes only its name:
  the other fields hold whatever the block held, the argument \<open>blk\<close>.
\<close>

definition sr_add_interface :: "sr_if \<Rightarrow> sr_if list \<Rightarrow> string \<Rightarrow> sr_if list" where
  "sr_add_interface blk ifs name = ifs @ [blk\<lparr>if_name := strncpy_name name\<rparr>]"

definition sr_set_ether_addr :: "sr_if list \<Rightarrow> mac \<Rightarrow> sr_if list result" where
  "sr_set_ether_addr ifs addr =
     (if ifs = [] then Inl Assertion_failure
      else Inr (butlast ifs @ [(last ifs)\<lparr>if_addr := take 6 addr\<rparr>]))"

definition sr_set_ether_ip :: "sr_if list \<Rightarrow> u32 \<Rightarrow> sr_if list result" where
  "sr_set_ether_ip ifs ip_nbo =
     (if ifs = [] then Inl Assertion_failure
      else Inr (butlast ifs @ [(last ifs)\<lparr>if_ip := ip_nbo\<rparr>]))"

section \<open>The hardware message\<close>

text \<open>
  An entry of \<^verbatim>\<open>c_hwinfo\<close>: a key in network byte order and 32 bytes of value. An interface
  name is the value up to its first NUL.
\<close>

record c_hw_entry =
  mKey :: u32
  hw_value :: bytes

definition c_string :: "bytes \<Rightarrow> string" where
  "c_string bs = map (\<lambda>b. char_of (unat b)) (takeWhile (\<lambda>b. b \<noteq> 0) bs)"

definition value32 :: "bytes \<Rightarrow> u32" where
  "value32 v = load32 (v ! 0) (v ! 1) (v ! 2) (v ! 3)"

definition HWINTERFACE :: u32 where "HWINTERFACE = 1"
definition HWETHER :: u32 where "HWETHER = 32"
definition HWETHIP :: u32 where "HWETHIP = 64"

definition hwinfo_entry :: "sr_if \<Rightarrow> c_hw_entry \<Rightarrow> sr_if list \<Rightarrow> sr_if list result" where
  "hwinfo_entry blk e ifs =
     (if ntohl (mKey e) = HWINTERFACE then Inr (sr_add_interface blk ifs (c_string (hw_value e)))
      else if ntohl (mKey e) = HWETHIP then sr_set_ether_ip ifs (value32 (hw_value e))
      else if ntohl (mKey e) = HWETHER then sr_set_ether_addr ifs (hw_value e)
      else Inr ifs)"

definition sr_handle_hwinfo :: "sr_if \<Rightarrow> c_hw_entry list \<Rightarrow> sr_if list \<Rightarrow> (nat \<times> sr_if list) result" where
  "sr_handle_hwinfo blk es ifs =
     rbind (foldr_res (hwinfo_entry blk) es ifs) (\<lambda>ifs'. Inr (length es, ifs'))"

text \<open>What one interface contributes to the message: its name, its address, its MAC.\<close>

definition hw_block :: "bytes \<Rightarrow> bytes \<Rightarrow> bytes \<Rightarrow> c_hw_entry list" where
  "hw_block name ip mac =
     [\<lparr>mKey = ntohl HWINTERFACE, hw_value = name\<rparr>, \<lparr>mKey = ntohl HWETHIP, hw_value = ip\<rparr>,
      \<lparr>mKey = ntohl HWETHER, hw_value = mac\<rparr>]"

definition hw_interface :: "sr_if \<Rightarrow> bytes \<times> bytes \<times> bytes \<Rightarrow> sr_if" where
  "hw_interface blk d = (case d of (name, ip, mac) \<Rightarrow>
     blk\<lparr>if_name := strncpy_name (c_string name), if_ip := value32 ip, if_addr := take 6 mac\<rparr>)"

lemmas hw_keys = HWINTERFACE_def HWETHIP_def HWETHER_def

lemma hw_block_run:
  "foldr_res (hwinfo_entry blk) (hw_block name ip mac) ifs = Inr (ifs @ [hw_interface blk (name, ip, mac)])"
  by (simp add: hw_block_def hwinfo_entry_def sr_add_interface_def sr_set_ether_ip_def
      sr_set_ether_addr_def hw_interface_def hw_keys)

lemma hw_blocks_run:
  "foldr_res (hwinfo_entry blk) (concat (map (\<lambda>(n, i, m). hw_block n i m) ds)) ifs =
   Inr (ifs @ map (hw_interface blk) ds)"
proof (induction ds arbitrary: ifs)
  case (Cons d ds)
  then show ?case by (cases d) (simp add: foldr_res_append hw_block_run)
qed simp

text \<open>
  The interface list after a hardware message: a message that describes interfaces one
  after the other (name, IP address, MAC address) appends exactly those interfaces, in that
  order, and reports its number of entries. No assertion fails.
\<close>
theorem sr_handle_hwinfo_builds:
  "sr_handle_hwinfo blk (concat (map (\<lambda>(n, i, m). hw_block n i m) ds)) ifs =
   Inr (3 * length ds, ifs @ map (hw_interface blk) ds)"
proof -
  have "length (concat (map (\<lambda>(n, i, m). hw_block n i m) ds)) = 3 * length ds"
    by (induction ds) (auto simp: hw_block_def)
  then show ?thesis by (simp add: sr_handle_hwinfo_def hw_blocks_run)
qed

text \<open>An address or a MAC before any interface fails the assertion of the setter.\<close>

lemma hwinfo_setter_on_empty:
  "ntohl (mKey e) \<in> {HWETHIP, HWETHER} \<Longrightarrow> hwinfo_entry blk e [] = Inl Assertion_failure"
  by (auto simp: hwinfo_entry_def hw_keys sr_set_ether_ip_def sr_set_ether_addr_def)

text \<open>A lookup by the name just added finds the first interface of that name.\<close>

lemma sr_get_interface_added:
  "sr_get_interface (sr_add_interface blk ifs name) name =
   (case sr_get_interface ifs name of
      None \<Rightarrow> Some (blk\<lparr>if_name := strncpy_name name\<rparr>) | Some w \<Rightarrow> Some w)"
  by (simp add: sr_add_interface_def ifs.lookup_append split: option.split)

end
