(* ===== verification/Routing.thy ===== *)
theory Routing
  imports Interfaces
begin

text \<open>
  The two routing tables of a router and their lookups: the static table of \<^verbatim>\<open>sr_rt.c\<close> with
  \<^verbatim>\<open>get_static_routing_if\<close>, the dynamic forwarding table of the PWOSPF subsystem with
  \<^verbatim>\<open>get_dyn_routing_if\<close> (both lookups in \<^verbatim>\<open>sr_router.c\<close>), and the consistency check of
  \<^verbatim>\<open>sr_main.c\<close>. Addresses are the words the code holds: loaded from network byte order by
  a little-endian machine. The code compares masks as such words; the specification counts
  prefix bits of the address in host order.
\<close>

unbundle bit_operations_syntax

section \<open>The tables\<close>

record sr_rt =
  rt_dest :: u32
  rt_gw :: u32
  rt_mask :: u32
  rt_interface :: string

record ftable_entry =
  ft_prefix :: u32
  ft_mask :: u32
  ft_next_hop :: u32
  ft_interface :: string
  ft_num_hops :: int

definition sr_add_rt_entry :: "sr_rt list \<Rightarrow> u32 \<Rightarrow> u32 \<Rightarrow> u32 \<Rightarrow> string \<Rightarrow> sr_rt list" where
  "sr_add_rt_entry rt dest gw msk nm =
     rt @ [\<lparr>rt_dest = dest, rt_gw = gw, rt_mask = msk, rt_interface = strncpy_name nm\<rparr>]"

text \<open>
  \<^verbatim>\<open>sr_verify_routing_table\<close>: 999 when a list is empty, else the number of routes whose
  interface does not exist.
\<close>

definition route_has_interface :: "sr_if list \<Rightarrow> sr_rt \<Rightarrow> bool" where
  "route_has_interface ifs r = list_ex (\<lambda>w. strncmp_name (if_name w) (rt_interface r)) ifs"

primrec verify_loop :: "sr_if list \<Rightarrow> sr_rt list \<Rightarrow> nat \<Rightarrow> nat" where
  "verify_loop ifs [] ret = ret"
| "verify_loop ifs (r # rs) ret =
     verify_loop ifs rs (if route_has_interface ifs r then ret else ret + 1)"

definition sr_verify_routing_table :: "sr_if list \<Rightarrow> sr_rt list \<Rightarrow> nat" where
  "sr_verify_routing_table ifs rt = (if ifs = [] \<or> rt = [] then 999 else verify_loop ifs rt 0)"

section \<open>The lookups\<close>

text \<open>The two walks, with the mask of the best entry so far and that entry.\<close>

fun dyn_walk :: "ftable_entry list \<Rightarrow> u32 \<Rightarrow> u32 \<Rightarrow> ftable_entry option \<Rightarrow> ftable_entry option" where
  "dyn_walk [] ip min_mask response = response"
| "dyn_walk (c # cs) ip min_mask response =
     (if ft_mask c AND ip = ft_prefix c
      then (if min_mask \<le> ft_mask c then dyn_walk cs ip (ft_mask c) (Some c)
            else dyn_walk cs ip min_mask response)
      else dyn_walk cs ip min_mask response)"

definition get_dyn_routing_if :: "ftable_entry list \<Rightarrow> u32 \<Rightarrow> ftable_entry option" where
  "get_dyn_routing_if fwrd_table ip_dst = dyn_walk fwrd_table ip_dst 0 None"

fun static_walk :: "sr_rt list \<Rightarrow> u32 \<Rightarrow> u32 \<Rightarrow> sr_rt option \<Rightarrow> sr_rt option" where
  "static_walk [] ip min_mask response = response"
| "static_walk (c # cs) ip min_mask response =
     (if rt_mask c AND ip = rt_dest c
      then (if min_mask \<le> rt_mask c then static_walk cs ip (rt_mask c) (Some c)
            else static_walk cs ip min_mask response)
      else static_walk cs ip min_mask response)"

definition get_static_routing_if :: "sr_rt list \<Rightarrow> u32 \<Rightarrow> sr_rt option" where
  "get_static_routing_if routing_table ip_dst = static_walk routing_table ip_dst 0 None"

section \<open>Netmasks in network byte order\<close>

text \<open>
  The mask with \<open>n\<close> leading one bits, as the code holds it. On such masks the order of the
  byte-swapped words is the order of the prefix lengths, which is what makes the code's
  comparison of masks meaningful.
\<close>

definition netmask :: "nat \<Rightarrow> u32" where
  "netmask n = ntohl (push_bit (32 - n) (mask n))"

lemma bit_ntohl:
  "bit (ntohl x) n \<longleftrightarrow>
   (if n < 8 then bit x (24 + n) else if n < 16 then bit x (8 + n)
    else if n < 24 then bit x (n - 8) else n < 32 \<and> bit x (n - 24))"
proof -
  consider "n < 8" | "8 \<le> n" "n < 16" | "16 \<le> n" "n < 24" | "24 \<le> n" "n < 32" | "32 \<le> n"
    by fastforce
  then show ?thesis
    by cases (auto simp: ntohl_def load32_def bit_simps add.commute dest: bit_imp_le_length)
qed

lemma ntohl_and: "ntohl (a AND b) = ntohl a AND ntohl b"
  by (rule bit_word_eqI) (simp add: bit_ntohl bit_and_iff)

lemma top_bits: "n \<le> 32 \<Longrightarrow> bit (push_bit (32 - n) (mask n) :: u32) k \<longleftrightarrow> 32 - n \<le> k \<and> k < 32"
  by (auto simp: bit_simps)

lemma netmask_step: "n < 32 \<Longrightarrow> netmask n < netmask (Suc n)"
proof -
  assume n: "n < 32"
  then have n1: "n \<le> 32" and n2: "Suc n \<le> 32" by simp_all
  let ?m = "\<lambda>n. push_bit (32 - n) (mask n) :: u32"
  have "?m n AND ?m (Suc n) = ?m n"
    by (rule bit_word_eqI) (simp only: bit_and_iff top_bits[OF n1] top_bits[OF n2], linarith)
  then have "netmask n AND netmask (Suc n) = netmask n"
    by (simp only: netmask_def ntohl_and[symmetric])
  then have "netmask n \<le> netmask (Suc n)" by (metis word_and_le1)
  moreover have "bit (?m n) (31 - n) \<noteq> bit (?m (Suc n)) (31 - n)"
    by (simp only: top_bits[OF n1] top_bits[OF n2]) (use n in linarith)
  then have "netmask n \<noteq> netmask (Suc n)" by (auto simp: netmask_def)
  ultimately show ?thesis by simp
qed

lemma netmask_less: "m < n \<Longrightarrow> n \<le> 32 \<Longrightarrow> netmask m < netmask n"
proof (induction n)
  case (Suc n)
  then show ?case using netmask_step[of n] by (cases "m = n") (auto intro: order.strict_trans)
qed simp

lemma netmask_le_iff: "m \<le> 32 \<Longrightarrow> n \<le> 32 \<Longrightarrow> netmask m \<le> netmask n \<longleftrightarrow> m \<le> n"
  using netmask_less[of m n] netmask_less[of n m] by (cases m n rule: linorder_cases) auto

text \<open>Agreement of two addresses on their first \<open>n\<close> bits, in host order.\<close>

definition same_prefix :: "nat \<Rightarrow> u32 \<Rightarrow> u32 \<Rightarrow> bool" where
  "same_prefix n a b \<longleftrightarrow> drop_bit (32 - n) (ntohl a) = drop_bit (32 - n) (ntohl b)"

lemma netmask_and_eq:
  assumes "n \<le> 32"
  shows "netmask n AND a = netmask n AND b \<longleftrightarrow> same_prefix n a b"
proof -
  note top = top_bits[OF assms]
  have eq: "(push_bit (32 - n) (mask n) AND x = push_bit (32 - n) (mask n) AND y) \<longleftrightarrow>
      drop_bit (32 - n) x = drop_bit (32 - n) y" (is "?L \<longleftrightarrow> ?R") for x y :: u32
  proof
    assume ?L
    then have "bit x k = bit y k" if "32 - n \<le> k" "k < 32" for k
      using that by (metis bit_and_iff top)
    moreover have "bit x k = bit y k" if "\<not> k < 32" for k
      using that bit_imp_le_length[of x k] bit_imp_le_length[of y k] by auto
    ultimately have "bit x k = bit y k" if "32 - n \<le> k" for k using that by blast
    then show ?R by (intro bit_word_eqI) (simp add: bit_drop_bit_eq)
  next
    assume R: ?R
    have "bit x k = bit y k" if "32 - n \<le> k" for k
    proof -
      have "bit (drop_bit (32 - n) x) (k - (32 - n)) = bit (drop_bit (32 - n) y) (k - (32 - n))"
        by (simp only: R)
      with that show ?thesis by (simp add: bit_drop_bit_eq)
    qed
    then show ?L by (intro bit_word_eqI) (auto simp: bit_and_iff top)
  qed
  have "netmask n AND a = netmask n AND b \<longleftrightarrow> ntohl (netmask n AND a) = ntohl (netmask n AND b)"
    by simp
  then show ?thesis by (simp only: ntohl_and netmask_def ntohl_ntohl eq same_prefix_def)
qed

section \<open>Longest-prefix match\<close>

text \<open>
  The two lookups are the same loop over two entry types. The interface: a walk over entries
  with a prefix and a mask, with the equations of that loop. Its correctness is proved once.
\<close>

locale prefix_table =
  fixes pfx :: "'e \<Rightarrow> u32" and msk :: "'e \<Rightarrow> u32"
    and walk :: "'e list \<Rightarrow> u32 \<Rightarrow> u32 \<Rightarrow> 'e option \<Rightarrow> 'e option"
  assumes walk_Nil: "walk [] ip m r = r"
    and walk_Cons: "walk (c # cs) ip m r =
      (if msk c AND ip = pfx c \<and> m \<le> msk c then walk cs ip (msk c) (Some c) else walk cs ip m r)"
begin

text \<open>What the walk holds is a function of its best entry, so it extends at the end.\<close>

lemma walk_snoc:
  assumes "m = (case r of None \<Rightarrow> 0 | Some e \<Rightarrow> msk e)"
  shows "walk (es @ [x]) ip m r =
    (let r' = walk es ip m r
     in if msk x AND ip = pfx x \<and> (case r' of None \<Rightarrow> 0 | Some e \<Rightarrow> msk e) \<le> msk x
        then Some x else r')"
  using assms
proof (induction es arbitrary: m r)
  case (Cons c cs)
  show ?case
    using Cons.IH[of "msk c" "Some c"] Cons.IH[of m r] Cons.prems by (simp add: walk_Cons)
qed (simp add: walk_Nil walk_Cons)

lemma walk_result:
  "case walk es ip 0 None of
     None \<Rightarrow> \<forall>e \<in> set es. msk e AND ip \<noteq> pfx e
   | Some e \<Rightarrow> \<exists>us vs. es = us @ e # vs \<and> msk e AND ip = pfx e \<and>
       (\<forall>u \<in> set us. msk u AND ip = pfx u \<longrightarrow> msk u \<le> msk e) \<and>
       (\<forall>v \<in> set vs. msk v AND ip = pfx v \<longrightarrow> msk v < msk e)"
proof (induction es rule: rev_induct)
  case (snoc x es)
  note step = walk_snoc[of 0 None es x ip]
  show ?case
  proof (cases "walk es ip 0 None")
    case None
    with snoc have no: "\<forall>e \<in> set es. msk e AND ip \<noteq> pfx e" by simp
    show ?thesis
    proof (cases "msk x AND ip = pfx x")
      case True
      with None step have "walk (es @ [x]) ip 0 None = Some x" by simp
      with no True show ?thesis by (simp, intro exI[of _ es] exI[of _ "[]"]) auto
    next
      case False
      with None step no show ?thesis by auto
    qed
  next
    case (Some e)
    with snoc obtain us vs where es: "es = us @ e # vs" and e: "msk e AND ip = pfx e"
      and us: "\<forall>u \<in> set us. msk u AND ip = pfx u \<longrightarrow> msk u \<le> msk e"
      and vs: "\<forall>v \<in> set vs. msk v AND ip = pfx v \<longrightarrow> msk v < msk e"
      by auto
    show ?thesis
    proof (cases "msk x AND ip = pfx x \<and> msk e \<le> msk x")
      case True
      with Some step have "walk (es @ [x]) ip 0 None = Some x" by simp
      moreover have "\<forall>u \<in> set es. msk u AND ip = pfx u \<longrightarrow> msk u \<le> msk x"
        using es us vs True by (auto intro: order.trans less_imp_le order.strict_trans2)
      ultimately show ?thesis using True by (simp, intro exI[of _ es] exI[of _ "[]"]) auto
    next
      case False
      with Some step have "walk (es @ [x]) ip 0 None = Some e" by auto
      moreover have "es @ [x] = us @ e # (vs @ [x])" using es by simp
      moreover have "\<forall>v \<in> set (vs @ [x]). msk v AND ip = pfx v \<longrightarrow> msk v < msk e"
        using vs False by auto
      ultimately show ?thesis
        using e us by (simp, intro exI[of _ us] exI[of _ "vs @ [x]"]) simp
    qed
  qed
qed (simp add: walk_Nil)

text \<open>No entry is returned exactly when none matches.\<close>

lemma walk_None: "walk es ip 0 None = None \<longleftrightarrow> (\<forall>e \<in> set es. msk e AND ip \<noteq> pfx e)"
  using walk_result[of es ip] by (cases "walk es ip 0 None") auto

text \<open>The entry returned: it matches, no match has a greater mask, and it is the last such.\<close>

lemma walk_Some:
  assumes "walk es ip 0 None = Some e"
  obtains us vs where "es = us @ e # vs" "msk e AND ip = pfx e"
    "\<forall>u \<in> set us. msk u AND ip = pfx u \<longrightarrow> msk u \<le> msk e"
    "\<forall>v \<in> set vs. msk v AND ip = pfx v \<longrightarrow> msk v < msk e"
  using walk_result[of es ip] assms that by auto

text \<open>
  Read in host order: where every mask is a netmask, the entry returned agrees with the
  address on its prefix, and every entry whose prefix covers the address is no longer.
\<close>

lemma longest_prefix:
  assumes masks: "\<And>e. e \<in> set es \<Longrightarrow> len e \<le> 32 \<and> msk e = netmask (len e)"
    and prefixes: "\<And>e. e \<in> set es \<Longrightarrow> msk e AND pfx e = pfx e"
    and res: "walk es ip 0 None = Some e"
  shows "e \<in> set es \<and> same_prefix (len e) ip (pfx e) \<and>
         (\<forall>d \<in> set es. same_prefix (len d) ip (pfx d) \<longrightarrow> len d \<le> len e)"
proof -
  from res obtain us vs where split: "es = us @ e # vs" and hit: "msk e AND ip = pfx e"
    and bef: "\<forall>u \<in> set us. msk u AND ip = pfx u \<longrightarrow> msk u \<le> msk e"
    and aft: "\<forall>v \<in> set vs. msk v AND ip = pfx v \<longrightarrow> msk v < msk e"
    by (rule walk_Some)
  have hit_iff: "msk d AND ip = pfx d \<longleftrightarrow> same_prefix (len d) ip (pfx d)" if "d \<in> set es" for d
    using masks[OF that] prefixes[OF that] netmask_and_eq[of "len d" ip "pfx d"] by simp
  have le: "msk d \<le> msk e" if "d \<in> set es" "msk d AND ip = pfx d" for d
    using that split bef aft by fastforce
  have e: "e \<in> set es" using split by simp
  moreover have "same_prefix (len e) ip (pfx e)" using hit hit_iff[OF e] by simp
  moreover have "len d \<le> len e" if "d \<in> set es" "same_prefix (len d) ip (pfx d)" for d
    using le[OF that(1)] that hit_iff masks[OF that(1)] masks[OF e] netmask_le_iff by metis
  ultimately show ?thesis by blast
qed

end

interpretation dyn: prefix_table ft_prefix ft_mask dyn_walk
  by unfold_locales simp_all

interpretation static: prefix_table rt_dest rt_mask static_walk
  by unfold_locales simp_all

section \<open>Properties\<close>

text \<open>
  C23. Longest-prefix match of the dynamic table: where every mask is a netmask and every
  prefix lies in its mask, the entry that \<^verbatim>\<open>get_dyn_routing_if\<close> returns is in the table,
  agrees with the destination on its prefix bits, and no other entry that covers the
  destination has a longer prefix. The comparison of masks as little-endian words is right.
\<close>
theorem get_dyn_routing_if_longest_prefix:
  assumes "\<And>e. e \<in> set tbl \<Longrightarrow> len e \<le> 32 \<and> ft_mask e = netmask (len e)"
    and "\<And>e. e \<in> set tbl \<Longrightarrow> ft_mask e AND ft_prefix e = ft_prefix e"
    and "get_dyn_routing_if tbl ip = Some e"
  shows "e \<in> set tbl \<and> same_prefix (len e) ip (ft_prefix e) \<and>
         (\<forall>d \<in> set tbl. same_prefix (len d) ip (ft_prefix d) \<longrightarrow> len d \<le> len e)"
  using dyn.longest_prefix[of tbl len ip e] assms by (simp add: get_dyn_routing_if_def)

definition sample_ftable :: "ftable_entry list" where
  "sample_ftable =
     [\<lparr>ft_prefix = 0, ft_mask = netmask 0, ft_next_hop = 1, ft_interface = ''eth0'', ft_num_hops = 0\<rparr>,
      \<lparr>ft_prefix = load32 10 1 2 0, ft_mask = netmask 24, ft_next_hop = 2, ft_interface = ''eth1'',
       ft_num_hops = 1\<rparr>,
      \<lparr>ft_prefix = load32 10 0 0 0, ft_mask = netmask 8, ft_next_hop = 3, ft_interface = ''eth2'',
       ft_num_hops = 2\<rparr>]"

definition sample_len :: "ftable_entry \<Rightarrow> nat" where
  "sample_len e = (if ft_next_hop e = 1 then 0 else if ft_next_hop e = 2 then 24 else 8)"

theorem get_dyn_routing_if_longest_prefix_witness:
  "same_prefix 24 (load32 10 1 2 3) (load32 10 1 2 0) \<and>
   \<not> (\<exists>d \<in> set sample_ftable. same_prefix (sample_len d) (load32 10 1 2 3) (ft_prefix d) \<and> 24 < sample_len d)"
proof -
  have 1: "get_dyn_routing_if sample_ftable (load32 10 1 2 3) = Some (sample_ftable ! 1)"
    by code_simp
  have 2: "\<And>e. e \<in> set sample_ftable \<Longrightarrow> sample_len e \<le> 32 \<and> ft_mask e = netmask (sample_len e)"
    by (auto simp: sample_ftable_def sample_len_def)
  have "list_all (\<lambda>e. ft_mask e AND ft_prefix e = ft_prefix e) sample_ftable" by code_simp
  then have 3: "\<And>e. e \<in> set sample_ftable \<Longrightarrow> ft_mask e AND ft_prefix e = ft_prefix e"
    by (simp add: list_all_iff)
  have 4: "sample_len (sample_ftable ! 1) = 24" "ft_prefix (sample_ftable ! 1) = load32 10 1 2 0"
    by (simp_all add: sample_ftable_def sample_len_def)
  show ?thesis
    using get_dyn_routing_if_longest_prefix[of sample_ftable sample_len, OF 2 3 1] unfolding 4
    by (auto simp: not_less)
qed

text \<open>
  The static table: the lookup fails exactly when no route matches; otherwise the route
  returned matches, no matching route has a greater mask, and of the matching routes with
  that mask it is the last in the table.
\<close>
theorem get_static_routing_if_spec:
  "case get_static_routing_if rt ip of
     None \<Rightarrow> \<forall>r \<in> set rt. rt_mask r AND ip \<noteq> rt_dest r
   | Some r \<Rightarrow> \<exists>us vs. rt = us @ r # vs \<and> rt_mask r AND ip = rt_dest r \<and>
       (\<forall>u \<in> set us. rt_mask u AND ip = rt_dest u \<longrightarrow> rt_mask u \<le> rt_mask r) \<and>
       (\<forall>v \<in> set vs. rt_mask v AND ip = rt_dest v \<longrightarrow> rt_mask v < rt_mask r)"
  unfolding get_static_routing_if_def by (rule static.walk_result)

lemma verify_loop_count:
  "verify_loop ifs rs n = n + length (filter (\<lambda>r. \<not> route_has_interface ifs r) rs)"
  by (induction rs arbitrary: n) simp_all

lemma route_has_interface_iff:
  "route_has_interface ifs r \<longleftrightarrow> sr_get_interface ifs (rt_interface r) \<noteq> None"
  by (auto simp: route_has_interface_def list_ex_iff ifs.lookup_None)

text \<open>
  The consistency check accepts (returns 0) exactly the non-empty tables over a
  non-empty interface list in which every route names an interface that
  \<^verbatim>\<open>sr_get_interface\<close> finds.
\<close>
theorem sr_verify_routing_table_ok:
  "sr_verify_routing_table ifs rt = 0 \<longleftrightarrow>
   ifs \<noteq> [] \<and> rt \<noteq> [] \<and> (\<forall>r \<in> set rt. sr_get_interface ifs (rt_interface r) \<noteq> None)"
  by (simp add: sr_verify_routing_table_def verify_loop_count route_has_interface_iff
      filter_empty_conv)

end
