(* ===== verification/Forwarding.thy ===== *)
theory Forwarding
  imports Shortest_Paths Routing
begin

text \<open>
  From the predecessor tree to the forwarding table: \<^verbatim>\<open>find_next_hop\<close>, the lookups of
  interfaces and neighbours, and \<^verbatim>\<open>update_ftable\<close> of \<^verbatim>\<open>top_info.c\<close>.
\<close>

section \<open>Interfaces and neighbours\<close>

record neighbor =
  nb_id :: u32
  nb_ip :: u32
  nb_timenotvalid :: time

record pwospf_if =
  pif_address :: u32
  pif_mask :: u32
  pif_name :: string
  pif_helloint :: u16
  pif_mac :: mac
  pif_neighbors :: "neighbor list"
  pif_nbr_buf_size :: nat
  pif_nbr_bytes :: nat

text \<open>
  \<^verbatim>\<open>get_if_and_neighbor\<close> copies what it finds into blocks that \<^verbatim>\<open>calloc\<close> filled with zeros; its
  caller ignores the return value, so a neighbour that is not found is an empty name and
  the address 0.
\<close>

fun get_if_and_neighbor :: "pwospf_if list \<Rightarrow> u32 \<Rightarrow> (pwospf_if \<times> neighbor) option" where
  "get_if_and_neighbor [] ident = None"
| "get_if_and_neighbor (w # ws) ident =
     (case find (\<lambda>n. nb_id n = ident) (pif_neighbors w) of
        Some n \<Rightarrow> Some (w, n)
      | None \<Rightarrow> get_if_and_neighbor ws ident)"

definition next_hop_of :: "pwospf_if list \<Rightarrow> u32 \<Rightarrow> string \<times> u32" where
  "next_hop_of ifs ident =
     (case get_if_and_neighbor ifs ident of Some (w, n) \<Rightarrow> (pif_name w, nb_ip n) | None \<Rightarrow> ([], 0))"

primrec get_subnet_if :: "pwospf_if list \<Rightarrow> route \<Rightarrow> pwospf_if option" where
  "get_subnet_if [] subnet = None"
| "get_subnet_if (w # ws) subnet =
     (if pif_mask w AND pif_address w = prefix subnet then Some w else get_subnet_if ws subnet)"

interpretation subnet_ifs: first_match "\<lambda>r w. pif_mask w AND pif_address w = prefix r" get_subnet_if
  by unfold_locales simp_all

section \<open>The next hop\<close>

text \<open>
  The loop of \<^verbatim>\<open>find_next_hop\<close> up the predecessors, with the value it leaves in \<^verbatim>\<open>hops\<close>. The
  number of routers bounds the turns on the result of \<^verbatim>\<open>dijkstra\<close>.
\<close>

primrec hop_walk :: "topo \<Rightarrow> nat \<Rightarrow> nat \<Rightarrow> int \<Rightarrow> (nat option \<times> int) result" where
  "hop_walk s 0 cur numhops = Inl Diverges"
| "hop_walk s (Suc fuel) cur numhops =
     rbind (deref s cur) (\<lambda>c.
     rbind (deref s (this_router s)) (\<lambda>me.
       case prev c of
         None \<Rightarrow> Inr (None, - 1)
       | Some p \<Rightarrow>
           rbind (deref s p) (\<lambda>pr.
             if rid pr \<noteq> rid me then hop_walk s fuel p (numhops + 1) else Inr (Some cur, numhops))))"

definition find_next_hop :: "topo \<Rightarrow> nat \<Rightarrow> (nat option \<times> int) result" where
  "find_next_hop s dest =
     rbind (deref s dest) (\<lambda>d.
     rbind (deref s (this_router s)) (\<lambda>me.
       if rid d = rid me then Inr (None, 0) else hop_walk s (length (network s) + 1) dest 1))"

section \<open>The forwarding table\<close>

primrec ftable_contains :: "ftable_entry list \<Rightarrow> u32 \<times> u32 \<Rightarrow> ftable_entry option" where
  "ftable_contains [] k = None"
| "ftable_contains (e # es) k =
     (if ft_prefix e = fst k \<and> ft_mask e = snd k then Some e else ftable_contains es k)"

interpretation ftab: first_match "\<lambda>k e. ft_prefix e = fst k \<and> ft_mask e = snd k" ftable_contains
  by unfold_locales simp_all

text \<open>Writing through the pointer that \<^verbatim>\<open>ftable_contains\<close> returned.\<close>

primrec ftable_write :: "(ftable_entry \<Rightarrow> ftable_entry) \<Rightarrow> ftable_entry list \<Rightarrow> u32 \<times> u32 \<Rightarrow> ftable_entry list" where
  "ftable_write f [] k = []"
| "ftable_write f (e # es) k =
     (if ft_prefix e = fst k \<and> ft_mask e = snd k then f e # es else e # ftable_write f es k)"

text \<open>
  One subnet of this router: \<open>dsub\<close> is the same index of \<^verbatim>\<open>current_dest_rt->rt->subnets\<close>,
  which the code reads for the lookup.
\<close>

definition local_entry ::
  "pwospf_if list \<Rightarrow> route option \<Rightarrow> route \<Rightarrow> ftable_entry list \<Rightarrow> ftable_entry list result" where
  "local_entry ifs dsub sub ft =
     (let fresh = (case get_subnet_if ifs sub of
            None \<Rightarrow> Inl Assertion_failure
          | Some w \<Rightarrow> Inr \<lparr>ft_prefix = prefix sub, ft_mask = rmask sub, ft_next_hop = rnext_hop sub,
                           ft_interface = pif_name w, ft_num_hops = 0\<rparr>)
      in if ft = [] then rbind fresh (\<lambda>e. Inr [e])
         else (case dsub of
            None \<Rightarrow> Inl Out_of_bounds
          | Some d \<Rightarrow>
              if ftable_contains ft (prefix d, rmask d) \<noteq> None then
                (case get_subnet_if ifs sub of
                   None \<Rightarrow> Inl Assertion_failure
                 | Some w \<Rightarrow> Inr (ftable_write (\<lambda>e. e\<lparr>ft_next_hop := rnext_hop sub,
                       ft_interface := pif_name w, ft_num_hops := 0\<rparr>) ft (prefix d, rmask d)))
              else rbind fresh (\<lambda>e. Inr (ft @ [e]))))"

fun local_entries ::
  "pwospf_if list \<Rightarrow> route list \<Rightarrow> route list \<Rightarrow> ftable_entry list \<Rightarrow> ftable_entry list result" where
  "local_entries ifs ds [] ft = Inr ft"
| "local_entries ifs [] (sub # subs) ft =
     rbind (local_entry ifs None sub ft) (local_entries ifs [] subs)"
| "local_entries ifs (d # ds) (sub # subs) ft =
     rbind (local_entry ifs (Some d) sub ft) (local_entries ifs ds subs)"

text \<open>One subnet of another router, reached over \<open>iface\<close> and the neighbour's address \<open>nhop\<close>.\<close>

definition remote_entry :: "string \<Rightarrow> u32 \<Rightarrow> int \<Rightarrow> route \<Rightarrow> ftable_entry list \<Rightarrow> ftable_entry list result" where
  "remote_entry iface nhop numhops sub ft =
     (case ftable_contains ft (prefix sub, rmask sub) of
        None \<Rightarrow>
          if numhops = 0 then Inl Assertion_failure
          else Inr (ft @ [\<lparr>ft_prefix = prefix sub, ft_mask = rmask sub, ft_next_hop = nhop,
                           ft_interface = iface, ft_num_hops = numhops\<rparr>])
      | Some e \<Rightarrow>
          if numhops < ft_num_hops e then
            (if numhops = 0 then Inl Assertion_failure
             else Inr (ftable_write (\<lambda>e. e\<lparr>ft_next_hop := nhop, ft_interface := iface,
                         ft_num_hops := numhops\<rparr>) ft (prefix sub, rmask sub)))
          else Inr ft)"

text \<open>The walk over the routers; the number is the return value, 0 for the early return.\<close>

primrec ftable_walk ::
  "topo \<Rightarrow> pwospf_if list \<Rightarrow> nat list \<Rightarrow> ftable_entry list \<Rightarrow> (int \<times> ftable_entry list) result" where
  "ftable_walk s ifs [] ft = Inr (1, ft)"
| "ftable_walk s ifs (a # as) ft =
     rbind (find_next_hop s a) (\<lambda>(next_hop, numhops).
     rbind (deref s a) (\<lambda>dest.
       case next_hop of
         None \<Rightarrow>
           if numhops = 0 then
             rbind (deref s (this_router s)) (\<lambda>me.
             rbind (local_entries ifs (subnets dest) (subnets me) ft) (ftable_walk s ifs as))
           else Inr (0, ft)
       | Some h \<Rightarrow>
           rbind (deref s h) (\<lambda>hr.
           case next_hop_of ifs (rid hr) of (iface, nhop) \<Rightarrow>
             rbind (foldr_res (remote_entry iface nhop numhops) (subnets dest) ft) (ftable_walk s ifs as))))"

definition update_ftable :: "topo \<Rightarrow> pwospf_if list \<Rightarrow> (int \<times> ftable_entry list) result" where
  "update_ftable s ifs = ftable_walk s ifs (network s) []"

text \<open>The recomputation that ends \<^verbatim>\<open>add_to_top\<close> and \<^verbatim>\<open>check_top_invalid\<close>.\<close>

definition recompute :: "topo \<Rightarrow> pwospf_if list \<Rightarrow> (topo \<times> ftable_entry list) result" where
  "recompute s ifs =
     rbind (dijkstra s) (\<lambda>s'. rbind (update_ftable s' ifs) (\<lambda>(_, ft). Inr (s', ft)))"

definition add_to_top ::
  "topo \<Rightarrow> pwospf_if list \<Rightarrow> time \<Rightarrow> u32 \<Rightarrow> route list \<Rightarrow> (topo \<times> ftable_entry list) result" where
  "add_to_top s ifs now host_rid advs = rbind (merge_lsu s now host_rid advs) (\<lambda>s'. recompute s' ifs)"

definition check_top_invalid ::
  "topo \<Rightarrow> ftable_entry list \<Rightarrow> pwospf_if list \<Rightarrow> time \<Rightarrow> (topo \<times> ftable_entry list) result" where
  "check_top_invalid s ft ifs now =
     rbind (top_walk now (network s) [] False s) (\<lambda>(changed, s').
       if changed then recompute s' ifs else Inr (s', ft))"

section \<open>The next hop is the first router of a shortest path\<close>

text \<open>The router \<open>n\<close> predecessors up.\<close>

primrec up :: "topo \<Rightarrow> nat \<Rightarrow> nat \<Rightarrow> nat option" where
  "up s 0 a = Some a"
| "up s (Suc n) a = (case prev (rt s a) of None \<Rightarrow> None | Some b \<Rightarrow> up s n b)"

lemma hop_walk_ok:
  assumes t: "route_tree s" and a: "a \<in> set (network s)" "a \<noteq> this_router s" "0 \<le> dist (rt s a)"
    and f: "dist (rt s a) \<le> int fuel"
  shows "\<exists>c. hop_walk s fuel a n = Inr (Some c, n + dist (rt s a) - 1) \<and>
     up s (nat (dist (rt s a)) - 1) a = Some c \<and> c \<in> set (network s) \<and>
     c \<in> set (adjacencies (rt s (this_router s))) \<and> 1 \<le> dist (rt s a)"
  using a f
proof (induction fuel arbitrary: a n)
  case 0
  then have "dist (rt s a) = 0" by simp
  with 0 route_treeD(4,5)[OF t, of a] show ?case by (cases "prev (rt s a)") auto
next
  case (Suc fuel)
  note T = route_treeD[OF t]
  have wf: "wf_topo s" by (rule T(1))
  have me: "this_router s \<in> set (network s)" by (rule wf_topoD(5)[OF wf])
  obtain p where p: "prev (rt s a) = Some p" using T(5)[of a] Suc.prems by (cases "prev (rt s a)") auto
  have pp: "p \<in> set (network s)" "a \<in> set (adjacencies (rt s p))" "0 \<le> dist (rt s p)"
      "dist (rt s a) = dist (rt s p) + 1"
    using T(4)[OF Suc.prems(1,2) p] by auto
  have rid: "rid (rt s p) = rid (rt s (this_router s)) \<longleftrightarrow> p = this_router s"
    using wf_topoD(3)[OF wf pp(1) me] by auto
  show ?case
  proof (cases "p = this_router s")
    case True
    then have "dist (rt s a) = 1" using pp(4) T(2) by simp
    then show ?thesis using True pp p Suc.prems(1) wf me rid by simp
  next
    case False
    obtain c where c: "hop_walk s fuel p (n + 1) = Inr (Some c, (n + 1) + dist (rt s p) - 1)"
      "up s (nat (dist (rt s p)) - 1) p = Some c" "c \<in> set (network s)"
      "c \<in> set (adjacencies (rt s (this_router s)))" "1 \<le> dist (rt s p)"
      using Suc.IH[of p "n + 1"] pp False Suc.prems by auto
    have "nat (dist (rt s a)) - 1 = Suc (nat (dist (rt s p)) - 1)" using pp(4) c(5) by simp
    then have "up s (nat (dist (rt s a)) - 1) a = Some c" using p c(2) by simp
    then show ?thesis using c p pp rid False wf me Suc.prems(1) by (simp add: algebra_simps)
  qed
qed

lemma tree_bound:
  assumes "wf_topo s" "dijkstra s = Inr s'" "a \<in> set (network s')"
  shows "dist (rt s' a) < int (length (network s'))"
proof -
  obtain w where w: "tree_of w = s'" by (rule dijkstra_tree[OF assms(1,2)])
  have "dist (rt s' a) < int (card (set (network s')))"
    using tree.depth_bound[of a w] assms(3) by (simp add: w)
  also have "\<dots> \<le> int (length (network s'))" by (simp add: card_length)
  finally show ?thesis .
qed

lemma find_next_hop_ok:
  assumes wf: "wf_topo s" and dj: "dijkstra s = Inr s'" and a: "a \<in> set (network s')"
  shows "route_tree s' \<and>
     (if a = this_router s' then find_next_hop s' a = Inr (None, 0)
      else if dist (rt s' a) < 0 then find_next_hop s' a = Inr (None, - 1)
      else \<exists>c. find_next_hop s' a = Inr (Some c, dist (rt s' a)) \<and> 1 \<le> dist (rt s' a) \<and>
             up s' (nat (dist (rt s' a)) - 1) a = Some c \<and> c \<in> set (network s') \<and>
             c \<in> set (adjacencies (rt s' (this_router s'))))"
proof -
  obtain w where w: "tree_of w = s'" by (rule dijkstra_tree[OF wf dj])
  have t: "route_tree s'" using tree_of_route_tree[of w] by (simp add: w)
  have wf': "wf_topo s'" by (rule route_treeD(1)[OF t])
  have me: "this_router s' \<in> set (network s')" by (rule wf_topoD(5)[OF wf'])
  have rid: "rid (rt s' a) = rid (rt s' (this_router s')) \<longleftrightarrow> a = this_router s'"
    using wf_topoD(3)[OF wf' a me] by auto
  have eq: "find_next_hop s' a = (if a = this_router s' then Inr (None, 0)
      else hop_walk s' (length (network s') + 1) a 1)"
    using wf' a me rid by (simp add: find_next_hop_def del: hop_walk.simps)
  show ?thesis
  proof (cases "a = this_router s'")
    case False
    show ?thesis
    proof (cases "dist (rt s' a) < 0")
      case True
      then have "prev (rt s' a) = None" using route_treeD(4)[OF t a False] by (cases "prev (rt s' a)") auto
      then show ?thesis using t False True eq wf' a me by simp
    next
      case nn: False
      have "dist (rt s' a) \<le> int (length (network s') + 1)" using tree_bound[OF wf dj a] by simp
      from hop_walk_ok[OF t a False _ this, of 1] nn False eq t show ?thesis by auto
    qed
  qed (use eq t in simp)
qed

text \<open>
  The next hop. After \<^verbatim>\<open>dijkstra\<close>, \<^verbatim>\<open>find_next_hop\<close> ends for every linked router: for this router it
  gives no router and 0 hops, for one that cannot be reached no router and -1, and else the
  distance and the router just below this one on the predecessor path, which is a neighbour of
  this router.
\<close>
theorem find_next_hop_first:
  assumes "wf_topo s" and "dijkstra s = Inr s'" and "a \<in> set (network s')"
  shows "if a = this_router s' then find_next_hop s' a = Inr (None, 0)
     else if dist (rt s' a) < 0 then find_next_hop s' a = Inr (None, - 1)
     else \<exists>c. find_next_hop s' a = Inr (Some c, dist (rt s' a)) \<and>
            up s' (nat (dist (rt s' a)) - 1) a = Some c \<and>
            c \<in> set (adjacencies (rt s' (this_router s')))"
  using find_next_hop_ok[OF assms] by (auto split: if_splits)

theorem find_next_hop_first_witness:
  "\<exists>s'. dijkstra (alone 0 1) = Inr s' \<and> find_next_hop s' 0 = Inr (None, 0)"
proof -
  obtain s' where s': "dijkstra (alone 0 1) = Inr s'" "same_links (alone 0 1) s'"
    using dijkstra_ok[OF wf_alone, of 0 1] by blast
  have "network s' = [0]" "this_router s' = 0"
    using same_links_fields(1,2)[OF s'(2)] by (simp_all add: alone_def add_new_router_def)
  with find_next_hop_first[OF wf_alone s'(1), of 0] s'(1) show ?thesis by auto
qed

section \<open>The table holds the nearest router of every prefix\<close>

definition skey :: "route \<Rightarrow> u32 \<times> u32" where
  "skey sub = (prefix sub, rmask sub)"

definition ekey :: "ftable_entry \<Rightarrow> u32 \<times> u32" where
  "ekey e = (ft_prefix e, ft_mask e)"

lemma ftable_contains_None: "ftable_contains ft k = None \<longleftrightarrow> k \<notin> ekey ` set ft"
  by (cases k) (auto simp: ftab.lookup_None ekey_def)

lemma ftable_contains_key: "ftable_contains ft k = Some e \<Longrightarrow> ekey e = k"
  by (auto simp: ekey_def dest: ftab.lookup_Some)

lemma ftable_contains_snoc:
  "ftable_contains ft (ekey e) = None \<Longrightarrow>
   ftable_contains (ft @ [e]) k = (if k = ekey e then Some e else ftable_contains ft k)"
  by (auto simp: ftab.lookup_append ekey_def split: option.splits)

lemma ftable_write_keys: "(\<And>e. ekey (f e) = ekey e) \<Longrightarrow> map ekey (ftable_write f ft k) = map ekey ft"
  by (induction ft) auto

lemma ftable_contains_write:
  "(\<And>e. ekey (f e) = ekey e) \<Longrightarrow>
   ftable_contains (ftable_write f ft k) k' =
   (if k' = k then map_option f (ftable_contains ft k) else ftable_contains ft k')"
proof (induction ft)
  case (Cons e ft)
  then have "ft_prefix (f e) = ft_prefix e" "ft_mask (f e) = ft_mask e" by (simp_all add: ekey_def)
  with Cons show ?case by (cases k, cases k') auto
qed simp

text \<open>What a remote subnet does to the table, as a function of the key.\<close>

lemma remote_entry_eq:
  assumes "n \<noteq> 0" "distinct (map ekey ft)"
  obtains ft' where "remote_entry iface nhop n sub ft = Inr ft'" "distinct (map ekey ft')"
    "\<forall>k. ftable_contains ft' k =
       (if k = skey sub then
          (case ftable_contains ft k of
             None \<Rightarrow> Some \<lparr>ft_prefix = prefix sub, ft_mask = rmask sub, ft_next_hop = nhop,
                           ft_interface = iface, ft_num_hops = n\<rparr>
           | Some e \<Rightarrow> Some (if n < ft_num_hops e
               then e\<lparr>ft_next_hop := nhop, ft_interface := iface, ft_num_hops := n\<rparr> else e))
        else ftable_contains ft k)"
proof -
  let ?new = "\<lparr>ft_prefix = prefix sub, ft_mask = rmask sub, ft_next_hop = nhop,
    ft_interface = iface, ft_num_hops = n\<rparr>"
  let ?f = "\<lambda>e :: ftable_entry. e\<lparr>ft_next_hop := nhop, ft_interface := iface, ft_num_hops := n\<rparr>"
  have f: "ekey (?f e) = ekey e" for e by (simp add: ekey_def)
  have new: "ekey ?new = skey sub" by (simp add: ekey_def skey_def)
  show thesis
  proof (cases "ftable_contains ft (skey sub)")
    case None
    then have fresh: "skey sub \<notin> ekey ` set ft" by (simp add: ftable_contains_None)
    show thesis
    proof (rule that[of "ft @ [?new]"])
      show "remote_entry iface nhop n sub ft = Inr (ft @ [?new])"
        using None assms(1) by (simp add: remote_entry_def skey_def)
      show "distinct (map ekey (ft @ [?new]))" using assms(2) fresh new by auto
    qed (use None ftable_contains_snoc[of ft ?new] new in auto)
  next
    case (Some e)
    show thesis
    proof (cases "n < ft_num_hops e")
      case True
      show thesis
      proof (rule that[of "ftable_write ?f ft (skey sub)"])
        show "remote_entry iface nhop n sub ft = Inr (ftable_write ?f ft (skey sub))"
          using Some True assms(1) by (simp add: remote_entry_def skey_def)
        show "distinct (map ekey (ftable_write ?f ft (skey sub)))"
          using assms(2) f by (simp only: ftable_write_keys)
      qed (use Some True ftable_contains_write[of ?f, OF f] in auto)
    next
      case False
      show thesis
        by (rule that[of ft]) (use Some False assms in \<open>auto simp: remote_entry_def skey_def\<close>)
    qed
  qed
qed

text \<open>What a subnet of this router does.\<close>

lemma local_entry_eq:
  assumes "distinct (map ekey ft)" "get_subnet_if ifs sub = Some w"
  obtains ft' where "local_entry ifs (Some sub) sub ft = Inr ft'" "distinct (map ekey ft')"
    "\<forall>k. ftable_contains ft' k =
       (if k = skey sub then Some \<lparr>ft_prefix = prefix sub, ft_mask = rmask sub,
           ft_next_hop = rnext_hop sub, ft_interface = pif_name w, ft_num_hops = 0\<rparr>
        else ftable_contains ft k)"
proof -
  let ?new = "\<lparr>ft_prefix = prefix sub, ft_mask = rmask sub, ft_next_hop = rnext_hop sub,
    ft_interface = pif_name w, ft_num_hops = 0\<rparr>"
  let ?f = "\<lambda>e :: ftable_entry. e\<lparr>ft_next_hop := rnext_hop sub, ft_interface := pif_name w, ft_num_hops := 0\<rparr>"
  have f: "ekey (?f e) = ekey e" for e by (simp add: ekey_def)
  have new: "ekey ?new = skey sub" by (simp add: ekey_def skey_def)
  show thesis
  proof (cases "ftable_contains ft (skey sub)")
    case None
    then have fresh: "skey sub \<notin> ekey ` set ft" by (simp add: ftable_contains_None)
    show thesis
    proof (rule that[of "ft @ [?new]"])
      show "local_entry ifs (Some sub) sub ft = Inr (ft @ [?new])"
        using None assms(2) by (simp add: local_entry_def skey_def Let_def)
      show "distinct (map ekey (ft @ [?new]))" using assms(1) fresh new by auto
    qed (use None ftable_contains_snoc[of ft ?new] new in auto)
  next
    case (Some e)
    then have e: "?f e = ?new" and ne: "ft \<noteq> []"
      using ftable_contains_key[OF Some] by (auto simp: ekey_def skey_def)
    show thesis
    proof (rule that[of "ftable_write ?f ft (skey sub)"])
      show "local_entry ifs (Some sub) sub ft = Inr (ftable_write ?f ft (skey sub))"
        using Some ne assms(2) by (simp add: local_entry_def skey_def Let_def)
      show "distinct (map ekey (ftable_write ?f ft (skey sub)))"
        using assms(1) f by (simp only: ftable_write_keys)
    qed (use Some e ftable_contains_write[of ?f, OF f] in auto)
  qed
qed

text \<open>
  The specification. An entry is justified by a subnet of a router when it leads there as the code
  means it to; a table is best for a set of such subnets when each key has one entry, justified by a
  subnet of a nearest router.
\<close>

definition justified :: "topo \<Rightarrow> pwospf_if list \<Rightarrow> ftable_entry \<Rightarrow> nat \<Rightarrow> route \<Rightarrow> bool" where
  "justified s ifs e a sub \<longleftrightarrow> skey sub = ekey e \<and> ft_num_hops e = dist (rt s a) \<and>
     (if a = this_router s
      then ft_next_hop e = rnext_hop sub \<and> (\<exists>w. get_subnet_if ifs sub = Some w \<and> ft_interface e = pif_name w)
      else \<exists>c. find_next_hop s a = Inr (Some c, dist (rt s a)) \<and>
               (ft_interface e, ft_next_hop e) = next_hop_of ifs (rid (rt s c)))"

definition best_at ::
  "topo \<Rightarrow> pwospf_if list \<Rightarrow> (nat \<times> route) set \<Rightarrow> u32 \<times> u32 \<Rightarrow> ftable_entry option \<Rightarrow> bool" where
  "best_at s ifs A k oe \<longleftrightarrow>
     (case oe of
        None \<Rightarrow> \<forall>(a, sub) \<in> A. skey sub \<noteq> k
      | Some e \<Rightarrow> (\<exists>(a, sub) \<in> A. justified s ifs e a sub) \<and>
                  (\<forall>(a, sub) \<in> A. skey sub = k \<longrightarrow> ft_num_hops e \<le> dist (rt s a)))"

definition best :: "topo \<Rightarrow> pwospf_if list \<Rightarrow> (nat \<times> route) set \<Rightarrow> ftable_entry list \<Rightarrow> bool" where
  "best s ifs A ft \<longleftrightarrow> distinct (map ekey ft) \<and> (\<forall>k. best_at s ifs A k (ftable_contains ft k))"

text \<open>One more subnet: for another key, for a key without an entry, and against the entry there is.\<close>

lemma best_at_other: "best_at s ifs A k oe \<Longrightarrow> k \<noteq> skey sub \<Longrightarrow> best_at s ifs (insert (a, sub) A) k oe"
  by (auto simp: best_at_def split: option.splits)

lemma best_at_first:
  "justified s ifs e a sub \<Longrightarrow> best_at s ifs A (skey sub) None \<Longrightarrow> best_at s ifs (insert (a, sub) A) (skey sub) (Some e)"
  by (auto simp: best_at_def justified_def)

lemma best_at_nearer:
  "best_at s ifs A k (Some e) \<Longrightarrow> justified s ifs e' a sub \<Longrightarrow> dist (rt s a) < ft_num_hops e \<Longrightarrow> k = skey sub \<Longrightarrow>
   best_at s ifs (insert (a, sub) A) k (Some e')"
  by (fastforce simp: best_at_def justified_def)

lemma best_at_kept:
  "best_at s ifs A k (Some e) \<Longrightarrow> \<not> dist (rt s a) < ft_num_hops e \<Longrightarrow> best_at s ifs (insert (a, sub) A) k (Some e)"
  by (auto simp: best_at_def)

lemma best_remote:
  assumes b: "best s ifs A ft" and a: "a \<noteq> this_router s" "find_next_hop s a = Inr (Some c, dist (rt s a))"
    "dist (rt s a) \<noteq> 0" "next_hop_of ifs (rid (rt s c)) = (iface, nhop)"
  shows "\<exists>ft'. remote_entry iface nhop (dist (rt s a)) sub ft = Inr ft' \<and> best s ifs (insert (a, sub) A) ft'"
proof -
  let ?n = "dist (rt s a)"
  have d: "distinct (map ekey ft)" using b by (simp add: best_def)
  obtain ft' where ft': "remote_entry iface nhop ?n sub ft = Inr ft'" "distinct (map ekey ft')"
    "\<forall>k. ftable_contains ft' k =
       (if k = skey sub then
          (case ftable_contains ft k of
             None \<Rightarrow> Some \<lparr>ft_prefix = prefix sub, ft_mask = rmask sub, ft_next_hop = nhop,
                           ft_interface = iface, ft_num_hops = ?n\<rparr>
           | Some e \<Rightarrow> Some (if ?n < ft_num_hops e
               then e\<lparr>ft_next_hop := nhop, ft_interface := iface, ft_num_hops := ?n\<rparr> else e))
        else ftable_contains ft k)"
    by (rule remote_entry_eq[OF a(3) d, of iface nhop sub])
  have j: "justified s ifs \<lparr>ft_prefix = p, ft_mask = m, ft_next_hop = nhop, ft_interface = iface,
      ft_num_hops = ?n\<rparr> a sub" if "skey sub = (p, m)" for p m
    using that a by (simp add: justified_def ekey_def)
  have "best_at s ifs (insert (a, sub) A) k (ftable_contains ft' k)" for k
  proof -
    have bk: "best_at s ifs A k (ftable_contains ft k)"
      using b unfolding best_def by blast
    show ?thesis
    proof (cases "k = skey sub")
      case False
      with best_at_other[OF bk] show ?thesis by (simp add: ft'(3))
    next
      case True
      show ?thesis
      proof (cases "ftable_contains ft k")
        case None
        with best_at_first[OF j[of "prefix sub" "rmask sub"]] bk True show ?thesis by (simp add: ft'(3) skey_def)
      next
        case (Some e)
        have e: "e\<lparr>ft_next_hop := nhop, ft_interface := iface, ft_num_hops := ?n\<rparr> =
            \<lparr>ft_prefix = fst k, ft_mask = snd k, ft_next_hop = nhop, ft_interface = iface, ft_num_hops = ?n\<rparr>"
          using ftable_contains_key[OF Some] by (cases e) (auto simp: ekey_def)
        from best_at_nearer[OF bk[unfolded Some] j[of "fst k" "snd k"]] best_at_kept[OF bk[unfolded Some], of a sub] True Some
        show ?thesis by (simp add: ft'(3) e)
      qed
    qed
  qed
  with ft'(1,2) show ?thesis by (auto simp: best_def)
qed

lemma best_local:
  assumes b: "best s ifs A ft" and a: "dist (rt s (this_router s)) = 0" "get_subnet_if ifs sub = Some w"
    and A: "\<forall>(a, sub) \<in> A. 0 \<le> dist (rt s a)"
  shows "\<exists>ft'. local_entry ifs (Some sub) sub ft = Inr ft' \<and> best s ifs (insert (this_router s, sub) A) ft'"
proof -
  have d: "distinct (map ekey ft)" using b by (simp add: best_def)
  obtain ft' where ft': "local_entry ifs (Some sub) sub ft = Inr ft'" "distinct (map ekey ft')"
    "\<forall>k. ftable_contains ft' k =
       (if k = skey sub then Some \<lparr>ft_prefix = prefix sub, ft_mask = rmask sub,
           ft_next_hop = rnext_hop sub, ft_interface = pif_name w, ft_num_hops = 0\<rparr>
        else ftable_contains ft k)"
    by (rule local_entry_eq[OF d a(2)])
  have j: "justified s ifs \<lparr>ft_prefix = prefix sub, ft_mask = rmask sub, ft_next_hop = rnext_hop sub,
      ft_interface = pif_name w, ft_num_hops = 0\<rparr> (this_router s) sub"
    using a by (simp add: justified_def ekey_def skey_def)
  have "best_at s ifs (insert (this_router s, sub) A) k (ftable_contains ft' k)" for k
  proof -
    have bk: "best_at s ifs A k (ftable_contains ft k)"
      using b unfolding best_def by blast
    show ?thesis
      using bk j a(1) A by (cases "k = skey sub") (auto simp: ft'(3) best_at_def split: option.splits)
  qed
  with ft'(1,2) show ?thesis by (auto simp: best_def)
qed

lemma best_remotes:
  assumes "best s ifs A ft" "a \<noteq> this_router s" "find_next_hop s a = Inr (Some c, dist (rt s a))"
    "dist (rt s a) \<noteq> 0" "next_hop_of ifs (rid (rt s c)) = (iface, nhop)"
  shows "\<exists>ft'. foldr_res (remote_entry iface nhop (dist (rt s a))) subs ft = Inr ft' \<and>
     best s ifs (A \<union> Pair a ` set subs) ft'"
  using assms(1)
proof (induction subs arbitrary: ft A)
  case (Cons sub subs)
  obtain ft1 where 1: "remote_entry iface nhop (dist (rt s a)) sub ft = Inr ft1"
      "best s ifs (insert (a, sub) A) ft1"
    using best_remote[OF Cons.prems assms(2-5)] by blast
  from Cons.IH[OF 1(2)] obtain ft2 where 2: "foldr_res (remote_entry iface nhop (dist (rt s a))) subs ft1 = Inr ft2"
      "best s ifs (insert (a, sub) A \<union> Pair a ` set subs) ft2" by blast
  have "insert (a, sub) A \<union> Pair a ` set subs = A \<union> Pair a ` set (sub # subs)" by auto
  with 1 2 show ?case by simp
qed simp

lemma best_locals:
  assumes "best s ifs A ft" "dist (rt s (this_router s)) = 0"
    "\<forall>sub \<in> set subs. get_subnet_if ifs sub \<noteq> None" "\<forall>(a, sub) \<in> A. 0 \<le> dist (rt s a)"
  shows "\<exists>ft'. local_entries ifs subs subs ft = Inr ft' \<and>
     best s ifs (A \<union> Pair (this_router s) ` set subs) ft'"
  using assms(1,3,4)
proof (induction subs arbitrary: ft A)
  case (Cons sub subs)
  obtain w where w: "get_subnet_if ifs sub = Some w" using Cons.prems(2) by auto
  obtain ft1 where 1: "local_entry ifs (Some sub) sub ft = Inr ft1"
      "best s ifs (insert (this_router s, sub) A) ft1"
    using best_local[OF Cons.prems(1) assms(2) w Cons.prems(3)] by blast
  from Cons.IH[OF 1(2)] Cons.prems assms(2) obtain ft2 where 2: "local_entries ifs subs subs ft1 = Inr ft2"
      "best s ifs (insert (this_router s, sub) A \<union> Pair (this_router s) ` set subs) ft2" by auto
  have "insert (this_router s, sub) A \<union> Pair (this_router s) ` set subs =
      A \<union> Pair (this_router s) ` set (sub # subs)" by auto
  with 1 2 show ?case by simp
qed simp

text \<open>The subnets of a list of routers.\<close>

definition advertised :: "topo \<Rightarrow> nat list \<Rightarrow> (nat \<times> route) set" where
  "advertised s as = {(a, sub). a \<in> set as \<and> sub \<in> set (subnets (rt s a))}"

lemma advertised_Cons: "advertised s (a # as) = Pair a ` set (subnets (rt s a)) \<union> advertised s as"
  by (auto simp: advertised_def)

text \<open>A turn of the walk at a reachable router.\<close>

lemma ftable_walk_turn:
  assumes wf: "wf_topo s0" and dj: "dijkstra s0 = Inr s"
    and ifs: "\<forall>sub \<in> set (subnets (rt s (this_router s))). get_subnet_if ifs sub \<noteq> None"
    and a: "a \<in> set (network s)" "0 \<le> dist (rt s a)"
    and b: "best s ifs A ft" "\<forall>(a, sub) \<in> A. 0 \<le> dist (rt s a)"
  shows "\<exists>ft1. ftable_walk s ifs (a # as) ft = ftable_walk s ifs as ft1 \<and>
    best s ifs (A \<union> Pair a ` set (subnets (rt s a))) ft1"
proof -
  note N = find_next_hop_ok[OF wf dj a(1)]
  have t: "route_tree s" using N by simp
  have wfs: "wf_topo s" by (rule route_treeD(1)[OF t])
  have da: "deref s a = Inr (rt s a)" "deref s (this_router s) = Inr (rt s (this_router s))"
    using wfs a wf_topoD(5)[OF wfs] by simp_all
  show ?thesis
  proof (cases "a = this_router s")
    case self: True
    obtain ft1 where "local_entries ifs (subnets (rt s a)) (subnets (rt s a)) ft = Inr ft1"
        "best s ifs (A \<union> Pair a ` set (subnets (rt s a))) ft1"
      using best_locals[OF b(1) route_treeD(2)[OF t] ifs b(2)] self by auto
    then show ?thesis using N self da by auto
  next
    case other: False
    then obtain c where c: "find_next_hop s a = Inr (Some c, dist (rt s a))" "1 \<le> dist (rt s a)"
        "c \<in> set (network s)"
      using N a(2) by auto
    obtain iface nhop where nh: "next_hop_of ifs (rid (rt s c)) = (iface, nhop)" by force
    have nz: "dist (rt s a) \<noteq> 0" using c(2) by simp
    obtain ft1 where "foldr_res (remote_entry iface nhop (dist (rt s a))) (subnets (rt s a)) ft = Inr ft1"
        "best s ifs (A \<union> Pair a ` set (subnets (rt s a))) ft1"
      using best_remotes[OF b(1) other c(1) nz nh] by blast
    then show ?thesis using c wfs da nh by auto
  qed
qed

lemma ftable_walk_ok:
  assumes wf: "wf_topo s0" and dj: "dijkstra s0 = Inr s"
    and ifs: "\<forall>sub \<in> set (subnets (rt s (this_router s))). get_subnet_if ifs sub \<noteq> None"
    and "set as \<subseteq> set (network s)" "best s ifs A ft" "\<forall>(a, sub) \<in> A. 0 \<le> dist (rt s a)"
  shows "\<exists>ft'. ftable_walk s ifs as ft = Inr (if \<forall>a \<in> set as. 0 \<le> dist (rt s a) then 1 else 0, ft') \<and>
     best s ifs (A \<union> advertised s (takeWhile (\<lambda>a. 0 \<le> dist (rt s a)) as)) ft'"
  using assms(4-6)
proof (induction as arbitrary: ft A)
  case Nil
  then show ?case by (simp add: advertised_def)
next
  case (Cons a as)
  have a: "a \<in> set (network s)" "set as \<subseteq> set (network s)" using Cons.prems(1) by simp_all
  note N = find_next_hop_ok[OF wf dj a(1)]
  then have t: "route_tree s" by simp
  show ?case
  proof (cases "0 \<le> dist (rt s a)")
    case False
    then have "a \<noteq> this_router s" using route_treeD(2)[OF t] by auto
    with N False have "find_next_hop s a = Inr (None, - 1)" by simp
    with False Cons.prems(2) a(1) route_treeD(1)[OF t] show ?thesis by (auto simp: advertised_def)
  next
    case True
    have A': "\<forall>(b, sub) \<in> A \<union> Pair a ` set (subnets (rt s a)). 0 \<le> dist (rt s b)"
      using Cons.prems(3) True by auto
    have un: "A \<union> Pair a ` set (subnets (rt s a)) \<union> advertised s (takeWhile (\<lambda>a. 0 \<le> dist (rt s a)) as) =
        A \<union> advertised s (takeWhile (\<lambda>a. 0 \<le> dist (rt s a)) (a # as))"
      using True by (simp add: advertised_Cons Un_assoc)
    obtain ft1 where ft1: "ftable_walk s ifs (a # as) ft = ftable_walk s ifs as ft1"
        "best s ifs (A \<union> Pair a ` set (subnets (rt s a))) ft1"
      using ftable_walk_turn[OF wf dj ifs a(1) True Cons.prems(2,3)] by blast
    from Cons.IH[OF a(2) ft1(2) A'] True show ?thesis by (simp add: ft1(1) un del: ftable_walk.simps)
  qed
qed

lemma best_empty: "best s ifs {} []"
  by (simp add: best_def best_at_def)



text \<open>
  One unreachable router cuts the table off. A prefix that only routers behind the first
  unreachable one in the list advertise has no entry, however near those routers are.
\<close>
theorem update_ftable_cut:
  assumes "wf_topo s0" and "dijkstra s0 = Inr s"
    and "\<forall>sub \<in> set (subnets (rt s (this_router s))). get_subnet_if ifs sub \<noteq> None"
    and "network s = pre @ a # post" and "dist (rt s a) < 0"
    and "\<forall>b \<in> set pre. k \<notin> skey ` set (subnets (rt s b))"
  shows "\<exists>ft. update_ftable s ifs = Inr (0, ft) \<and> ftable_contains ft k = None"
proof -
  obtain ft where ft: "update_ftable s ifs = Inr (if \<forall>a \<in> set (network s). 0 \<le> dist (rt s a) then 1 else 0, ft)"
    "best s ifs (advertised s (takeWhile (\<lambda>a. 0 \<le> dist (rt s a)) (network s))) ft"
    using ftable_walk_ok[OF assms(1-3) subset_refl best_empty] by (auto simp: update_ftable_def)
  have "\<not> (\<forall>a \<in> set (network s). 0 \<le> dist (rt s a))" using assms(4,5) by auto
  moreover have sub: "b \<in> set pre" if "b \<in> set (takeWhile (\<lambda>a. 0 \<le> dist (rt s a)) (network s))" for b
    using that assms(4,5) by (auto simp: takeWhile_append split: if_splits dest: set_takeWhileD)
  have "ftable_contains ft k = None"
  proof (rule ccontr)
    assume "ftable_contains ft k \<noteq> None"
    then obtain e where e: "ftable_contains ft k = Some e" by blast
    have "best_at s ifs (advertised s (takeWhile (\<lambda>a. 0 \<le> dist (rt s a)) (network s))) k (Some e)"
      using ft(2) e unfolding best_def by metis
    then obtain b subn where "b \<in> set pre" "subn \<in> set (subnets (rt s b))" "skey subn = ekey e"
      using sub by (auto simp: best_at_def advertised_def justified_def)
    with ftable_contains_key[OF e] assms(6) show False by (metis imageI)
  qed
  ultimately show ?thesis using ft(1) by auto
qed

text \<open>This router and one other, with a stub network and no link between them.\<close>

definition islands :: topo where
  "islands = \<lparr>store = [Some (new_router 0 1), Some ((new_router 0 2)\<lparr>subnets := [stub 7]\<rparr>)],
     network = [0, 1], this_router = 0, init_time = 90\<rparr>"

lemma wf_islands: "wf_topo islands"
  by (simp add: islands_def wf_topo_def alive_def rt_def wf_router_def new_router_def topo_consts)

lemma walk_islands: "walk islands n a \<Longrightarrow> a = 0"
proof (induction n arbitrary: a)
  case (Suc n)
  then obtain b where "walk islands n b" "a \<in> set (adjacencies (rt islands b))" by auto
  moreover have "adjacencies (rt islands 0) = []" by (simp add: islands_def rt_def new_router_def)
  ultimately show ?case using Suc.IH by fastforce
qed (simp add: islands_def)

theorem update_ftable_cut_witness:
  "\<exists>s ft. dijkstra islands = Inr s \<and> update_ftable s [] = Inr (0, ft) \<and>
     skey (stub 7) \<in> skey ` set (subnets (rt s 1)) \<and> ftable_contains ft (skey (stub 7)) = None"
proof -
  obtain s where s: "dijkstra islands = Inr s" "same_links islands s"
      "\<forall>a \<in> set (network islands). 0 \<le> dist (rt s a) \<longleftrightarrow> (\<exists>n. walk islands n a)"
    using dijkstra_ok[OF wf_islands] by blast
  note F = same_links_fields[OF s(2)]
  have n: "network s = [0] @ 1 # []" "this_router s = 0" "subnets (rt s 0) = []" "subnets (rt s 1) = [stub 7]"
    unfolding F by (simp_all add: islands_def rt_def new_router_def)
  have "1 \<in> set (network islands)" by (simp add: islands_def)
  then have "\<not> 0 \<le> dist (rt s 1)" using s(3) walk_islands by (metis zero_neq_one)
  then have "dist (rt s 1) < 0" by simp
  from update_ftable_cut[OF wf_islands s(1) _ n(1) this, of "[]" "skey (stub 7)"] n s(1)
  show ?thesis by auto
qed

end
