(* ===== verification/Link.thy ===== *)
theory Link
  imports Interfaces
begin

text \<open>
  Sending a frame to the virtual network (\<^verbatim>\<open>sr_send_packet\<close> in \<^verbatim>\<open>sr_vns_comm.c\<close>): the
  sanity check of the Ethernet source address against the outgoing interface, and the message
  that is handed to \<^verbatim>\<open>write\<close>. No caller reads the return value, so the model returns the
  frames handed over: an interface name and the bytes behind it.
\<close>

type_synonym frame = "string \<times> bytes"

definition ETHER_HDR_LEN :: nat where "ETHER_HDR_LEN = 14"
definition IP_HDR_LEN :: nat where "IP_HDR_LEN = 20"
definition ETHER_ADDR_LEN :: nat where "ETHER_ADDR_LEN = 6"

lemmas hdr_lens = ETHER_HDR_LEN_def IP_HDR_LEN_def ETHER_ADDR_LEN_def

text \<open>Bytes 0 to 5 of a frame are the destination, bytes 6 to 11 the source address.\<close>

definition ether_dhost :: "bytes \<Rightarrow> mac" where
  "ether_dhost f = take 6 f"

definition ether_shost :: "bytes \<Rightarrow> mac" where
  "ether_shost f = take 6 (drop 6 f)"

text \<open>\<^verbatim>\<open>memmove(dst + k, src, n)\<close> inside an allocated block, and reading \<open>n\<close> bytes at \<open>k\<close>.\<close>

definition put_bytes :: "nat \<Rightarrow> bytes \<Rightarrow> bytes \<Rightarrow> bytes result" where
  "put_bytes k src dst =
     (if k + length src \<le> length dst then Inr (take k dst @ src @ drop (k + length src) dst)
      else Inl Out_of_bounds)"

definition get_bytes :: "nat \<Rightarrow> nat \<Rightarrow> bytes \<Rightarrow> bytes result" where
  "get_bytes k n src = (if k + n \<le> length src then Inr (take n (drop k src)) else Inl Out_of_bounds)"

lemma put_bytes_ok [simp]:
  "k + length src \<le> length dst \<Longrightarrow>
   put_bytes k src dst = Inr (take k dst @ src @ drop (k + length src) dst)"
  by (simp add: put_bytes_def)

lemma get_bytes_ok [simp]: "k + n \<le> length src \<Longrightarrow> get_bytes k n src = Inr (take n (drop k src))"
  by (simp add: get_bytes_def)

lemma put_bytes_eq_Inr:
  "put_bytes k src dst = Inr d \<longleftrightarrow>
   k + length src \<le> length dst \<and> d = take k dst @ src @ drop (k + length src) dst"
  by (auto simp: put_bytes_def)

lemma get_bytes_eq_Inr:
  "get_bytes k n src = Inr d \<longleftrightarrow> k + n \<le> length src \<and> d = take n (drop k src)"
  by (auto simp: get_bytes_def)

text \<open>What was written is read back, and what was not is unchanged.\<close>

lemma get_put_same: "put_bytes k src dst = Inr d \<Longrightarrow> take (length src) (drop k d) = src"
  by (auto simp: put_bytes_eq_Inr)

lemma length_put: "put_bytes k src dst = Inr d \<Longrightarrow> length d = length dst"
  by (auto simp: put_bytes_eq_Inr)

lemma put_before: "put_bytes k src dst = Inr d \<Longrightarrow> j + n \<le> k \<Longrightarrow>
  take n (drop j d) = take n (drop j dst)"
  by (auto simp: put_bytes_eq_Inr take_drop)

lemma put_after: "put_bytes k src dst = Inr d \<Longrightarrow> k + length src \<le> j \<Longrightarrow> drop j d = drop j dst"
  by (auto simp: put_bytes_eq_Inr)

section \<open>The check and the send\<close>

definition sr_ether_addrs_match_interface :: "sr_if list \<Rightarrow> bytes \<Rightarrow> string \<Rightarrow> bool" where
  "sr_ether_addrs_match_interface ifs buf name =
     (case sr_get_interface ifs name of
        None \<Rightarrow> False
      | Some iface \<Rightarrow> ether_shost buf = if_addr iface)"

definition sr_send_packet :: "sr_if list \<Rightarrow> bytes \<Rightarrow> nat \<Rightarrow> string \<Rightarrow> frame list result" where
  "sr_send_packet ifs buf len iface =
     (if len < ETHER_HDR_LEN then Inr []
      else if length buf < len then Inl Out_of_bounds
      else if sr_ether_addrs_match_interface ifs buf iface then Inr [(iface, take len buf)]
      else Inr [])"

text \<open>
  The message of \<^verbatim>\<open>sr_send_packet\<close>: total length, type \<^verbatim>\<open>VNSPACKET\<close>, the interface name in 16
  bytes padded with NUL, the frame.
\<close>

definition name_field :: "nat \<Rightarrow> string \<Rightarrow> bytes" where
  "name_field n s =
     take n (map (\<lambda>c. of_nat (of_char c)) s) @ replicate (n - length s) 0"

definition vns_packet :: "frame \<Rightarrow> bytes" where
  "vns_packet f = (case f of (iface, b) \<Rightarrow>
     store32 (htonl (of_nat (length b + 24))) @ store32 (htonl 4) @ name_field 16 iface @ b)"

text \<open>
  Nothing leaves with a forged source: a frame that \<^verbatim>\<open>sr_send_packet\<close> hands over names an
  existing interface, is at least an Ethernet header long, is a prefix of the buffer it was
  given, and its source address is that interface's.
\<close>
theorem sr_send_packet_source:
  assumes "sr_send_packet ifs buf len iface = Inr out" and "(nm, f) \<in> set out"
  shows "nm = iface \<and> f = take len buf \<and> length f = len \<and> 14 \<le> len \<and>
         (\<exists>w. sr_get_interface ifs iface = Some w \<and> ether_shost f = if_addr w)"
proof -
  from assms have *: "14 \<le> len" "len \<le> length buf" "sr_ether_addrs_match_interface ifs buf iface"
    "nm = iface" "f = take len buf"
    by (auto simp: sr_send_packet_def hdr_lens split: if_splits)
  have "take 6 (drop 6 (take len buf)) = take 6 (drop 6 buf)"
    using *(1) by (simp add: drop_take)
  with * show ?thesis
    by (auto simp: sr_ether_addrs_match_interface_def ether_shost_def split: option.splits)
qed

definition sample_if :: sr_if where
  "sample_if = \<lparr>if_name = ''eth0'', if_addr = [1, 2, 3, 4, 5, 6], if_ip = load32 10 0 0 1, if_speed = 0\<rparr>"

definition sample_if1 :: sr_if where
  "sample_if1 = \<lparr>if_name = ''eth1'', if_addr = [1, 2, 3, 4, 5, 7], if_ip = load32 10 0 1 1, if_speed = 0\<rparr>"

end
