(* ===== verification/Checksum.thy ===== *)
theory Checksum
  imports Prelude
begin

text \<open>
  The Internet checksum of \<^verbatim>\<open>sr_router.c\<close> (\<^verbatim>\<open>cksum\<close>) and its use on a forwarded IP
  header (\<^verbatim>\<open>update_ip_hdr\<close>). The loop is translated with its 16-bit index and its
  32-bit accumulator; the specification is the one's-complement sum of the big-endian
  16-bit words of the buffer, over the natural numbers.
\<close>

unbundle bit_operations_syntax

section \<open>The code\<close>

text \<open>\<^verbatim>\<open>word16 = ((buff[i]<<8) & 0xff00) + (buff[i+1] & 0xff)\<close>\<close>

definition cksum_word :: "u8 \<Rightarrow> u8 \<Rightarrow> u16" where
  "cksum_word hi lo = (push_bit 8 (ucast hi) AND 0xFF00) + (ucast lo AND 0xFF)"

text \<open>
  The summing loop. The index is a \<^verbatim>\<open>uint16_t\<close> compared with an \<^verbatim>\<open>int\<close>: past 65534 it
  wraps to 0 and the loop never ends. \<^verbatim>\<open>buff[i+1]\<close> is read even when \<^verbatim>\<open>len\<close> is odd.
\<close>

function cksum_loop :: "bytes \<Rightarrow> nat \<Rightarrow> nat \<Rightarrow> u32 \<Rightarrow> u32 result" where
  "cksum_loop buff len i acc =
     (if i < len then
        (if i + 1 < length buff then
           (if i + 2 < 65536
            then cksum_loop buff len (i + 2) (acc + ucast (cksum_word (buff ! i) (buff ! (i + 1))))
            else Inl Diverges)
         else Inl Out_of_bounds)
      else Inr acc)"
  by pat_completeness auto
termination by (relation "measure (\<lambda>(buff, len, i, acc). len - i)") auto

declare cksum_loop.simps [simp del]

lemma unat_low_half: "unat (s AND 0xFFFF :: u32) = unat s mod 65536"
proof -
  have "(0xFFFF :: u32) = mask 16" by (simp add: mask_eq_exp_minus_1)
  then have "s AND 0xFFFF = take_bit 16 s" by (simp add: take_bit_eq_mask)
  then show ?thesis by (simp add: take_bit_eq_mod unat_mod)
qed

lemma unat_high_half: "unat (drop_bit 16 s :: u32) = unat s div 65536"
  by (simp add: drop_bit_eq_div unat_div)

lemma fold_step_unat:
  "unat ((s AND 0xFFFF) + drop_bit 16 s :: u32) = unat s mod 65536 + unat s div 65536"
proof -
  have "unat s < 2 ^ LENGTH(32)" by (rule unsigned_less)
  then have "unat s mod 65536 + unat s div 65536 < 2 ^ LENGTH(32)" by simp
  then show ?thesis by (simp add: unat_word_ariths unat_low_half unat_high_half)
qed

lemma high_half_zero: "drop_bit 16 s = 0 \<longleftrightarrow> unat (s :: u32) < 65536"
proof -
  have "drop_bit 16 s = 0 \<longleftrightarrow> unat (drop_bit 16 s) = 0" by (simp only: unat_eq_zero)
  then show ?thesis by (simp only: unat_high_half div_eq_0_iff) simp
qed

lemma halves_decomp:
  obtains q r where "(n :: nat) = 65536 * q + r" "n mod 65536 = r" "n div 65536 = q" "r < 65536"
  by (metis mult_div_mod_eq mod_less_divisor zero_less_numeral)

lemma halves_less: "65536 \<le> n \<Longrightarrow> n mod 65536 + n div 65536 < (n :: nat)"
  by (rule halves_decomp[of n]) simp

text \<open>\<^verbatim>\<open>while(sum>>16) sum = (sum & 0xffff) + (sum >> 16);\<close>\<close>

function cksum_fold :: "u32 \<Rightarrow> u32" where
  "cksum_fold acc =
     (if drop_bit 16 acc \<noteq> 0 then cksum_fold ((acc AND 0xFFFF) + drop_bit 16 acc) else acc)"
  by pat_completeness auto
termination
proof (relation "measure unat")
  fix s :: u32 assume "drop_bit 16 s \<noteq> 0"
  then have "65536 \<le> unat s" by (simp add: high_half_zero)
  then have "unat s mod 65536 + unat s div 65536 < unat s" by (rule halves_less)
  then show "((s AND 0xFFFF) + drop_bit 16 s, s) \<in> measure unat" by (simp add: fold_step_unat)
qed simp

declare cksum_fold.simps [simp del]

definition cksum :: "bytes \<Rightarrow> nat \<Rightarrow> u16 result" where
  "cksum buff len =
     rbind (cksum_loop buff len 0 0) (\<lambda>acc. Inr (ucast (NOT (cksum_fold acc))))"

section \<open>The specification\<close>

fun be_words :: "bytes \<Rightarrow> nat list" where
  "be_words (a # b # r) = (256 * unat a + unat b) # be_words r"
| "be_words _ = []"

text \<open>The one's-complement representative of a sum: 0 only for an empty sum.\<close>

definition oc_sum :: "nat \<Rightarrow> nat" where
  "oc_sum n = (if n = 0 then 0 else if n mod 65535 = 0 then 65535 else n mod 65535)"

lemma oc_sum_le: "oc_sum n \<le> 65535"
  using mod_less_divisor[of 65535 n] by (simp add: oc_sum_def)

lemma oc_sum_small: "n < 65536 \<Longrightarrow> oc_sum n = n"
  by (cases "n = 65535") (auto simp: oc_sum_def)

lemma oc_sum_fold: "65536 \<le> n \<Longrightarrow> oc_sum (n mod 65536 + n div 65536) = oc_sum n"
proof -
  assume n: "65536 \<le> n"
  obtain q r where qr: "n = 65536 * q + r" "n mod 65536 = r" "n div 65536 = q" "r < 65536"
    by (rule halves_decomp)
  then have "n = r + q + 65535 * q" by simp
  then have "n mod 65535 = (r + q) mod 65535" by (metis mod_mult_self2)
  moreover have "r + q \<noteq> 0" "n \<noteq> 0" using n qr(1,4) by auto
  ultimately show ?thesis by (simp add: oc_sum_def qr(2,3))
qed

lemma unat_cksum_fold: "unat (cksum_fold s) = oc_sum (unat s)"
proof (induction s rule: cksum_fold.induct)
  case (1 s)
  show ?case
  proof (cases "drop_bit 16 s = 0")
    case True
    then have "unat s < 65536" by (simp add: high_half_zero)
    with True show ?thesis by (subst cksum_fold.simps) (simp add: oc_sum_small)
  next
    case False
    then have "65536 \<le> unat s" by (simp add: high_half_zero)
    with 1 False show ?thesis
      by (subst cksum_fold.simps) (simp add: fold_step_unat oc_sum_fold)
  qed
qed

lemma cksum_word_unat: "unat (cksum_word a b) = 256 * unat a + unat b"
proof -
  have m: "(0xFF00 :: u16) = push_bit 8 (mask 8)" "(0xFF :: u16) = mask 8"
    by (simp_all add: mask_eq_exp_minus_1)
  have a: "push_bit 8 (ucast a) AND 0xFF00 = (push_bit 8 (ucast a) :: u16)"
    unfolding m by (rule bit_word_eqI) (auto simp: bit_simps)
  have b: "ucast b AND 0xFF = (ucast b :: u16)"
    unfolding m by (rule bit_word_eqI) (auto simp: bit_simps dest: bit_imp_le_length)
  have lt: "unat a < 256" "unat b < 256" by (rule unat_u8_less)+
  have "unat (push_bit 8 (ucast a) :: u16) = 256 * unat a"
    using lt by (simp add: push_bit_eq_mult unat_word_ariths unsigned_ucast_eq take_bit_eq_mod)
  moreover have "unat (ucast b :: u16) = unat b" using lt by (simp add: unsigned_ucast_eq take_bit_eq_mod)
  ultimately show ?thesis using lt by (simp add: cksum_word_def a b unat_word_ariths)
qed

lemma be_words_drop:
  "i + 1 < length xs \<Longrightarrow>
   be_words (drop i xs) = (256 * unat (xs ! i) + unat (xs ! (i + 1))) # be_words (drop (i + 2) xs)"
  by (metis Cons_nth_drop_Suc Suc_eq_plus1 Suc_lessD add_2_eq_Suc' be_words.simps(1))

lemma cksum_loop_sum:
  assumes "even len" "even i" "i \<le> len" "len \<le> length buff" "len \<le> 65534"
  shows "cksum_loop buff len i acc =
         Inr (acc + of_nat (sum_list (be_words (drop i (take len buff)))))"
  using assms
proof (induction buff len i acc rule: cksum_loop.induct)
  case (1 buff len i acc)
  show ?case
  proof (cases "i < len")
    case True
    with "1.prems" have i2: "i + 2 \<le> len" by presburger
    have ucast: "ucast (cksum_word a b) = (of_nat (256 * unat a + unat b) :: u32)" for a b
      by (metis of_nat_unat cksum_word_unat)
    have w: "be_words (drop i (take len buff)) =
        (256 * unat (buff ! i) + unat (buff ! (i + 1))) # be_words (drop (i + 2) (take len buff))"
      using i2 "1.prems" be_words_drop[of i "take len buff"] by simp
    have "cksum_loop buff len i acc =
        cksum_loop buff len (i + 2) (acc + ucast (cksum_word (buff ! i) (buff ! (i + 1))))"
      using True i2 "1.prems" by (subst cksum_loop.simps) simp
    also have "\<dots> = Inr (acc + ucast (cksum_word (buff ! i) (buff ! (i + 1))) +
        of_nat (sum_list (be_words (drop (i + 2) (take len buff)))))"
      using True i2 "1.prems" by (intro "1.IH") auto
    finally show ?thesis by (simp only: w ucast sum_list.Cons of_nat_add add.assoc)
  next
    case False
    with "1.prems" show ?thesis by (subst cksum_loop.simps) simp
  qed
qed

lemma be_words_bound: "x \<in> set (be_words xs) \<Longrightarrow> x \<le> 65535"
proof (induction xs rule: be_words.induct)
  case (1 a b r)
  then show ?case using unat_u8_less[of a] unat_u8_less[of b] by auto
qed auto

lemma length_be_words: "length (be_words xs) = length xs div 2"
  by (induction xs rule: be_words.induct) auto

lemma sum_list_le: "(\<And>x. x \<in> set ns \<Longrightarrow> x \<le> (c :: nat)) \<Longrightarrow> sum_list ns \<le> length ns * c"
  by (induction ns) (auto intro: add_mono)

lemma sum_be_words_bound: "length xs \<le> 65534 \<Longrightarrow> sum_list (be_words xs) < 2 ^ 31"
proof -
  assume l: "length xs \<le> 65534"
  have "sum_list (be_words xs) \<le> length (be_words xs) * 65535"
    by (rule sum_list_le) (rule be_words_bound)
  also have "\<dots> \<le> 32767 * 65535" using l by (simp add: length_be_words)
  finally show ?thesis by simp
qed

lemma unat_not_u16: "unat (NOT y :: u16) = 65535 - unat y"
proof -
  have b: "uint y < 65536" "0 \<le> uint y" using uint_bounded[of y] by simp_all
  then have c: "0 \<le> 65535 - uint y" "65535 - uint y < 65536" by linarith+
  have "uint (NOT y) = take_bit 16 (NOT (uint y))"
    using unsigned_not_eq[of y, where ?'a = int] by simp
  also have "\<dots> = (- uint y - 1) mod 2 ^ 16"
    by (simp only: not_eq_complement take_bit_eq_mod)
  also have "- uint y - 1 = (65535 - uint y) + (- 1) * 2 ^ 16" by simp
  also have "((65535 - uint y) + (- 1) * 2 ^ 16) mod 2 ^ 16 = (65535 - uint y) mod 2 ^ 16"
    by (rule mod_mult_self1)
  also have "\<dots> = 65535 - uint y"
    using mod_pos_pos_trivial[OF c] by simp
  finally have "uint (NOT y) = 65535 - uint y" .
  then show ?thesis by (metis nat_diff_distrib' nat_numeral uint_ge_0 unat_eq_nat_uint zero_le_numeral)
qed

lemma unat_complement:
  assumes "unat (x :: u32) \<le> 65535"
  shows "unat (ucast (NOT x) :: u16) = 65535 - unat x"
proof -
  have 1: "(ucast (NOT x) :: u16) = NOT (ucast x)"
    by (rule bit_word_eqI) (auto simp: bit_simps)
  have "unat (ucast x :: u16) = unat x"
    using assms by (simp add: unsigned_ucast_eq take_bit_eq_mod)
  then show ?thesis by (simp add: 1 unat_not_u16)
qed

text \<open>The loop and the fold together compute the complement of the one's-complement sum.\<close>

lemma cksum_even:
  assumes "even len" "len \<le> length buff" "len \<le> 65534"
  obtains c where "cksum buff len = Inr c"
    and "unat c = 65535 - oc_sum (sum_list (be_words (take len buff)))"
proof -
  let ?S = "sum_list (be_words (take len buff))"
  have "cksum_loop buff len 0 0 = Inr (of_nat ?S)"
    using cksum_loop_sum[of len 0 buff 0] assms by simp
  moreover have "unat (of_nat ?S :: u32) = ?S"
    using sum_be_words_bound[of "take len buff"] assms
    by (simp add: unsigned_of_nat take_bit_eq_mod)
  ultimately show ?thesis
    using that unat_complement[of "cksum_fold (of_nat ?S)"] oc_sum_le
    by (simp add: cksum_def unat_cksum_fold)
qed

lemma cksum_total:
  "even len \<Longrightarrow> len \<le> length buff \<Longrightarrow> len \<le> 65534 \<Longrightarrow> \<exists>c. cksum buff len = Inr c"
  by (metis cksum_even)

text \<open>Bytes after the length do not count.\<close>

lemma cksum_take:
  assumes "even len" "len \<le> length buff" "len \<le> 65534"
  shows "cksum (take len buff) len = cksum buff len"
proof -
  obtain c where c: "cksum buff len = Inr c"
    "unat c = 65535 - oc_sum (sum_list (be_words (take len buff)))"
    by (rule cksum_even[OF assms])
  have "len \<le> length (take len buff)" using assms(2) by simp
  then obtain d where d: "cksum (take len buff) len = Inr d"
    "unat d = 65535 - oc_sum (sum_list (be_words (take len (take len buff))))"
    using assms by (metis cksum_even)
  have "unat d = unat c" unfolding c(2) d(2) by simp
  with c(1) d(1) show ?thesis by (simp add: word_unat_eq_iff)
qed

text \<open>Adding the complement of a sum to the sum gives the all-ones representative.\<close>

lemma oc_sum_dvd: "65535 dvd m \<Longrightarrow> m \<noteq> 0 \<Longrightarrow> oc_sum m = 65535"
  by (auto simp: oc_sum_def)

lemma oc_sum_complement: "oc_sum (n + (65535 - oc_sum n)) = 65535"
proof (cases "n = 0")
  case False
  have m: "oc_sum n mod 65535 = n mod 65535" "oc_sum n \<le> n"
    using False by (auto simp: oc_sum_def mod_eq_0_iff_dvd intro: dvd_imp_le)
  then have "65535 dvd n - oc_sum n" using mod_eq_dvd_iff_nat[of "oc_sum n" n 65535] by metis
  moreover have "n + (65535 - oc_sum n) = (n - oc_sum n) + 65535"
    using m(2) oc_sum_le[of n] by simp
  ultimately have "65535 dvd n + (65535 - oc_sum n)" by simp
  moreover have "n + (65535 - oc_sum n) \<noteq> 0" using False by simp
  ultimately show ?thesis by (rule oc_sum_dvd)
qed (simp add: oc_sum_def)

lemma sum_be_words_update:
  assumes "even k" "k + 1 < length xs" "xs ! k = 0" "xs ! (k + 1) = 0"
  shows "sum_list (be_words (xs[k := hi, k + 1 := lo])) =
         sum_list (be_words xs) + (256 * unat hi + unat lo)"
  using assms
proof (induction xs arbitrary: k rule: be_words.induct)
  case (1 a b r)
  show ?case
  proof (cases k)
    case (Suc k')
    with 1 obtain j where "k = j + 2" by (cases k') auto
    with "1.IH"[of j] "1.prems" show ?thesis by simp
  qed (use 1 in simp)
qed auto

section \<open>The IP header update\<close>

text \<open>
  \<^verbatim>\<open>update_ip_hdr\<close> on the 20 bytes of \<^verbatim>\<open>struct ip\<close>: the time to live is byte 8, the
  checksum bytes 10 and 11; \<^verbatim>\<open>htons\<close> of the checksum stores its high byte first.
\<close>

definition put16 :: "nat \<Rightarrow> u16 \<Rightarrow> bytes \<Rightarrow> bytes" where
  "put16 k w bs = bs[k := ucast w, k + 1 := ucast (drop_bit 8 w)]"

definition update_ip_hdr :: "bytes \<Rightarrow> bytes result" where
  "update_ip_hdr hdr =
     (let hdr1 = hdr[8 := hdr ! 8 - 1];
          hdr2 = put16 10 0 hdr1
      in rbind (cksum hdr2 20) (\<lambda>c. Inr (put16 10 (htons c) hdr2)))"

lemma unat_halves:
  "256 * unat (ucast (drop_bit 8 c) :: u8) + unat (ucast c :: u8) = unat (c :: u16)"
proof -
  have "unat c < 2 ^ LENGTH(16)" by (rule unsigned_less)
  then have "unat c div 256 < 256" by simp
  then show ?thesis
    by (simp add: unsigned_ucast_eq take_bit_eq_mod drop_bit_eq_div unat_div)
qed

text \<open>The receiver's test: the checksum over a block with its checksum in place is 0.\<close>

lemma cksum_stored_zero:
  assumes "even len" "len \<le> length buff" "len \<le> 65534"
    and "even k" "k + 1 < len" "buff ! k = 0" "buff ! (k + 1) = 0"
    and c: "cksum buff len = Inr c"
  shows "cksum (put16 k (htons c) buff) len = Inr 0"
proof -
  let ?hi = "ucast (drop_bit 8 c) :: u8" and ?lo = "ucast c :: u8"
  let ?ws = "sum_list (be_words (take len buff))"
  obtain c' where "cksum buff len = Inr c'" and c': "unat c' = 65535 - oc_sum ?ws"
    using cksum_even assms(1-3) by metis
  with c have uc: "unat c = 65535 - oc_sum ?ws" by simp
  have hilo: "256 * unat ?hi + unat ?lo = 65535 - oc_sum ?ws"
    by (simp only: unat_halves uc)
  have put: "take len (put16 k (htons c) buff) = (take len buff)[k := ?hi, k + 1 := ?lo]"
    by (simp add: put16_def ntohs_def take_update_swap)
  obtain d where d: "cksum (put16 k (htons c) buff) len = Inr d"
    "unat d = 65535 - oc_sum (sum_list (be_words (take len (put16 k (htons c) buff))))"
    using cksum_even[of len "put16 k (htons c) buff"] assms(1-3) by (auto simp: put16_def)
  have "unat d = 0"
    unfolding d(2) put
    using sum_be_words_update[of k "take len buff" ?hi ?lo] assms
    by (simp add: hilo oc_sum_complement)
  with d(1) show ?thesis by (simp add: unat_eq_zero)
qed

text \<open>
  C29. On an even length within the buffer the code computes the Internet checksum: the
  complement of the one's-complement sum of the big-endian 16-bit words. The 32-bit
  accumulator does not overflow and the folding loop ends.
\<close>
theorem cksum_correct:
  assumes "even len" and "len \<le> length buff" and "len \<le> 65534"
  shows "\<exists>c. cksum buff len = Inr c \<and>
             unat c = 65535 - oc_sum (sum_list (be_words (take len buff)))"
  using cksum_even[OF assms] by metis

theorem cksum_correct_witness:
  "\<exists>c. cksum [0x45, 0x00, 0x00, 0x1C, 0xFF] 4 = Inr c \<and>
       unat c = 65535 - oc_sum (sum_list (be_words (take 4 [0x45, 0x00, 0x00, 0x1C, 0xFF])))"
  by (rule cksum_correct) simp_all

lemma cksum_loop_diverges:
  assumes "even i" "i \<le> 65534" "i \<le> len + 1"
  shows "cksum_loop buff len i acc = Inl Diverges \<longleftrightarrow> 65535 \<le> len \<and> 65536 \<le> length buff"
  using assms
proof (induction buff len i acc rule: cksum_loop.induct)
  case (1 buff len i acc)
  show ?case
  proof (cases "i < len \<and> i + 1 < length buff \<and> i + 2 < 65536")
    case True
    with "1.prems" have "i + 2 \<le> 65534" "i + 2 \<le> len + 1" "even (i + 2)" by presburger+
    with True "1.IH" show ?thesis by (subst cksum_loop.simps) simp
  next
    case False
    have "i + 2 < 65536 \<or> i = 65534" using "1.prems" by presburger
    with False "1.prems" show ?thesis by (subst cksum_loop.simps) auto
  qed
qed

text \<open>
  The length test of the summing loop: the loop runs for ever exactly when the length
  is 65535 or more and the buffer is long enough that no read leaves it first.
\<close>
theorem cksum_diverges_iff:
  "cksum buff len = Inl Diverges \<longleftrightarrow> 65535 \<le> len \<and> 65536 \<le> length buff"
proof -
  have "cksum buff len = Inl Diverges \<longleftrightarrow> cksum_loop buff len 0 0 = Inl Diverges"
    by (cases "cksum_loop buff len 0 0") (simp_all add: cksum_def)
  then show ?thesis using cksum_loop_diverges[of 0 len buff 0] by simp
qed

lemma cksum_loop_odd:
  assumes "odd len" "even i" "len \<le> 65533"
  shows "cksum_loop buff len i acc = cksum_loop buff (len + 1) i acc"
  using assms
proof (induction buff len i acc rule: cksum_loop.induct)
  case (1 buff len i acc)
  then have "i < len \<longleftrightarrow> i < len + 1" by presburger
  with 1 show ?case
    by (subst (1 2) cksum_loop.simps) auto
qed

lemma cksum_loop_odd_end:
  assumes "odd len" "even i" "i < len" "len \<le> 65533" "length buff = len"
  shows "cksum_loop buff len i acc = Inl Out_of_bounds"
  using assms
proof (induction buff len i acc rule: cksum_loop.induct)
  case (1 buff len i acc)
  show ?case
  proof (cases "i + 1 < length buff")
    case True
    with "1.prems" have "i + 2 < len" by presburger
    with True 1 show ?thesis by (subst cksum_loop.simps) simp
  next
    case False
    with "1.prems" show ?thesis by (subst cksum_loop.simps) simp
  qed
qed

text \<open>
  On an odd length the code reads one byte more than it was given: the result is the
  checksum of \<open>len + 1\<close> bytes where the buffer has that byte, and a read outside the
  buffer where it does not.
\<close>
theorem cksum_odd:
  assumes "odd len" and "len \<le> 65533"
  shows "cksum buff len = cksum buff (len + 1) \<and>
         (length buff = len \<longrightarrow> cksum buff len = Inl Out_of_bounds)"
proof -
  have "cksum_loop buff len 0 0 = cksum_loop buff (len + 1) 0 0"
    using cksum_loop_odd assms by simp
  then have "cksum buff len = cksum buff (len + 1)" by (simp add: cksum_def)
  moreover have "cksum buff len = Inl Out_of_bounds" if "length buff = len"
  proof -
    have "0 < len" using assms(1) by (cases len) auto
    with that assms have "cksum_loop buff len 0 0 = Inl Out_of_bounds"
      by (intro cksum_loop_odd_end) auto
    then show ?thesis by (simp add: cksum_def)
  qed
  ultimately show ?thesis by blast
qed

lemma update_ip_hdr_ok:
  assumes "length hdr = 20"
  shows "\<exists>h. update_ip_hdr hdr = Inr h \<and> length h = 20 \<and> h ! 8 = hdr ! 8 - 1 \<and>
             cksum h 20 = Inr 0 \<and> (\<forall>i. i \<notin> {8, 10, 11} \<longrightarrow> h ! i = hdr ! i)"
proof -
  define h2 where "h2 = put16 10 0 (hdr[8 := hdr ! 8 - 1])"
  have l2: "length h2 = 20" using assms by (simp add: h2_def put16_def)
  obtain c where c: "cksum h2 20 = Inr c" using cksum_even[of 20 h2] l2 by auto
  have "update_ip_hdr hdr = Inr (put16 10 (htons c) h2)"
    using c by (simp add: update_ip_hdr_def Let_def h2_def)
  moreover have "cksum (put16 10 (htons c) h2) 20 = Inr 0"
    using cksum_stored_zero[of 20 h2 10 c] c l2 assms by (simp add: h2_def put16_def)
  ultimately show ?thesis using assms l2 by (simp add: h2_def put16_def nth_list_update)
qed

text \<open>
  The header update of a forwarded datagram: it always succeeds on a 20-byte header,
  lowers the time to live by one (modulo 256), touches nothing else but the checksum, and
  the new header passes the receiver's checksum test.
\<close>
theorem update_ip_hdr_valid:
  assumes "length hdr = 20"
  shows "\<exists>h. update_ip_hdr hdr = Inr h \<and> length h = 20 \<and> h ! 8 = hdr ! 8 - 1 \<and>
             cksum h 20 = Inr 0 \<and> (\<forall>i. i \<notin> {8, 10, 11} \<longrightarrow> h ! i = hdr ! i)"
  by (rule update_ip_hdr_ok[OF assms])

definition sample_ip_hdr :: bytes where
  "sample_ip_hdr = [0x45, 0, 0, 0x54, 0, 0, 0x40, 0, 64, 1, 0, 0, 10, 0, 0, 1, 10, 0, 0, 2]"

theorem update_ip_hdr_valid_witness:
  "\<exists>h. update_ip_hdr sample_ip_hdr = Inr h \<and> length h = 20 \<and> h ! 8 = 63 \<and> cksum h 20 = Inr 0"
  using update_ip_hdr_valid[of sample_ip_hdr] by (auto simp: sample_ip_hdr_def)

end
