(* ===== verification/Buffers.thy ===== *)
theory Buffers
  imports Link Checksum
begin

text \<open>
  The packets that wait for an ARP reply: \<^verbatim>\<open>buffer.c\<close> (data packets and the ICMP errors sent
  when no reply comes) and \<^verbatim>\<open>lsu_buf.c\<close> (link state updates). A linked list is a HOL list in
  link order. A buffered packet lives in a block of exactly \<^verbatim>\<open>pack_len\<close> bytes.
\<close>

record packet_buffer =
  pb_packet :: bytes
  pb_len :: u16
  pb_old_eth :: bytes

record lsu_buf_ent =
  lsu_packet :: bytes
  lsu_len :: u16

section \<open>Adding\<close>

definition add_to_pack_buff ::
  "packet_buffer list \<Rightarrow> bytes \<Rightarrow> u16 \<Rightarrow> bytes \<Rightarrow> packet_buffer list result" where
  "add_to_pack_buff buff pac pack_len orig_eth =
     rbind (get_bytes 0 (unat pack_len) pac) (\<lambda>p.
     rbind (get_bytes 0 ETHER_HDR_LEN orig_eth) (\<lambda>e.
       Inr (buff @ [\<lparr>pb_packet = p, pb_len = pack_len, pb_old_eth = e\<rparr>])))"

definition add_to_lsu_buff ::
  "lsu_buf_ent list \<Rightarrow> bytes \<Rightarrow> u16 \<Rightarrow> lsu_buf_ent list result" where
  "add_to_lsu_buff buff pack pack_len =
     rbind (get_bytes 0 (unat pack_len) pack) (\<lambda>p.
       Inr (\<lparr>lsu_packet = p, lsu_len = pack_len\<rparr> # buff))"

section \<open>Sending and deleting\<close>

text \<open>
  Both send loops write the resolved MAC into the destination field of each packet, hand it to
  \<^verbatim>\<open>sr_send_packet\<close> and free the node; what they return is the frames handed over.
\<close>

definition send_to_mac :: "sr_if list \<Rightarrow> mac \<Rightarrow> string \<Rightarrow> bytes \<Rightarrow> u16 \<Rightarrow> frame list result" where
  "send_to_mac ifs mac iface pac len =
     rbind (put_bytes 0 (take ETHER_ADDR_LEN mac) pac) (\<lambda>p. sr_send_packet ifs p (unat len) iface)"

primrec send_all_packs :: "packet_buffer list \<Rightarrow> mac \<Rightarrow> string \<Rightarrow> sr_if list \<Rightarrow> frame list result" where
  "send_all_packs [] mac iface ifs = Inr []"
| "send_all_packs (b # buff) mac iface ifs =
     rbind (send_to_mac ifs mac iface (pb_packet b) (pb_len b)) (\<lambda>out.
     rbind (send_all_packs buff mac iface ifs) (\<lambda>rest. Inr (out @ rest)))"

primrec send_all_lsus :: "lsu_buf_ent list \<Rightarrow> mac \<Rightarrow> string \<Rightarrow> sr_if list \<Rightarrow> frame list result" where
  "send_all_lsus [] mac iface ifs = Inr []"
| "send_all_lsus (b # buff) mac iface ifs =
     rbind (send_to_mac ifs mac iface (lsu_packet b) (lsu_len b)) (\<lambda>out.
     rbind (send_all_lsus buff mac iface ifs) (\<lambda>rest. Inr (out @ rest)))"

text \<open>The interface with a MAC address. \<^verbatim>\<open>match\<close> is set to 1 once, before the walk.\<close>

primrec mac_walk :: "sr_if list \<Rightarrow> mac \<Rightarrow> bool \<Rightarrow> sr_if option" where
  "mac_walk [] mac matched = None"
| "mac_walk (w # ws) mac matched =
     (let matched' = matched \<and> take ETHER_ADDR_LEN (if_addr w) = take ETHER_ADDR_LEN mac
      in if matched' then Some w else mac_walk ws mac matched')"

definition get_if_from_mac :: "sr_if list \<Rightarrow> mac \<Rightarrow> sr_if option" where
  "get_if_from_mac ifs mac = mac_walk ifs mac True"

section \<open>The ICMP error\<close>

definition ICMPT_DESTUN :: u8 where "ICMPT_DESTUN = 3"
definition ICMPC_HOSTUN :: u8 where "ICMPC_HOSTUN = 1"
definition ICMP_DATA_RES :: nat where "ICMP_DATA_RES = 8"
definition INIT_TTL :: u8 where "INIT_TTL = 255"
definition IPPROTO_ICMP :: u8 where "IPPROTO_ICMP = 1"

lemmas icmp_consts = ICMPT_DESTUN_def ICMPC_HOSTUN_def ICMP_DATA_RES_def INIT_TTL_def IPPROTO_ICMP_def

text \<open>
  \<^verbatim>\<open>send_icmp\<close> fills a 70-byte block (\<open>blk\<close> is what \<^verbatim>\<open>malloc\<close> returned): Ethernet header at 0,
  IP header at 14, ICMP header at 34, data at 42. \<^verbatim>\<open>data_len\<close> is a 16-bit difference.
\<close>

definition icmp_data_len :: "u16 \<Rightarrow> nat" where
  "icmp_data_len old_len =
     (let data_len = old_len - of_nat (ETHER_HDR_LEN + IP_HDR_LEN)
      in if ICMP_DATA_RES \<le> unat data_len then IP_HDR_LEN + ICMP_DATA_RES
         else IP_HDR_LEN + unat data_len)"

definition icmp_message :: "bytes \<Rightarrow> bytes \<Rightarrow> u16 \<Rightarrow> bytes result" where
  "icmp_message blk packet old_len =
     rbind (put_bytes 34 [ICMPT_DESTUN, ICMPC_HOSTUN] blk) (\<lambda>p1.
     rbind (put_bytes 38 [0, 0, 0, 0] p1) (\<lambda>p2.
     rbind (get_bytes ETHER_HDR_LEN (icmp_data_len old_len) packet) (\<lambda>orig.
     rbind (put_bytes 42 orig p2) (\<lambda>p3.
     rbind (put_bytes 36 (store16 0) p3) (\<lambda>p4.
     rbind (cksum (drop 34 p4) (8 + icmp_data_len old_len)) (\<lambda>c.
       put_bytes 36 (store16 (htons c)) p4))))))"

definition icmp_ip_header :: "sr_if \<Rightarrow> bytes \<Rightarrow> nat \<Rightarrow> bytes \<Rightarrow> bytes result" where
  "icmp_ip_header iface packet len p =
     rbind (put_bytes 26 (store32 (if_ip iface)) p) (\<lambda>p1.
     rbind (get_bytes 26 4 packet) (\<lambda>src.
     rbind (put_bytes 30 src p1) (\<lambda>p2.
     rbind (put_bytes 24 (store16 0) p2) (\<lambda>p3.
     rbind (cksum (drop 14 p3) IP_HDR_LEN) (\<lambda>c.
       put_bytes 24 (store16 (htons c)) p3)))))"

definition send_icmp :: "sr_if list \<Rightarrow> bytes \<Rightarrow> bytes \<Rightarrow> u16 \<Rightarrow> bytes \<Rightarrow> frame list result" where
  "send_icmp ifs blk packet old_len old_eth =
     (let icmp_len = 8 + icmp_data_len old_len in
     rbind (icmp_message blk packet old_len) (\<lambda>p1.
     rbind (get_bytes ETHER_HDR_LEN IP_HDR_LEN packet) (\<lambda>old_ip.
     rbind (put_bytes 14 old_ip p1) (\<lambda>p2.
     rbind (put_bytes 16 (store16 (htons (of_nat (IP_HDR_LEN + icmp_len)))) p2) (\<lambda>p3.
     rbind (put_bytes 22 [INIT_TTL, IPPROTO_ICMP] p3) (\<lambda>p4.
     (case get_if_from_mac ifs (ether_dhost old_eth) of
        None \<Rightarrow> Inl Null_pointer
      | Some iface \<Rightarrow>
          rbind (icmp_ip_header iface packet icmp_len p4) (\<lambda>p5.
          rbind (put_bytes 0 (ether_shost old_eth) p5) (\<lambda>p6.
          rbind (put_bytes 6 (take ETHER_ADDR_LEN (if_addr iface)) p6) (\<lambda>p7.
          rbind (put_bytes 12 (store16 (htons 0x0800)) p7) (\<lambda>p8.
            sr_send_packet ifs p8 (icmp_len + ETHER_HDR_LEN + IP_HDR_LEN) (if_name iface))))))))))))"

primrec send_all_icmps :: "packet_buffer list \<Rightarrow> bytes \<Rightarrow> sr_if list \<Rightarrow> frame list result" where
  "send_all_icmps [] blk ifs = Inr []"
| "send_all_icmps (b # buff) blk ifs =
     rbind (send_icmp ifs blk (pb_packet b) (pb_len b) (pb_old_eth b)) (\<lambda>out.
     rbind (send_all_icmps buff blk ifs) (\<lambda>rest. Inr (out @ rest)))"

section \<open>The two queue disciplines\<close>

text \<open>
  What a buffer promises its client: an acceptable packet is always taken, and sending what
  was taken hands over the frames of every packet exactly once. The data buffer keeps the
  order of arrival, the LSU buffer reverses it.
\<close>

locale packet_queue =
  fixes enq :: "'q \<Rightarrow> 'p \<Rightarrow> 'q result" and drain :: "'q \<Rightarrow> frame list result"
    and empty :: 'q and ok :: "'p \<Rightarrow> bool" and sent :: "'p \<Rightarrow> frame list"
  assumes drain_empty: "drain empty = Inr []"
    and enq_ok: "ok p \<Longrightarrow> \<exists>q'. enq q p = Inr q'"

locale fifo = packet_queue +
  assumes drain_last: "ok p \<Longrightarrow> enq q p = Inr q' \<Longrightarrow> drain q = Inr fs \<Longrightarrow>
    drain q' = Inr (fs @ sent p)"
begin

lemma fill_from:
  assumes "\<forall>p \<in> set ps. ok p" and "drain q = Inr fs"
  shows "\<exists>q'. foldr_res (\<lambda>p q. enq q p) ps q = Inr q' \<and> drain q' = Inr (fs @ concat (map sent ps))"
  using assms
proof (induction ps arbitrary: q fs)
  case (Cons p ps)
  then obtain q' where q': "enq q p = Inr q'" using enq_ok by fastforce
  then have "drain q' = Inr (fs @ sent p)" using drain_last Cons.prems by fastforce
  from Cons.IH[OF _ this] Cons.prems q' show ?case by simp
qed simp

lemmas fill = fill_from[OF _ drain_empty, simplified]

end

locale lifo = packet_queue +
  assumes drain_first: "ok p \<Longrightarrow> enq q p = Inr q' \<Longrightarrow> drain q = Inr fs \<Longrightarrow>
    drain q' = Inr (sent p @ fs)"
begin

lemma fill_from:
  assumes "\<forall>p \<in> set ps. ok p" and "drain q = Inr fs"
  shows "\<exists>q'. foldr_res (\<lambda>p q. enq q p) ps q = Inr q' \<and>
              drain q' = Inr (concat (map sent (rev ps)) @ fs)"
  using assms
proof (induction ps arbitrary: q fs)
  case (Cons p ps)
  then obtain q' where q': "enq q p = Inr q'" using enq_ok by fastforce
  then have "drain q' = Inr (sent p @ fs)" using drain_first Cons.prems by fastforce
  from Cons.IH[OF _ this] Cons.prems q' show ?case by simp
qed simp

lemmas fill = fill_from[OF _ drain_empty, simplified]

end

text \<open>
  A packet both buffers accept: at least an Ethernet header long, and as long as its block
  says; and the frame it becomes.
\<close>

definition acceptable :: "bytes \<Rightarrow> u16 \<Rightarrow> bool" where
  "acceptable pac len \<longleftrightarrow> ETHER_HDR_LEN \<le> unat len \<and> unat len \<le> length pac"

definition addressed :: "sr_if list \<Rightarrow> mac \<Rightarrow> string \<Rightarrow> bytes \<Rightarrow> u16 \<Rightarrow> frame list" where
  "addressed ifs mac iface pac len =
     (let d = take ETHER_ADDR_LEN mac; f = d @ drop (length d) (take (unat len) pac)
      in if sr_ether_addrs_match_interface ifs f iface then [(iface, f)] else [])"

lemma send_to_mac_acceptable:
  "acceptable pac len \<Longrightarrow>
   send_to_mac ifs mac iface (take (unat len) pac) len = Inr (addressed ifs mac iface pac len)"
proof -
  assume a: "acceptable pac len"
  let ?d = "take ETHER_ADDR_LEN mac"
  have d: "length ?d \<le> 6" by (simp add: hdr_lens)
  then have "length ?d \<le> unat len" using a by (simp add: acceptable_def hdr_lens min_def)
  with a d show ?thesis
    by (auto simp: send_to_mac_def sr_send_packet_def addressed_def acceptable_def hdr_lens Let_def)
qed

lemma send_all_packs_append:
  "send_all_packs (xs @ ys) mac iface ifs =
   rbind (send_all_packs xs mac iface ifs) (\<lambda>a.
   rbind (send_all_packs ys mac iface ifs) (\<lambda>b. Inr (a @ b)))"
proof (induction xs)
  case Nil
  then show ?case by (cases "send_all_packs ys mac iface ifs") simp_all
next
  case (Cons x xs)
  then show ?case
    by (cases "send_to_mac ifs mac iface (pb_packet x) (pb_len x)";
        cases "send_all_packs xs mac iface ifs"; cases "send_all_packs ys mac iface ifs") simp_all
qed

interpretation packs: fifo "\<lambda>q (pac, len, eth). add_to_pack_buff q pac len eth"
    "\<lambda>q. send_all_packs q mac iface ifs" "[]"
    "\<lambda>(pac, len, eth). acceptable pac len \<and> ETHER_HDR_LEN \<le> length eth"
    "\<lambda>(pac, len, eth). addressed ifs mac iface pac len"
  for mac iface ifs
  by unfold_locales
    (auto simp: add_to_pack_buff_def acceptable_def send_all_packs_append rbind_eq_Inr
      get_bytes_eq_Inr send_to_mac_acceptable split: prod.splits)

interpretation lsus: lifo "\<lambda>q (pac, len). add_to_lsu_buff q pac len"
    "\<lambda>q. send_all_lsus q mac iface ifs" "[]"
    "\<lambda>(pac, len). acceptable pac len"
    "\<lambda>(pac, len). addressed ifs mac iface pac len"
  for mac iface ifs
  by unfold_locales
    (auto simp: add_to_lsu_buff_def acceptable_def rbind_eq_Inr
      get_bytes_eq_Inr send_to_mac_acceptable split: prod.splits)

text \<open>
  Buffered packets leave in their discipline's order. Packets that are put one after the
  other into an empty buffer are all accepted; when the address is known, the data buffer
  sends each once in the order of arrival, the LSU buffer in the reverse order, each with its
  destination replaced by the resolved MAC and nothing else changed.
\<close>
theorem buffers_order:
  assumes "\<forall>(pac, len, eth) \<in> set ps. acceptable pac len \<and> 14 \<le> length eth"
  shows "\<exists>q l. foldr_res (\<lambda>(pac, len, eth) q. add_to_pack_buff q pac len eth) ps [] = Inr q \<and>
           foldr_res (\<lambda>(pac, len, eth) l. add_to_lsu_buff l pac len) ps [] = Inr l \<and>
           send_all_packs q mac iface ifs =
             Inr (concat (map (\<lambda>(pac, len, eth). addressed ifs mac iface pac len) ps)) \<and>
           send_all_lsus l mac iface ifs =
             Inr (concat (map (\<lambda>(pac, len, eth). addressed ifs mac iface pac len) (rev ps)))"
proof -
  have "\<forall>p \<in> set (map (\<lambda>p. (fst p, fst (snd p))) ps). acceptable (fst p) (snd p)"
    using assms by (auto simp: split_beta)
  from lsus.fill[unfolded split_beta, OF this, of mac iface ifs]
    packs.fill[unfolded split_beta, of ps mac iface ifs] assms
  show ?thesis
    by (fastforce simp: case_prod_unfold hdr_lens foldr_res_map rev_map comp_def)
qed

theorem buffers_order_witness:
  "\<exists>q. foldr_res (\<lambda>(pac, len, eth) q. add_to_pack_buff q pac len eth)
         [(replicate 14 1, 14, replicate 14 2)] [] = Inr q"
  using buffers_order[of "[(replicate 14 1, 14, replicate 14 2)]" "[1, 2, 3, 4, 5, 6]" "''eth0''" "[]"]
  by (auto simp: acceptable_def hdr_lens)

section \<open>The ICMP error frame\<close>

lemma mac_walk_False [simp]: "mac_walk ifs mac False = None"
  by (induction ifs) simp_all

lemma get_if_from_mac_eq:
  "get_if_from_mac ifs mac =
     (case ifs of [] \<Rightarrow> None
      | w # ws \<Rightarrow> if take 6 (if_addr w) = take 6 mac then Some w else None)"
  by (cases ifs) (simp_all add: get_if_from_mac_def hdr_lens Let_def)

lemma icmp_message_ok:
  assumes "length blk = 70" "42 \<le> unat old_len" "unat old_len \<le> length packet"
  shows "icmp_data_len old_len = 28" and
    "\<exists>c. icmp_message blk packet old_len =
     Inr (take 34 blk @ [3, 1] @ store16 (htons c) @ [0, 0, 0, 0] @ take 28 (drop 14 packet))
     \<and> cksum ([3, 1] @ store16 (htons c) @ [0, 0, 0, 0] @ take 28 (drop 14 packet)) 36 = Inr 0"
proof -
  show d: "icmp_data_len old_len = 28"
    using assms unat_sub[of "34" old_len] by (simp add: icmp_data_len_def hdr_lens icmp_consts Let_def word_le_nat_alt)
  let ?m = "[3, 1, 0, 0, 0, 0, 0, 0] @ take 28 (drop 14 packet)"
  have "\<exists>c. cksum ?m 36 = Inr c" by (rule cksum_total) (use assms in simp_all)
  then obtain c where c: "cksum ?m 36 = Inr c" ..
  have z: "cksum (put16 2 (htons c) ?m) 36 = Inr 0"
    by (rule cksum_stored_zero[OF _ _ _ _ _ _ _ c]) (use assms in simp_all)
  show "\<exists>c. icmp_message blk packet old_len =
     Inr (take 34 blk @ [3, 1] @ store16 (htons c) @ [0, 0, 0, 0] @ take 28 (drop 14 packet))
     \<and> cksum ([3, 1] @ store16 (htons c) @ [0, 0, 0, 0] @ take 28 (drop 14 packet)) 36 = Inr 0"
    using assms c z
    by (intro exI[of _ c]) (simp add: icmp_message_def d hdr_lens icmp_consts store16_def put16_def)
qed

text \<open>The last 20 bytes of the argument's first 34 become a header with a valid checksum.\<close>

lemma icmp_ip_header_ok:
  assumes "length p = 70" "34 \<le> length packet"
  shows "\<exists>c. icmp_ip_header iface packet len p =
      Inr (take 24 p @ store16 (htons c) @ store32 (if_ip iface) @ take 4 (drop 26 packet) @ drop 34 p) \<and>
     cksum (take 10 (drop 14 p) @ store16 (htons c) @ store32 (if_ip iface) @ take 4 (drop 26 packet)) 20 =
       Inr 0"
proof -
  let ?m = "take 10 (drop 14 p) @ [0, 0] @ store32 (if_ip iface) @ take 4 (drop 26 packet) @ drop 34 p"
  have "\<exists>c. cksum ?m 20 = Inr c" by (rule cksum_total) (use assms in simp_all)
  then obtain c where c: "cksum ?m 20 = Inr c" ..
  have z: "cksum (put16 10 (htons c) ?m) 20 = Inr 0"
    by (rule cksum_stored_zero[OF _ _ _ _ _ _ _ c]) (use assms in \<open>simp_all add: nth_append\<close>)
  have "cksum (take 20 (put16 10 (htons c) ?m)) 20 = Inr 0"
    by (subst cksum_take) (use assms z in \<open>simp_all add: put16_def\<close>)
  with assms c show ?thesis
    by (intro exI[of _ c])
      (simp add: icmp_ip_header_def hdr_lens store16_def put16_def list_update_append drop_take)
qed


text \<open>
  The ICMP error for a packet that got no ARP reply. For a packet of at least 42 bytes that
  came in through the first interface of the list, \<^verbatim>\<open>send_icmp\<close> sends exactly one frame out
  of that interface, back to the sender's MAC: an IP packet from the interface's address to
  the packet's source, host unreachable, with the first 28 bytes behind the packet's Ethernet
  header as its data. Both checksums verify.
\<close>
theorem send_icmp_frame:
  assumes "length blk = 70" and "42 \<le> unat old_len" and "unat old_len \<le> length packet"
    and "length old_eth = 14" and "length (if_addr w) = 6"
    and "ether_dhost old_eth = if_addr w"
  shows "\<exists>s1 s2 h m.
     h = take 2 (drop 14 packet) @ [0, 56] @ take 4 (drop 18 packet) @ [255, 1] @ store16 s1 @
         store32 (if_ip w) @ take 4 (drop 26 packet) \<and>
     m = [3, 1] @ store16 s2 @ [0, 0, 0, 0] @ take 28 (drop 14 packet) \<and>
     cksum h 20 = Inr 0 \<and> cksum m 36 = Inr 0 \<and>
     send_icmp (w # ws) blk packet old_len old_eth =
       Inr [(if_name w, ether_shost old_eth @ if_addr w @ [8, 0] @ h @ m)]"
proof -
  from icmp_message_ok[OF assms(1-3)] obtain s2 where d: "icmp_data_len old_len = 28"
    and m: "icmp_message blk packet old_len =
     Inr (take 34 blk @ [3, 1] @ store16 (htons s2) @ [0, 0, 0, 0] @ take 28 (drop 14 packet))"
     "cksum ([3, 1] @ store16 (htons s2) @ [0, 0, 0, 0] @ take 28 (drop 14 packet)) 36 = Inr 0"
    by blast
  let ?m = "[3, 1] @ store16 (htons s2) @ [0, 0, 0, 0] @ take 28 (drop 14 packet)"
  let ?p = "take 14 blk @ take 2 (drop 14 packet) @ [0, 56] @ take 4 (drop 18 packet) @ [255, 1] @
    take 10 (drop 24 packet) @ ?m"
  have p: "length ?p = 70" "34 \<le> length packet" using assms by simp_all
  from icmp_ip_header_ok[OF p, of w 36] obtain s1 where h:
    "icmp_ip_header w packet 36 ?p = Inr (take 24 ?p @ store16 (htons s1) @ store32 (if_ip w) @
       take 4 (drop 26 packet) @ drop 34 ?p)"
    "cksum (take 10 (drop 14 ?p) @ store16 (htons s1) @ store32 (if_ip w) @ take 4 (drop 26 packet)) 20 = Inr 0"
    by blast
  have get: "get_if_from_mac (w # ws) (if_addr w) = Some w"
    using assms(5) by (simp add: get_if_from_mac_eq)
  have s: "store16 (htons (20 + word_of_nat 36)) = [0, 56]" "store16 (htons 0x0800) = [8, 0]" by code_simp+
  show ?thesis
    by (rule exI[of _ "htons s1"], rule exI[of _ "htons s2"],
        use assms h m(2) p s in \<open>simp add: send_icmp_def d m(1) get hdr_lens icmp_consts Let_def
          drop_take sr_send_packet_def sr_ether_addrs_match_interface_def ether_shost_def\<close>)
qed

theorem send_icmp_frame_witness:
  "\<exists>f. send_icmp [sample_if, sample_if1] (replicate 70 0)
         (if_addr sample_if @ replicate 36 7) 42 (if_addr sample_if @ replicate 8 7) =
       Inr [(''eth0'', f)]"
proof -
  have "length (if_addr sample_if) = 6" "if_name sample_if = ''eth0''" by (simp_all add: sample_if_def)
  then show ?thesis
    using send_icmp_frame[of "replicate 70 0" 42 "if_addr sample_if @ replicate 36 7"
      "if_addr sample_if @ replicate 8 7" sample_if "[sample_if1]"]
    by (auto simp: ether_dhost_def)
qed

text \<open>
  The same error for a packet that came in through any other interface: the walk of
  \<^verbatim>\<open>get_if_from_mac\<close> clears \<^verbatim>\<open>match\<close> at the first interface and never sets it again, so no
  later interface is found, and the null result is dereferenced.
\<close>
theorem send_icmp_crash:
  assumes "length blk = 70" and "42 \<le> unat old_len" and "unat old_len \<le> length packet"
    and "take 6 (if_addr w) \<noteq> ether_dhost old_eth"
  shows "get_if_from_mac (w # ws) (ether_dhost old_eth) = None \<and>
         send_icmp (w # ws) blk packet old_len old_eth = Inl Null_pointer"
proof -
  have get: "get_if_from_mac (w # ws) (ether_dhost old_eth) = None"
    using assms(4) by (simp add: get_if_from_mac_eq ether_dhost_def)
  from icmp_message_ok[OF assms(1-3)] obtain c where d: "icmp_data_len old_len = 28"
    and m: "icmp_message blk packet old_len =
     Inr (take 34 blk @ [3, 1] @ store16 (htons c) @ [0, 0, 0, 0] @ take 28 (drop 14 packet))"
    by blast
  show ?thesis
    using assms by (simp add: send_icmp_def d m get hdr_lens Let_def)
qed

end
