(* ===== verification/Hello.thy ===== *)
theory Hello
  imports Forwarding Buffers
begin

text \<open>
  The HELLO protocol, \<^verbatim>\<open>hello.c\<close>: neighbours that are not heard of for 20 seconds are dropped,
  a HELLO that fits its interface makes or refreshes a neighbour, and a HELLO goes out of every
  interface every 5 seconds. The subsystem's lock makes each operation atomic.
\<close>

section \<open>State and headers\<close>

record ospf =
  os_topo :: topo
  os_ftable :: "ftable_entry list"
  os_ifs :: "pwospf_if list"
  os_seq_sent :: u16
  os_area :: u32
  os_autype :: u16

definition OSPF_DEFAULT_HELLOINT :: time where "OSPF_DEFAULT_HELLOINT = 5"
definition OSPF_NEIGHBOR_TIMEOUT :: time where "OSPF_NEIGHBOR_TIMEOUT = 20"
definition OSPF_HDR_LEN :: nat where "OSPF_HDR_LEN = 24"
definition HELLO_HDR_LEN :: nat where "HELLO_HDR_LEN = 8"
definition OSPF_V2 :: u8 where "OSPF_V2 = 2"
definition OSPF_TYPE_HELLO :: u8 where "OSPF_TYPE_HELLO = 1"
definition OSPFV2_TYPE :: u8 where "OSPFV2_TYPE = 89"
definition OSPF_AllSPFRouters :: u32 where "OSPF_AllSPFRouters = 0xe0000005"
definition ETHERTYPE_IP :: u16 where "ETHERTYPE_IP = 0x0800"

lemmas hello_consts = OSPF_DEFAULT_HELLOINT_def OSPF_NEIGHBOR_TIMEOUT_def OSPF_HDR_LEN_def
  HELLO_HDR_LEN_def OSPF_V2_def OSPF_TYPE_HELLO_def OSPFV2_TYPE_def OSPF_AllSPFRouters_def
  ETHERTYPE_IP_def

text \<open>Reading a header field of a packet.\<close>

definition field8 :: "nat \<Rightarrow> bytes \<Rightarrow> u8 result" where
  "field8 k p = rbind (get_bytes k 1 p) (\<lambda>b. Inr (b ! 0))"

definition field16 :: "nat \<Rightarrow> bytes \<Rightarrow> u16 result" where
  "field16 k p = rbind (get_bytes k 2 p) (\<lambda>b. Inr (load16 (b ! 0) (b ! 1)))"

definition field32 :: "nat \<Rightarrow> bytes \<Rightarrow> u32 result" where
  "field32 k p = rbind (get_bytes k 4 p) (\<lambda>b. Inr (load32 (b ! 0) (b ! 1) (b ! 2) (b ! 3)))"

section \<open>Neighbours that time out\<close>

text \<open>After the initialisation period a lost neighbour takes its link out of the topology.\<close>

definition drop_neighbor :: "topo \<Rightarrow> u32 \<Rightarrow> topo result" where
  "drop_neighbor s deleted_rid =
     rbind (remove_rt_sn_using_id s (this_router s) deleted_rid) (\<lambda>s1.
     rbind (adj_list_contains s1 deleted_rid) (\<lambda>nbor.
       case nbor of
         None \<Rightarrow> Inr s1
       | Some n \<Rightarrow>
           rbind (deref s1 (this_router s1)) (\<lambda>me.
           rbind (remove_rt_sn_using_id s1 n (rid me)) (\<lambda>s2.
           rbind (remove_rt_adj_using_id s2 n (rid me)) (\<lambda>s3.
           rbind (deref s3 n) (\<lambda>nr. remove_rt_adj_using_id s3 (this_router s3) (rid nr)))))))"

text \<open>The loop over one interface's array; the last entry fills the place of a dropped one.\<close>

function expire_nbrs ::
  "time \<Rightarrow> nat \<Rightarrow> neighbor list \<Rightarrow> topo \<Rightarrow> (neighbor list \<times> topo) result" where
  "expire_nbrs now i ns s =
     (if i < length ns then
        (if nb_timenotvalid (ns ! i) < now then
           rbind (if init_time s < now then drop_neighbor s (nb_id (ns ! i)) else Inr s)
             (\<lambda>s'. expire_nbrs now i (swap_remove i ns) s')
         else expire_nbrs now (i + 1) ns s)
      else Inr (ns, s))"
  by pat_completeness auto
termination by (relation "measure (\<lambda>(now, i, ns, s). length ns - i)") auto

declare expire_nbrs.simps [simp del]

section \<open>Receiving\<close>

text \<open>
  The array of neighbours grows like those of the routers: \<^verbatim>\<open>realloc\<close> gets twice the element
  count in bytes, before it is known whether the neighbour is new. The loop that looks for the
  sender then reads every element.
\<close>

definition nbr_grow :: "pwospf_if \<Rightarrow> pwospf_if" where
  "nbr_grow w =
     (if pif_nbr_buf_size w \<le> length (pif_neighbors w)
      then w\<lparr>pif_nbr_bytes := 2 * pif_nbr_buf_size w, pif_nbr_buf_size := 2 * pif_nbr_buf_size w\<rparr> else w)"

definition heard :: "time \<Rightarrow> u32 \<Rightarrow> neighbor \<Rightarrow> neighbor" where
  "heard now src x =
     (if nb_ip x = src then x\<lparr>nb_timenotvalid := now + OSPF_NEIGHBOR_TIMEOUT\<rparr> else x)"

definition learn_nbr :: "time \<Rightarrow> u32 \<Rightarrow> u32 \<Rightarrow> bool \<Rightarrow> pwospf_if \<Rightarrow> (bool \<times> pwospf_if) result" where
  "learn_nbr now ident src found w =
     (let ns = pif_neighbors w; n = length ns;
          ns' = map (heard now src) ns;
          found' = (found \<or> list_ex (\<lambda>x. nb_ip x = src) ns)
      in if pif_nbr_bytes w < ptr_bytes * n then Inl Out_of_bounds
         else if found' then Inr (True, w\<lparr>pif_neighbors := ns'\<rparr>)
         else if ptr_bytes * (n + 1) \<le> pif_nbr_bytes w
         then Inr (False, w\<lparr>pif_neighbors := ns' @ [\<lparr>nb_id = ident, nb_ip = src,
                    nb_timenotvalid = now + OSPF_NEIGHBOR_TIMEOUT\<rparr>]\<rparr>)
         else Inl Out_of_bounds)"

text \<open>A subnet of this router made at start-up, with no router behind it, is given the sender.\<close>

definition claim_subnet :: "topo \<Rightarrow> u32 \<Rightarrow> u32 \<Rightarrow> u32 \<Rightarrow> topo result" where
  "claim_subnet s ident src nmask =
     rbind (deref s (this_router s)) (\<lambda>me.
       case router_contains_subnet me (src AND htonl nmask) of
         None \<Rightarrow> Inr s
       | Some j \<Rightarrow>
           if r_id (subnets me ! j) = 0 \<and> rmask (subnets me ! j) = ntohl nmask
           then set_sub_rid s (this_router s) j ident else Inr s)"

text \<open>
  The walk over the interfaces. \<open>p\<close> is the packet from its OSPF header on. A HELLO whose mask or
  interval is not the receiving interface's ends the walk.
\<close>

definition hello_matches :: "bytes \<Rightarrow> pwospf_if \<Rightarrow> bool result" where
  "hello_matches p w =
     rbind (field32 24 p) (\<lambda>nmask.
       if pif_mask w \<noteq> ntohl nmask then Inr False
       else rbind (field16 28 p) (\<lambda>h. Inr (pif_helloint w = ntohs h)))"

definition hello_on_if ::
  "bytes \<Rightarrow> u32 \<Rightarrow> time \<Rightarrow> bool \<Rightarrow> pwospf_if \<Rightarrow> topo \<Rightarrow> (bool \<times> pwospf_if \<times> topo) result" where
  "hello_on_if p src now found w s =
     rbind (rassert (0 < pif_nbr_buf_size w)) (\<lambda>_.
     rbind (field32 4 p) (\<lambda>ident.
     rbind (learn_nbr now ident src found (nbr_grow w)) (\<lambda>(found', w').
     rbind (field32 24 p) (\<lambda>nmask.
     rbind (claim_subnet s ident src nmask) (\<lambda>s'. Inr (found', w', s'))))))"

primrec hello_walk ::
  "bytes \<Rightarrow> string \<Rightarrow> u32 \<Rightarrow> time \<Rightarrow> pwospf_if list \<Rightarrow> bool \<Rightarrow> topo \<Rightarrow> (pwospf_if list \<times> topo) result" where
  "hello_walk p iface src now [] found s = Inr ([], s)"
| "hello_walk p iface src now (w # ws) found s =
     rbind (expire_nbrs now 0 (pif_neighbors w) s) (\<lambda>(ns, s1).
       let w1 = w\<lparr>pif_neighbors := ns\<rparr> in
       if pif_name w = iface then
         rbind (hello_matches p w1) (\<lambda>ok.
           if \<not> ok then Inr (w1 # ws, s1)
           else
             rbind (hello_on_if p src now found w1 s1) (\<lambda>(found', w2, s2).
             rbind (hello_walk p iface src now ws found' s2) (\<lambda>(ws', s3). Inr (w2 # ws', s3))))
       else rbind (hello_walk p iface src now ws found s1) (\<lambda>(ws', s2). Inr (w1 # ws', s2)))"

text \<open>\<open>len\<close> is \<^verbatim>\<open>ps->len\<close>, which still counts the IP header.\<close>

definition handle_HELLO :: "ospf \<Rightarrow> bytes \<Rightarrow> nat \<Rightarrow> string \<Rightarrow> u32 \<Rightarrow> time \<Rightarrow> ospf result" where
  "handle_HELLO os p len iface src now =
     (if len < OSPF_HDR_LEN + HELLO_HDR_LEN then Inr os
      else rbind (hello_walk p iface src now (os_ifs os) False (os_topo os)) (\<lambda>(ifs, s).
        Inr (os\<lparr>os_ifs := ifs, os_topo := s\<rparr>)))"

section \<open>Sending\<close>

text \<open>
  The headers, with the bit fields of \<^verbatim>\<open>struct ip\<close> in the order of the little-endian branch:
  the first byte is 0x54. A sum is filled in over a header in which it is zero.
\<close>

definition fill_sum :: "nat \<Rightarrow> nat \<Rightarrow> bytes \<Rightarrow> bytes result" where
  "fill_sum k len hdr = rbind (cksum hdr len) (\<lambda>c. put_bytes k (store16 (htons c)) hdr)"

definition ip_header :: "nat \<Rightarrow> u32 \<Rightarrow> u32 \<Rightarrow> bytes" where
  "ip_header len src dst =
     [0x54, 0] @ store16 (htons (of_nat len)) @ [0, 0, 0, 0, INIT_TTL, OSPFV2_TYPE, 0, 0] @
     store32 src @ store32 dst"

definition ospf_header :: "u8 \<Rightarrow> nat \<Rightarrow> u32 \<Rightarrow> u32 \<Rightarrow> bytes" where
  "ospf_header type len ident area =
     [OSPF_V2, type] @ store16 (htons (of_nat len)) @ store32 ident @ store32 (htonl area) @
     replicate 12 0"

definition hello_packet :: "ospf \<Rightarrow> u32 \<Rightarrow> pwospf_if \<Rightarrow> bytes result" where
  "hello_packet os ident w =
     (let hello = store32 (htonl (pif_mask w)) @ store16 (htons (of_int OSPF_DEFAULT_HELLOINT)) @ [0, 0]
      in rbind (fill_sum 12 16 (ospf_header OSPF_TYPE_HELLO (OSPF_HDR_LEN + HELLO_HDR_LEN) ident (os_area os))) (\<lambda>oh.
         rbind (fill_sum 10 IP_HDR_LEN (ip_header 52 (pif_address w) (htonl OSPF_AllSPFRouters))) (\<lambda>ih.
           Inr (replicate ETHER_ADDR_LEN 0xFF @ take ETHER_ADDR_LEN (pif_mac w) @ store16 (htons ETHERTYPE_IP) @
                ih @ oh @ hello))))"

primrec hello_out :: "sr_if list \<Rightarrow> ospf \<Rightarrow> u32 \<Rightarrow> pwospf_if list \<Rightarrow> frame list result" where
  "hello_out ifs os ident [] = Inr []"
| "hello_out ifs os ident (w # ws) =
     rbind (hello_packet os ident w) (\<lambda>f.
     rbind (sr_send_packet ifs f 66 (pif_name w)) (\<lambda>out.
     rbind (hello_out ifs os ident ws) (\<lambda>rest. Inr (out @ rest))))"

definition send_HELLO :: "sr_if list \<Rightarrow> ospf \<Rightarrow> frame list result" where
  "send_HELLO ifs os =
     rbind (deref (os_topo os) (this_router (os_topo os))) (\<lambda>me.
     rbind (rassert (os_ifs os \<noteq> [])) (\<lambda>_. hello_out ifs os (rid me) (os_ifs os)))"

section \<open>Header fields\<close>

lemma get_bytes_at:
  assumes "drop k p = xs @ r" "n = length xs" "xs \<noteq> []"
  shows "get_bytes k n p = Inr xs"
proof -
  have "length p - k = length xs + length r" using arg_cong[OF assms(1), of length] by simp
  moreover have "0 < length xs" using assms(3) by simp
  ultimately have "k + n \<le> length p" using assms(2) by linarith
  then show ?thesis using assms by simp
qed

lemma load_store_nth:
  "load16 (store16 x ! 0) (store16 x ! 1) = x"
  "load32 (store32 y ! 0) (store32 y ! 1) (store32 y ! 2) (store32 y ! 3) = y"
  by (simp_all add: store16_def store32_def)

lemma store_ne [simp]: "store16 x \<noteq> []" "store32 y \<noteq> []"
  by (simp_all add: store16_def store32_def)

lemma field32_at: "drop k p = store32 x @ r \<Longrightarrow> field32 k p = Inr x"
  using get_bytes_at[of k p "store32 x" r 4] by (simp add: field32_def load_store_nth[simplified])

lemma field16_at: "drop k p = store16 x @ r \<Longrightarrow> field16 k p = Inr x"
  using get_bytes_at[of k p "store16 x" r 2] by (simp add: field16_def load_store_nth[simplified])

lemma field8_at: "drop k p = x # r \<Longrightarrow> field8 k p = Inr x"
  using get_bytes_at[of k p "[x]" r 1] by (simp add: field8_def)

section \<open>The neighbour lists\<close>

definition wf_pif :: "pwospf_if \<Rightarrow> bool" where
  "wf_pif w \<longleftrightarrow> length (pif_neighbors w) \<le> 5 \<and> pif_nbr_buf_size w = 5 \<and> pif_nbr_bytes w = 40"

lemma drop_neighbor_ok:
  assumes wf: "wf_topo s"
  shows "\<exists>s'. drop_neighbor s ident = Inr s' \<and> evolves s s'"
proof -
  have me: "this_router s \<in> set (network s)" by (rule wf_topoD(5)[OF wf])
  obtain s1 where s1: "remove_rt_sn_using_id s (this_router s) ident = Inr s1" "trims s s1"
    by (rule trims_remove_sn[OF wf me])
  have nh: "this_router t = this_router s" "this_router s \<in> set (network t)" "wf_topo t"
      "set (network s) \<subseteq> set (network t)" if "trims s t" for t
    using that me by (auto simp: trims_def evolves_def)
  show ?thesis
  proof (cases "find (\<lambda>a. rid (rt s1 a) = ident) (network s1)")
    case None
    with s1 nh[OF s1(2)] show ?thesis by (simp add: drop_neighbor_def adj_list_contains_wf trims_def)
  next
    case (Some n)
    then have n1: "n \<in> set (network s1)" by (auto dest: find_SomeD)
    have n: "n \<in> set (network t)" if "trims s1 t" for t using that n1 by (auto simp: trims_def evolves_def)
    obtain s2 where s2: "remove_rt_sn_using_id s1 n (rid (rt s1 (this_router s))) = Inr s2" "trims s1 s2"
      using nh[OF s1(2)] n1 by (metis trims_remove_sn)
    have t2: "trims s s2" using trims_trans s1(2) s2(2) by blast
    obtain s3 where s3: "remove_rt_adj_using_id s2 n (rid (rt s1 (this_router s))) = Inr s3" "trims s2 s3"
      using nh[OF t2] n[OF s2(2)] by (metis trims_remove_adj)
    have t3: "trims s s3" using trims_trans t2 s3(2) by blast
    have n3: "n \<in> set (network s3)" using n[OF trims_trans[OF s2(2) s3(2)]] .
    obtain s4 where s4: "remove_rt_adj_using_id s3 (this_router s) (rid (rt s3 n)) = Inr s4" "trims s3 s4"
      using nh[OF t3] by (metis trims_remove_adj)
    have "drop_neighbor s ident = Inr s4"
      using Some s1 s2 s3 s4 nh[OF s1(2)] nh[OF t3] n3
      by (simp add: drop_neighbor_def adj_list_contains_wf)
    with trims_trans[OF t3 s4(2)] show ?thesis by (auto simp: trims_def)
  qed
qed

text \<open>Exactly the neighbours that have not timed out stay.\<close>

abbreviation fresh :: "time \<Rightarrow> neighbor \<Rightarrow> bool" where
  "fresh now n \<equiv> now \<le> nb_timenotvalid n"

lemma swap_remove_nth: "j < i \<Longrightarrow> i < length xs \<Longrightarrow> swap_remove i xs ! j = xs ! j"
  by (simp add: swap_remove_def nth_butlast)

lemma expire_nbrs_ok:
  assumes "wf_topo s" "i \<le> length ns" "\<forall>j<i. fresh now (ns ! j)"
  shows "\<exists>ns' s'. expire_nbrs now i ns s = Inr (ns', s') \<and> evolves s s' \<and>
     mset ns' = filter_mset (fresh now) (mset ns)"
  using assms
proof (induction now i ns s rule: expire_nbrs.induct)
  case (1 now i ns s)
  show ?case
  proof (cases "i < length ns")
    case False
    then have "\<forall>x \<in> set ns. fresh now x" using 1(4,5) by (auto simp: in_set_conv_nth)
    then have "filter_mset (fresh now) (mset ns) = mset ns" by (simp add: filter_mset_eq_conv)
    then show ?thesis using False 1(3) by (subst expire_nbrs.simps) (simp add: evolves_refl)
  next
    case i: True
    show ?thesis
    proof (cases "nb_timenotvalid (ns ! i) < now")
      case False
      have "\<forall>j < i + 1. fresh now (ns ! j)" using False 1(5) by (auto simp: less_Suc_eq)
      with 1(2)[OF i False 1(3)] i False show ?thesis by (subst expire_nbrs.simps) auto
    next
      case True
      obtain s1 where s1: "(if init_time s < now then drop_neighbor s (nb_id (ns ! i)) else Inr s) = Inr s1"
          "evolves s s1"
        using drop_neighbor_ok[OF 1(3)] evolves_refl[OF 1(3)] by (metis (full_types))
      have "mset (swap_remove i ns) = mset ns - {#ns ! i#}" by (rule swap_remove_mset[OF i])
      then have m: "filter_mset (fresh now) (mset (swap_remove i ns)) = filter_mset (fresh now) (mset ns)"
        using True i by (simp add: filter_diff_mset)
      have "\<forall>j<i. fresh now (swap_remove i ns ! j)" using 1(5) i by (simp add: swap_remove_nth)
      moreover have "i \<le> length (swap_remove i ns)" using i by simp
      ultimately show ?thesis
        using 1(1)[OF i True, of s1] s1 i m True evolvesD(1)[OF s1(2)]
        by (subst expire_nbrs.simps) (auto intro: evolves_trans)
    qed
  qed
qed

lemma claim_subnet_ok:
  assumes "wf_topo s"
  shows "\<exists>s'. claim_subnet s ident src nmask = Inr s' \<and> evolves s s'"
proof -
  have me: "this_router s \<in> set (network s)" by (rule wf_topoD(5)[OF assms])
  have "set_sub_rid s (this_router s) j ident = Inr t \<Longrightarrow> evolves s t" for j t
    using safe_set_sub_rid[OF assms me, of j ident] by simp
  moreover have "\<exists>t. set_sub_rid s (this_router s) j ident = Inr t" for j
    using assms me by (simp add: set_sub_rid_def)
  ultimately show ?thesis
    using assms me evolves_refl[OF assms] by (fastforce simp: claim_subnet_def split: option.split)
qed

text \<open>What a HELLO from \<open>src\<close> leaves in the array of its interface.\<close>

definition learnt :: "time \<Rightarrow> u32 \<Rightarrow> u32 \<Rightarrow> neighbor list \<Rightarrow> neighbor list \<Rightarrow> bool" where
  "learnt now ident src ns ns' \<longleftrightarrow>
     {n \<in> set ns'. nb_ip n \<noteq> src} = {n \<in> set ns. fresh now n \<and> nb_ip n \<noteq> src} \<and>
     (\<exists>n \<in> set ns'. nb_ip n = src) \<and>
     (\<forall>n \<in> set ns'. nb_ip n = src \<longrightarrow> nb_timenotvalid n = now + 20 \<and>
        ((\<exists>m \<in> set ns. fresh now m \<and> nb_ip m = src \<and> nb_id m = nb_id n) \<or> nb_id n = ident))"

lemma heard_simps [simp]:
  "nb_ip (heard now src x) = nb_ip x" "nb_id (heard now src x) = nb_id x"
  "nb_ip x = src \<Longrightarrow> nb_timenotvalid (heard now src x) = now + 20"
  "nb_ip x \<noteq> src \<Longrightarrow> heard now src x = x"
  by (simp_all add: heard_def OSPF_NEIGHBOR_TIMEOUT_def)

lemma learnt_heard:
  assumes ns: "set vs = {n \<in> set ns. fresh now n}" and x: "x \<in> set vs" "nb_ip x = src"
  shows "learnt now ident src ns (map (heard now src) vs)"
  unfolding learnt_def
proof (intro conjI)
  have "{n \<in> heard now src ` set vs. nb_ip n \<noteq> src} = {n \<in> set vs. nb_ip n \<noteq> src}"
    by (auto intro: rev_image_eqI)
  then show "{n \<in> set (map (heard now src) vs). nb_ip n \<noteq> src} = {n \<in> set ns. fresh now n \<and> nb_ip n \<noteq> src}"
    using ns by auto
  show "\<exists>n \<in> set (map (heard now src) vs). nb_ip n = src" using x by auto
  show "\<forall>n \<in> set (map (heard now src) vs). nb_ip n = src \<longrightarrow> nb_timenotvalid n = now + 20 \<and>
      ((\<exists>m \<in> set ns. fresh now m \<and> nb_ip m = src \<and> nb_id m = nb_id n) \<or> nb_id n = ident)"
    using ns by auto
qed

lemma learnt_new:
  assumes ns: "set vs = {n \<in> set ns. fresh now n}" and no: "\<forall>x \<in> set vs. nb_ip x \<noteq> src"
  shows "learnt now ident src ns (vs @ [\<lparr>nb_id = ident, nb_ip = src, nb_timenotvalid = now + 20\<rparr>])"
  unfolding learnt_def
proof (intro conjI)
  have "{n \<in> set (vs @ [\<lparr>nb_id = ident, nb_ip = src, nb_timenotvalid = now + 20\<rparr>]). nb_ip n \<noteq> src} = set vs"
    using no by auto
  moreover have "{n \<in> set ns. fresh now n \<and> nb_ip n \<noteq> src} = set vs" using ns no by auto
  ultimately show "{n \<in> set (vs @ [\<lparr>nb_id = ident, nb_ip = src, nb_timenotvalid = now + 20\<rparr>]). nb_ip n \<noteq> src} =
      {n \<in> set ns. fresh now n \<and> nb_ip n \<noteq> src}" by simp
qed (use no in auto)

definition same_if :: "pwospf_if \<Rightarrow> pwospf_if \<Rightarrow> bool" where
  "same_if w w' \<longleftrightarrow> w' = w\<lparr>pif_neighbors := pif_neighbors w'\<rparr>"

lemma same_if_update [simp]: "same_if w (w\<lparr>pif_neighbors := ns\<rparr>)"
  by (simp add: same_if_def)

lemma same_if_shift [simp]: "same_if (w\<lparr>pif_neighbors := ns\<rparr>) w' = same_if w w'"
  by (simp add: same_if_def)

lemma same_if_refl: "same_if w w"
  by (simp add: same_if_def)

lemma same_if_trans:
  assumes "same_if u v" "same_if v w"
  shows "same_if u w"
proof -
  obtain ns where "v = u\<lparr>pif_neighbors := ns\<rparr>" using assms(1) unfolding same_if_def by blast
  with assms(2) show ?thesis by simp
qed

lemma same_ifD:
  assumes "same_if w w'"
  shows "pif_name w' = pif_name w" "pif_address w' = pif_address w" "pif_mask w' = pif_mask w"
    "pif_nbr_buf_size w' = pif_nbr_buf_size w" "pif_nbr_bytes w' = pif_nbr_bytes w"
proof -
  obtain ns where "w' = w\<lparr>pif_neighbors := ns\<rparr>" using assms unfolding same_if_def by blast
  then show "pif_name w' = pif_name w" "pif_address w' = pif_address w" "pif_mask w' = pif_mask w"
    "pif_nbr_buf_size w' = pif_nbr_buf_size w" "pif_nbr_bytes w' = pif_nbr_bytes w" by simp_all
qed

lemma learn_nbr_ok:
  assumes "wf_pif w" "length (pif_neighbors w) < 5"
  shows "\<exists>b w'. learn_nbr now ident src False (nbr_grow w) = Inr (b, w') \<and> wf_pif w' \<and>
     same_if w w' \<and>
     (\<forall>ns. set (pif_neighbors w) = {n \<in> set ns. fresh now n} \<longrightarrow> learnt now ident src ns (pif_neighbors w'))"
proof -
  have g: "nbr_grow w = w" using assms by (simp add: nbr_grow_def wf_pif_def)
  let ?vs = "pif_neighbors w"
  show ?thesis
  proof (cases "list_ex (\<lambda>x. nb_ip x = src) ?vs")
    case True
    then obtain x where x: "x \<in> set ?vs" "nb_ip x = src" by (auto simp: list_ex_iff)
    have "learn_nbr now ident src False (nbr_grow w) =
        Inr (True, w\<lparr>pif_neighbors := map (heard now src) ?vs\<rparr>)"
      using True assms by (simp add: g learn_nbr_def wf_pif_def ptr_bytes_def Let_def)
    moreover have "wf_pif (w\<lparr>pif_neighbors := map (heard now src) ?vs\<rparr>)" using assms by (simp add: wf_pif_def)
    ultimately show ?thesis using learnt_heard[OF _ x] by auto
  next
    case False
    then have no: "\<forall>x \<in> set ?vs. nb_ip x \<noteq> src" by (simp add: list_ex_iff)
    then have m: "map (heard now src) ?vs = ?vs" by (simp add: map_idI)
    let ?new = "\<lparr>nb_id = ident, nb_ip = src, nb_timenotvalid = now + 20\<rparr>"
    have "learn_nbr now ident src False (nbr_grow w) = Inr (False, w\<lparr>pif_neighbors := ?vs @ [?new]\<rparr>)"
      using False assms by (simp add: g m learn_nbr_def wf_pif_def ptr_bytes_def OSPF_NEIGHBOR_TIMEOUT_def Let_def)
    moreover have "wf_pif (w\<lparr>pif_neighbors := ?vs @ [?new]\<rparr>)" using assms by (simp add: wf_pif_def)
    ultimately show ?thesis using learnt_new[OF _ no] by auto
  qed
qed

lemma learn_nbr_full:
  "wf_pif w \<Longrightarrow> length (pif_neighbors w) = 5 \<Longrightarrow> learn_nbr now ident src found (nbr_grow w) = Inl Out_of_bounds"
  by (simp add: learn_nbr_def nbr_grow_def wf_pif_def ptr_bytes_def Let_def)

text \<open>An interface other than the receiving one only loses what has timed out.\<close>

definition pruned :: "time \<Rightarrow> pwospf_if \<Rightarrow> pwospf_if \<Rightarrow> bool" where
  "pruned now w w' \<longleftrightarrow> same_if w w' \<and>
     mset (pif_neighbors w') = filter_mset (fresh now) (mset (pif_neighbors w))"

lemma prunedD:
  assumes "pruned now w w'"
  shows "pif_name w' = pif_name w" "set (pif_neighbors w') = {n \<in> set (pif_neighbors w). fresh now n}"
    "length (pif_neighbors w') = length (filter (fresh now) (pif_neighbors w))"
    "length (pif_neighbors w') \<le> length (pif_neighbors w)" "wf_pif w \<Longrightarrow> wf_pif w'"
proof -
  have w': "same_if w w'" and
    m: "mset (pif_neighbors w') = filter_mset (fresh now) (mset (pif_neighbors w))"
    using assms by (simp_all add: pruned_def)
  show "pif_name w' = pif_name w" by (rule same_ifD(1)[OF w'])
  show "set (pif_neighbors w') = {n \<in> set (pif_neighbors w). fresh now n}"
    using arg_cong[OF m, of set_mset] by simp
  have "mset (pif_neighbors w') = mset (filter (fresh now) (pif_neighbors w))" using m by simp
  then show l: "length (pif_neighbors w') = length (filter (fresh now) (pif_neighbors w))"
    by (rule mset_eq_length)
  then show le: "length (pif_neighbors w') \<le> length (pif_neighbors w)" by simp
  show "wf_pif w'" if "wf_pif w" using that le same_ifD(4,5)[OF w'] by (simp add: wf_pif_def)
qed

lemma hello_walk_other:
  assumes "wf_topo s" "iface \<notin> pif_name ` set ws"
  shows "\<exists>ws' s'. hello_walk p iface src now ws found s = Inr (ws', s') \<and> evolves s s' \<and>
     list_all2 (pruned now) ws ws'"
  using assms
proof (induction ws arbitrary: s)
  case (Cons w ws)
  obtain ns s1 where 1: "expire_nbrs now 0 (pif_neighbors w) s = Inr (ns, s1)" "evolves s s1"
      "mset ns = filter_mset (fresh now) (mset (pif_neighbors w))"
    using expire_nbrs_ok[OF Cons.prems(1), of 0 "pif_neighbors w" now] by auto
  then have "pruned now w (w\<lparr>pif_neighbors := ns\<rparr>)" by (simp add: pruned_def)
  moreover obtain ws' s2 where "hello_walk p iface src now ws found s1 = Inr (ws', s2)" "evolves s1 s2"
      "list_all2 (pruned now) ws ws'"
    using Cons.IH[OF evolvesD(1)[OF 1(2)]] Cons.prems(2) by auto
  moreover have "pif_name w \<noteq> iface" using Cons.prems(2) by auto
  ultimately show ?case using 1 by (auto intro: evolves_trans)
qed (simp add: evolves_refl)

lemma hello_walk_append:
  assumes "wf_topo s" "iface \<notin> pif_name ` set us"
  shows "\<exists>us' s'. hello_walk p iface src now (us @ vs) found s =
       rbind (hello_walk p iface src now vs found s') (\<lambda>(vs', s''). Inr (us' @ vs', s'')) \<and>
     evolves s s' \<and> list_all2 (pruned now) us us'"
  using assms
proof (induction us arbitrary: s)
  case Nil
  have "rbind r (\<lambda>(vs', s''). Inr (vs', s'')) = r" for r :: "(pwospf_if list \<times> topo) result"
    by (cases r) auto
  then show ?case using Nil by (auto intro: evolves_refl)
next
  case (Cons w us)
  obtain ns s1 where 1: "expire_nbrs now 0 (pif_neighbors w) s = Inr (ns, s1)" "evolves s s1"
      "mset ns = filter_mset (fresh now) (mset (pif_neighbors w))"
    using expire_nbrs_ok[OF Cons.prems(1), of 0 "pif_neighbors w" now] by auto
  then have "pruned now w (w\<lparr>pif_neighbors := ns\<rparr>)" by (simp add: pruned_def)
  moreover obtain us' s2 where 2: "hello_walk p iface src now (us @ vs) found s1 =
       rbind (hello_walk p iface src now vs found s2) (\<lambda>(vs', s''). Inr (us' @ vs', s''))" "evolves s1 s2"
      "list_all2 (pruned now) us us'"
    using Cons.IH[OF evolvesD(1)[OF 1(2)]] Cons.prems(2) by auto
  moreover have "pif_name w \<noteq> iface" using Cons.prems(2) by auto
  ultimately have "hello_walk p iface src now ((w # us) @ vs) found s =
       rbind (hello_walk p iface src now vs found s2)
         (\<lambda>(vs', s''). Inr ((w\<lparr>pif_neighbors := ns\<rparr> # us') @ vs', s''))"
    using 1(1) by (cases "hello_walk p iface src now vs found s2") auto
  with 1(2) 2(2,3) \<open>pruned now w _\<close> show ?case
    by (intro exI[of _ "w\<lparr>pif_neighbors := ns\<rparr> # us'"] exI[of _ s2]) (auto intro: evolves_trans)
qed

text \<open>
  The interfaces after a HELLO that fits its interface: that one has the sender, and every
  interface has lost what had timed out.
\<close>

lemma claim_hello_on_if:
  assumes wf: "wf_topo s" and w: "wf_pif w" "length (pif_neighbors w) < 5"
    and p: "field32 4 p = Inr ident" "field32 24 p = Inr nmask"
  shows "\<exists>b w' s'. hello_on_if p src now False w s = Inr (b, w', s') \<and> evolves s s' \<and> wf_pif w' \<and>
     same_if w w' \<and>
     (\<forall>ns. set (pif_neighbors w) = {n \<in> set ns. fresh now n} \<longrightarrow> learnt now ident src ns (pif_neighbors w'))"
proof -
  obtain b w' where l: "learn_nbr now ident src False (nbr_grow w) = Inr (b, w')" "wf_pif w'"
     "same_if w w'"
     "\<forall>ns. set (pif_neighbors w) = {n \<in> set ns. fresh now n} \<longrightarrow> learnt now ident src ns (pif_neighbors w')"
    using learn_nbr_ok[OF w] by blast
  obtain s' where "claim_subnet s ident src nmask = Inr s'" "evolves s s'"
    using claim_subnet_ok[OF wf] by blast
  then have "hello_on_if p src now False w s = Inr (b, w', s') \<and> evolves s s'"
    using l(1) p w(1) by (simp add: hello_on_if_def wf_pif_def)
  with l(2-4) show ?thesis by blast
qed

lemma handle_HELLO_learns:
  assumes wf: "wf_topo (os_topo os)" and ifs: "os_ifs os = us @ w # vs"
    and names: "iface \<notin> pif_name ` set us" "pif_name w = iface" "iface \<notin> pif_name ` set vs"
    and w: "wf_pif w" "length (filter (fresh now) (pif_neighbors w)) < 5"
    and p: "32 \<le> len" "field32 4 p = Inr ident" "field32 24 p = Inr nmask" "hello_matches p w = Inr True"
  shows "\<exists>us' w' vs' s'. handle_HELLO os p len iface src now = Inr (os\<lparr>os_ifs := us' @ w' # vs', os_topo := s'\<rparr>) \<and>
     evolves (os_topo os) s' \<and> list_all2 (pruned now) us us' \<and> list_all2 (pruned now) vs vs' \<and>
     same_if w w' \<and> wf_pif w' \<and>
     learnt now ident src (pif_neighbors w) (pif_neighbors w')"
proof -
  obtain us' s1 where 1: "hello_walk p iface src now (us @ w # vs) False (os_topo os) =
       rbind (hello_walk p iface src now (w # vs) False s1) (\<lambda>(vs', s''). Inr (us' @ vs', s''))"
     "evolves (os_topo os) s1" "list_all2 (pruned now) us us'"
    using hello_walk_append[OF wf names(1)] by blast
  note wf1 = evolvesD(1)[OF 1(2)]
  obtain ns s2 where 2: "expire_nbrs now 0 (pif_neighbors w) s1 = Inr (ns, s2)" "evolves s1 s2"
      "mset ns = filter_mset (fresh now) (mset (pif_neighbors w))"
    using expire_nbrs_ok[OF wf1, of 0 "pif_neighbors w" now] by auto
  have pr: "pruned now w (w\<lparr>pif_neighbors := ns\<rparr>)" using 2(3) by (simp add: pruned_def)
  note D = prunedD[OF pr]
  have m: "hello_matches p (w\<lparr>pif_neighbors := ns\<rparr>) = Inr True" using p(4) by (simp add: hello_matches_def cong: if_cong)
  obtain b w' s3 where 3: "hello_on_if p src now False (w\<lparr>pif_neighbors := ns\<rparr>) s2 = Inr (b, w', s3)"
      "evolves s2 s3" "wf_pif w'" "same_if w w'"
      "learnt now ident src (pif_neighbors w) (pif_neighbors w')"
    using claim_hello_on_if[OF evolvesD(1)[OF 2(2)] D(5)[OF w(1)] _ p(2,3), of src now] D(2,3) w(2) by auto
  obtain vs' s4 where 4: "hello_walk p iface src now vs b s3 = Inr (vs', s4)" "evolves s3 s4"
      "list_all2 (pruned now) vs vs'"
    using hello_walk_other[OF evolvesD(1)[OF 3(2)] names(3)] by blast
  have "evolves (os_topo os) s4" using 1(2) 2(2) 3(2) 4(2) evolves_trans by blast
  moreover have "handle_HELLO os p len iface src now = Inr (os\<lparr>os_ifs := us' @ w' # vs', os_topo := s4\<rparr>)"
    using p(1) ifs names(2) 1(1) 2(1) 3(1) 4(1) m by (simp add: handle_HELLO_def hello_consts)
  ultimately show ?thesis using 1(3) 3(3-5) 4(3) by blast
qed

text \<open>Whatever the packet, the walk is safe and keeps the arrays as the code believes them to be.\<close>

lemma safe_learn_nbr:
  assumes "wf_pif w"
  shows "safe (\<lambda>(b, w'). wf_pif w' \<and> same_if w w') (learn_nbr now ident src found (nbr_grow w))"
proof (cases "length (pif_neighbors w) = 5")
  case True
  with learn_nbr_full[OF assms] show ?thesis by simp
next
  case False
  with assms have "nbr_grow w = w" "length (pif_neighbors w) < 5" by (simp_all add: nbr_grow_def wf_pif_def)
  with assms show ?thesis by (simp add: learn_nbr_def wf_pif_def ptr_bytes_def Let_def)
qed

lemma safe_field: "safe (\<lambda>_. True) (field32 k p)" "safe (\<lambda>_. True) (field16 k p)"
  by (simp_all add: field32_def field16_def get_bytes_def)

lemma safe_hello_on_if:
  assumes "wf_topo s" "wf_pif w"
  shows "safe (\<lambda>(b, w', s'). evolves s s' \<and> wf_pif w' \<and> same_if w w')
    (hello_on_if p src now found w s)"
proof -
  have "0 < pif_nbr_buf_size w" using assms(2) by (simp add: wf_pif_def)
  moreover have "safe (evolves s) (claim_subnet s ident src nmask)" for ident nmask
    using claim_subnet_ok[OF assms(1), of ident src nmask] by auto
  ultimately show ?thesis
    unfolding hello_on_if_def
    by (auto intro!: safe_rbind[OF safe_field(1)] safe_rbind[OF safe_learn_nbr[OF assms(2)]]
        safe_rbind[of "evolves s" "claim_subnet s _ _ _"])
qed

lemma safe_hello_walk:
  assumes "wf_topo s" "\<forall>w \<in> set ws. wf_pif w"
  shows "safe (\<lambda>(ws', s'). evolves s s' \<and> (\<forall>w \<in> set ws'. wf_pif w) \<and> list_all2 same_if ws ws')
    (hello_walk p iface src now ws found s)"
  using assms
proof (induction ws arbitrary: s found)
  case (Cons w ws)
  obtain ns s1 where 1: "expire_nbrs now 0 (pif_neighbors w) s = Inr (ns, s1)" "evolves s s1"
      "mset ns = filter_mset (fresh now) (mset (pif_neighbors w))"
    using expire_nbrs_ok[OF Cons.prems(1), of 0 "pif_neighbors w" now] by auto
  have pr: "pruned now w (w\<lparr>pif_neighbors := ns\<rparr>)" using 1(3) by (simp add: pruned_def)
  have wf1: "wf_topo s1" "wf_pif (w\<lparr>pif_neighbors := ns\<rparr>)" "\<forall>w \<in> set ws. wf_pif w"
    using evolvesD(1)[OF 1(2)] prunedD(5)[OF pr] Cons.prems(2) by auto
  have IH: "safe (\<lambda>(ws', s'). evolves s s' \<and> (\<forall>w \<in> set ws'. wf_pif w) \<and> list_all2 same_if ws ws')
      (hello_walk p iface src now ws f t)" if "evolves s1 t" for f t
    by (rule safe_mono[OF Cons.IH[OF evolvesD(1)[OF that] wf1(3)]])
      (auto intro: evolves_trans[OF 1(2)] evolves_trans[OF that])
  have m: "safe (\<lambda>_. True) (hello_matches p (w\<lparr>pif_neighbors := ns\<rparr>))"
    by (auto simp: hello_matches_def intro!: safe_rbind[OF safe_field(1)] safe_rbind[OF safe_field(2)])
  have rest: "safe (\<lambda>(ws', s'). evolves s s' \<and> (\<forall>w \<in> set ws'. wf_pif w) \<and> list_all2 same_if (w # ws) ws')
      (rbind (hello_walk p iface src now ws f t) (\<lambda>(ws', s'). Inr (v # ws', s')))"
    if "evolves s1 t" "wf_pif v" "same_if w v" for f t v
    by (rule safe_rbind[OF IH[OF that(1)]]) (use that(2,3) in auto)
  have "safe (\<lambda>(ws', s'). evolves s s' \<and> (\<forall>w \<in> set ws'. wf_pif w) \<and> list_all2 same_if (w # ws) ws')
      (rbind (hello_on_if p src now found (w\<lparr>pif_neighbors := ns\<rparr>) s1) (\<lambda>(found', w2, s2).
         rbind (hello_walk p iface src now ws found' s2) (\<lambda>(ws', s3). Inr (w2 # ws', s3))))"
    by (rule safe_rbind[OF safe_hello_on_if[OF wf1(1,2)]]) (use rest in auto)
  then show ?case
    using 1(1,2) wf1 Cons.prems rest[OF evolves_refl[OF wf1(1)] wf1(2)]
    by (auto simp: Let_def list_all2_same same_if_refl intro!: safe_rbind[OF m])
qed (simp add: evolves_refl)

section \<open>The bytes of a HELLO\<close>

lemma fill_sum_ok:
  assumes "even len" "even k" "k + 1 < len" "len \<le> length hdr" "len \<le> 65534" "hdr ! k = 0" "hdr ! (k + 1) = 0"
  shows "\<exists>c. fill_sum k len hdr = Inr (take k hdr @ store16 (htons c) @ drop (k + 2) hdr) \<and>
     cksum hdr len = Inr c \<and> cksum (take k hdr @ store16 (htons c) @ drop (k + 2) hdr) len = Inr 0"
proof -
  obtain c where c: "cksum hdr len = Inr c" using cksum_total[OF assms(1,4,5)] by blast
  have kl: "k + 2 \<le> length hdr" using assms(3,4) by simp
  have "put16 k (htons c) hdr = take k hdr @ store16 (htons c) @ drop (k + 2) hdr"
    using kl by (simp add: put16_def store16_def upd_conv_take_nth_drop take_Suc_conv_app_nth)
  with cksum_stored_zero[OF assms(1,4,5,2,3,6,7) c] c kl show ?thesis
    by (intro exI[of _ c]) (simp add: fill_sum_def)
qed

lemma length_headers [simp]:
  "length (ip_header n src dst) = 20" "length (ospf_header type n ident area) = 24"
  by (simp_all add: ip_header_def ospf_header_def)

lemma ospf_header_sum:
  "\<exists>c. fill_sum 12 16 (ospf_header type n ident area) =
       Inr (take 12 (ospf_header type n ident area) @ store16 (htons c) @ replicate 10 0) \<and>
     cksum (ospf_header type n ident area) 16 = Inr c"
proof -
  have "drop 14 (ospf_header type n ident area) = replicate 10 0"
    by (simp add: ospf_header_def)
  moreover have "ospf_header type n ident area ! 12 = 0" "ospf_header type n ident area ! 13 = 0"
    by (simp_all add: ospf_header_def nth_append nth_Cons')
  ultimately show ?thesis using fill_sum_ok[of 16 12 "ospf_header type n ident area"] by auto
qed

lemma ip_header_sum:
  "\<exists>c. fill_sum 10 IP_HDR_LEN (ip_header n src dst) =
       Inr (take 10 (ip_header n src dst) @ store16 (htons c) @ store32 src @ store32 dst) \<and>
     cksum (take 10 (ip_header n src dst) @ store16 (htons c) @ store32 src @ store32 dst) 20 = Inr 0"
proof -
  have "drop 12 (ip_header n src dst) = store32 src @ store32 dst" by (simp add: ip_header_def)
  moreover have "ip_header n src dst ! 10 = 0" "ip_header n src dst ! 11 = 0"
    by (simp_all add: ip_header_def nth_append nth_Cons')
  ultimately show ?thesis using fill_sum_ok[of 20 10 "ip_header n src dst"] by (auto simp: hdr_lens)
qed

end
