(* ===== verification/Arp_Cache.thy ===== *)
theory Arp_Cache
  imports Link
begin

text \<open>
  The ARP cache and the ARP handler of \<^verbatim>\<open>arp.c\<close>. The cache is the linked list in link order;
  \<^verbatim>\<open>time(NULL)\<close> is read once per operation (\<open>now\<close>). \<^verbatim>\<open>search_cache\<close> returns a pointer into
  the entry it found; the model returns the six bytes it points to.
\<close>

record arp_cache_entry =
  ip_add :: u32
  ac_mac :: mac
  timenotvalid :: time

definition ARP_TIMEOUT :: time where "ARP_TIMEOUT = 15"

section \<open>The cache\<close>

text \<open>
  The walk of \<^verbatim>\<open>check_cache_invalid\<close>: \<open>prev\<close> holds the entries the walk has passed and kept
  (\<^verbatim>\<open>prev == 0\<close> is the empty list), with the code's cases for the first, the last and a middle
  entry.
\<close>

fun invalid_walk :: "time \<Rightarrow> arp_cache_entry list \<Rightarrow> arp_cache_entry list \<Rightarrow> arp_cache_entry list" where
  "invalid_walk now prev [] = prev"
| "invalid_walk now prev (w # ws) =
     (if timenotvalid w < now then
        (if prev = [] then (if ws \<noteq> [] then invalid_walk now [] ws else [])
         else if ws = [] then prev
         else invalid_walk now prev ws)
      else invalid_walk now (prev @ [w]) ws)"

definition check_cache_invalid :: "arp_cache_entry list \<Rightarrow> time \<Rightarrow> arp_cache_entry list" where
  "check_cache_invalid cache now = invalid_walk now [] cache"

primrec cache_walk :: "arp_cache_entry list \<Rightarrow> u32 \<Rightarrow> arp_cache_entry option" where
  "cache_walk [] ip = None"
| "cache_walk (w # ws) ip = (if ip = ip_add w then Some w else cache_walk ws ip)"

definition search_cache ::
  "arp_cache_entry list \<Rightarrow> time \<Rightarrow> u32 \<Rightarrow> arp_cache_entry list \<times> mac option" where
  "search_cache cache now ip =
     (let cache' = check_cache_invalid cache now
      in (cache', map_option ac_mac (cache_walk cache' ip)))"

definition add_cache_entry ::
  "arp_cache_entry list \<Rightarrow> time \<Rightarrow> u32 \<Rightarrow> mac \<Rightarrow> arp_cache_entry list result" where
  "add_cache_entry cache now ip mac =
     (case search_cache cache now ip of
        (cache', Some _) \<Rightarrow> Inr cache'
      | (cache', None) \<Rightarrow>
          if ip = 0 then Inl Assertion_failure
          else Inr (cache' @ [\<lparr>ip_add = ip, ac_mac = take ETHER_ADDR_LEN mac,
                               timenotvalid = now + ARP_TIMEOUT\<rparr>]))"

text \<open>
  \<^verbatim>\<open>delete_entry\<close>, for the entry at position \<open>i\<close> (no caller is left of it): the list without it, and the
  position of what is returned, the entry that followed.
\<close>

definition delete_entry :: "arp_cache_entry list \<Rightarrow> nat \<Rightarrow> arp_cache_entry list \<times> nat option" where
  "delete_entry cache i =
     (if i = 0 then (if tl cache \<noteq> [] then (tl cache, Some 0) else ([], None))
      else if drop (Suc i) cache = [] then (take i cache, None)
      else (take i cache @ drop (Suc i) cache, Some i))"

lemma delete_entry_removes:
  assumes "i < length cache"
  shows "delete_entry cache i = (take i cache @ drop (Suc i) cache, if Suc i < length cache then Some i else None)"
  using assms by (cases cache) (auto simp: delete_entry_def)

interpretation cachew: first_match "\<lambda>ip w. ip = ip_add w" cache_walk
  by unfold_locales simp_all

definition entry_valid :: "time \<Rightarrow> arp_cache_entry \<Rightarrow> bool" where
  "entry_valid now e \<longleftrightarrow> now \<le> timenotvalid e"

lemma invalid_walk_filter: "invalid_walk now prev ws = prev @ filter (entry_valid now) ws"
  by (induction now prev ws rule: invalid_walk.induct) (auto simp: entry_valid_def)

lemma check_cache_invalid_filter: "check_cache_invalid cache now = filter (entry_valid now) cache"
  by (simp add: check_cache_invalid_def invalid_walk_filter)

lemma filter_valid_later:
  "now \<le> t \<Longrightarrow> filter (entry_valid t) (filter (entry_valid now) c) = filter (entry_valid t) c"
  by (auto simp: entry_valid_def intro: filter_cong)

lemma filter_valid_later' [simp]:
  "now \<le> t \<Longrightarrow> filter (\<lambda>x. entry_valid now x \<and> entry_valid t x) c = filter (entry_valid t) c"
  by (auto simp: entry_valid_def intro: filter_cong)

lemma entry_valid_new [simp]:
  "entry_valid t \<lparr>ip_add = ip, ac_mac = m, timenotvalid = e\<rparr> \<longleftrightarrow> t \<le> e"
  by (simp add: entry_valid_def)

section \<open>The contract of a neighbour cache\<close>

text \<open>
  What a client of the cache relies on: \<open>view c t ip\<close> is the answer of a search at time \<open>t\<close>. An
  insertion at \<open>now\<close> takes effect only when the address has no answer, lasts \<open>ttl\<close> seconds, and
  touches no other address. \<open>stored\<close> is what the cache keeps of a value.
\<close>

locale neighbour_cache =
  fixes empty :: 'c and view :: "'c \<Rightarrow> time \<Rightarrow> 'k \<Rightarrow> 'v option"
    and insert :: "'c \<Rightarrow> time \<Rightarrow> 'k \<Rightarrow> 'v \<Rightarrow> 'c result" and stored :: "'v \<Rightarrow> 'v" and ttl :: time
  assumes view_empty: "view empty t k = None"
    and view_bound: "insert c now k v = Inr c' \<Longrightarrow> now \<le> t \<Longrightarrow> view c now k = Some w \<Longrightarrow>
      view c' t k = view c t k"
    and view_new: "insert c now k v = Inr c' \<Longrightarrow> now \<le> t \<Longrightarrow> view c now k = None \<Longrightarrow>
      view c' t k = (if t \<le> now + ttl then Some (stored v) else None)"
    and view_other: "insert c now k v = Inr c' \<Longrightarrow> now \<le> t \<Longrightarrow> k' \<noteq> k \<Longrightarrow>
      view c' t k' = view c t k'"
begin

text \<open>An answer after a sequence of insertions, in time order, comes from one of the last \<open>ttl\<close> seconds.\<close>

lemma view_justified_from:
  assumes "foldr_res (\<lambda>(now, k, v) c. insert c now k v) h c = Inr c'"
    and "\<forall>(now, k, v) \<in> set h. now \<le> t" and "view c' t k = Some v"
  shows "view c t k = Some v \<or> (\<exists>now v0. (now, k, v0) \<in> set h \<and> v = stored v0 \<and> t \<le> now + ttl)"
  using assms
proof (induction h arbitrary: c)
  case (Cons x h)
  obtain now k0 v0 where x: "x = (now, k0, v0)" by (cases x)
  from Cons.prems(1) x obtain d where d: "insert c now k0 v0 = Inr d"
    "foldr_res (\<lambda>(now, k, v) c. insert c now k v) h d = Inr c'" by (auto simp: rbind_eq_Inr)
  have now: "now \<le> t" using Cons.prems(2) x by auto
  have "view d t k = Some v \<or> (\<exists>now v0. (now, k, v0) \<in> set h \<and> v = stored v0 \<and> t \<le> now + ttl)"
    using Cons.IH[OF d(2)] Cons.prems(2,3) by auto
  moreover have "view c t k = Some v \<or> (k0 = k \<and> v = stored v0 \<and> t \<le> now + ttl)" if "view d t k = Some v"
    using that view_other[OF d(1) now] view_bound[OF d(1) now] view_new[OF d(1) now]
    by (cases "k = k0"; cases "view c now k0") (auto split: if_splits)
  ultimately show ?case using x by auto
qed simp

text \<open>An answer that holds until \<open>t\<close> is not changed by insertions before \<open>t\<close>.\<close>

lemma view_stable:
  assumes "foldr_res (\<lambda>(now, k, v) c. insert c now k v) h c = Inr c'"
    and "\<forall>(now, k, v) \<in> set h. now \<le> t"
    and "\<forall>s. s \<le> t \<longrightarrow> t0 \<le> s \<longrightarrow> view c s k = Some v" and "\<forall>(now, k, v) \<in> set h. t0 \<le> now"
    and "sorted (map fst h)" and "t0 \<le> t"
  shows "view c' t k = Some v"
  using assms
proof (induction h arbitrary: c t0)
  case (Cons x h)
  obtain now k0 v0 where x: "x = (now, k0, v0)" by (cases x)
  from Cons.prems(1) x obtain d where d: "insert c now k0 v0 = Inr d"
    "foldr_res (\<lambda>(now, k, v) c. insert c now k v) h d = Inr c'" by (auto simp: rbind_eq_Inr)
  have now: "now \<le> t" "t0 \<le> now" using Cons.prems x by auto
  have "view d s k = Some v" if "s \<le> t" "now \<le> s" for s
  proof -
    have c: "view c s k = Some v" "view c now k = Some v" using Cons.prems(3) that now by auto
    show ?thesis
      using view_other[OF d(1) that(2)] view_bound[OF d(1) that(2)] c by (cases "k = k0") auto
  qed
  with Cons.IH[OF d(2), of now] Cons.prems x now show ?case by (auto simp: case_prod_unfold)
qed simp

end

lemma search_cache_view:
  "snd (search_cache c t ip) = map_option ac_mac (cache_walk (filter (entry_valid t) c) ip)"
  by (simp add: search_cache_def check_cache_invalid_filter Let_def)

lemma add_cache_entry_eq:
  "add_cache_entry c now ip m =
     (if cache_walk (filter (entry_valid now) c) ip \<noteq> None then Inr (filter (entry_valid now) c)
      else if ip = 0 then Inl Assertion_failure
      else Inr (filter (entry_valid now) c @
             [\<lparr>ip_add = ip, ac_mac = take 6 m, timenotvalid = now + 15\<rparr>]))"
  by (auto simp: add_cache_entry_def search_cache_def check_cache_invalid_filter Let_def hdr_lens
      ARP_TIMEOUT_def split: option.splits)

lemma cache_walk_later:
  "cache_walk (filter (entry_valid now) c) ip = None \<Longrightarrow> now \<le> t \<Longrightarrow>
   cache_walk (filter (entry_valid t) c) ip = None"
  by (fastforce simp: cachew.lookup_None entry_valid_def)

interpretation arpc: neighbour_cache "[]" "\<lambda>c t ip. snd (search_cache c t ip)"
    add_cache_entry "take ETHER_ADDR_LEN" ARP_TIMEOUT
proof unfold_locales
  fix t k show "snd (search_cache [] t k) = None" by (simp add: search_cache_view)
next
  fix c now k v c' t w
  assume "add_cache_entry c now k v = Inr c'" "now \<le> t" "snd (search_cache c now k) = Some w"
  then show "snd (search_cache c' t k) = snd (search_cache c t k)"
    by (auto simp: add_cache_entry_eq search_cache_view)
next
  fix c now k v c' t
  assume a: "add_cache_entry c now k v = Inr c'" "now \<le> t" "snd (search_cache c now k) = None"
  then have "cache_walk (filter (entry_valid t) c) k = None"
    by (auto simp: search_cache_view cache_walk_later)
  with a show "snd (search_cache c' t k) =
      (if t \<le> now + ARP_TIMEOUT then Some (take ETHER_ADDR_LEN v) else None)"
    by (auto simp: add_cache_entry_eq search_cache_view cachew.lookup_snoc_new
        ARP_TIMEOUT_def hdr_lens split: if_splits)
next
  fix c now k v c' t k'
  assume "add_cache_entry c now k v = Inr c'" "now \<le> t" "k' \<noteq> k"
  then show "snd (search_cache c' t k') = snd (search_cache c t k')"
    by (auto simp: add_cache_entry_eq search_cache_view cachew.lookup_append split: if_splits option.splits)
qed

text \<open>
  What the ARP cache may answer. After any sequence of insertions up to time \<open>t\<close> into an
  empty cache, a search at \<open>t\<close> that returns a MAC returns one that was inserted for that very
  address at most \<^verbatim>\<open>ARP_TIMEOUT\<close> seconds before.
\<close>
theorem search_cache_justified:
  assumes "foldr_res (\<lambda>(now, ip, m) c. add_cache_entry c now ip m) h [] = Inr c"
    and "\<forall>(now, ip, m) \<in> set h. now \<le> t"
    and "snd (search_cache c t ip) = Some mac"
  shows "\<exists>now m. (now, ip, m) \<in> set h \<and> mac = take 6 m \<and> t \<le> now + 15"
  using arpc.view_justified_from[OF assms] arpc.view_empty
  by (simp add: ARP_TIMEOUT_def hdr_lens)

theorem search_cache_justified_witness:
  "\<exists>now m. (now, 7 :: u32, m) \<in> set [(100, 7, [1, 2, 3, 4, 5, 6]), (103, 7, [9, 9, 9, 9, 9, 9])] \<and>
     [1 :: u8, 2, 3, 4, 5, 6] = take 6 m \<and> (105 :: time) \<le> now + 15"
  by (rule search_cache_justified[of _ "[\<lparr>ip_add = 7, ac_mac = [1, 2, 3, 4, 5, 6], timenotvalid = 115\<rparr>]"])
    (simp_all add: add_cache_entry_eq search_cache_view entry_valid_def)

text \<open>
  A binding cannot be replaced while it lives. If the cache answers \<open>mac\<close> for an address
  from \<open>t0\<close> up to \<open>t\<close>, then insertions made in that period, in time order and for whatever address and
  MAC, leave that answer in place at \<open>t\<close>; they cannot prolong it either, because a bound
  address is never refreshed.
\<close>
theorem search_cache_stable:
  assumes "foldr_res (\<lambda>(now, ip, m) c. add_cache_entry c now ip m) h c = Inr c'"
    and "sorted (map fst h)" and "\<forall>(now, ip, m) \<in> set h. t0 \<le> now \<and> now \<le> t" and "t0 \<le> t"
    and "\<forall>s. t0 \<le> s \<and> s \<le> t \<longrightarrow> snd (search_cache c s ip) = Some mac"
  shows "snd (search_cache c' t ip) = Some mac"
  by (rule arpc.view_stable[OF assms(1), of t t0]) (use assms in auto)

theorem search_cache_stable_witness:
  "snd (search_cache [\<lparr>ip_add = 7, ac_mac = [1, 2, 3, 4, 5, 6], timenotvalid = 115\<rparr>] 110 7) =
   Some [1, 2, 3, 4, 5, 6]"
  by (rule search_cache_stable[of "[(105, 7, [9, 9, 9, 9, 9, 9])]"
        "[\<lparr>ip_add = 7, ac_mac = [1, 2, 3, 4, 5, 6], timenotvalid = 115\<rparr>]" _ 100])
    (simp_all add: add_cache_entry_eq search_cache_view entry_valid_def)

section \<open>The cache as a map\<close>

definition cache_map :: "arp_cache_entry list \<Rightarrow> u32 \<rightharpoonup> mac \<times> time" where
  "cache_map c = map_of (map (\<lambda>e. (ip_add e, ac_mac e, timenotvalid e)) c)"

definition live_at :: "time \<Rightarrow> (u32 \<rightharpoonup> mac \<times> time) \<Rightarrow> u32 \<rightharpoonup> mac \<times> time" where
  "live_at now m ip = (case m ip of Some (mac, t) \<Rightarrow> if now \<le> t then Some (mac, t) else None | None \<Rightarrow> None)"

definition bind_at :: "time \<Rightarrow> u32 \<Rightarrow> mac \<Rightarrow> (u32 \<rightharpoonup> mac \<times> time) \<Rightarrow> u32 \<rightharpoonup> mac \<times> time" where
  "bind_at now ip mac m =
     (if live_at now m ip = None then (live_at now m)(ip \<mapsto> (take ETHER_ADDR_LEN mac, now + ARP_TIMEOUT)) else live_at now m)"

lemma cache_map_simps [simp]:
  "cache_map [] = Map.empty" "cache_map (e # c) = (cache_map c)(ip_add e \<mapsto> (ac_mac e, timenotvalid e))"
  by (simp_all add: cache_map_def)

lemma cache_map_walk: "cache_map c ip = map_option (\<lambda>e. (ac_mac e, timenotvalid e)) (cache_walk c ip)"
  by (induction c) auto

lemma cache_map_None: "cache_map c ip = None \<longleftrightarrow> ip \<notin> ip_add ` set c"
  by (auto simp: cache_map_walk cachew.lookup_None)

lemma cache_map_live:
  assumes "distinct (map ip_add c)"
  shows "cache_map (filter (entry_valid now) c) = live_at now (cache_map c)"
proof
  fix ip
  show "cache_map (filter (entry_valid now) c) ip = live_at now (cache_map c) ip"
    using assms
  proof (induction c)
    case (Cons e c)
    have "cache_map c (ip_add e) = None"
      using Cons.prems by (auto simp: cache_map_None)
    then show ?case using Cons by (auto simp: live_at_def entry_valid_def)
  qed (simp add: live_at_def)
qed

lemma cache_map_snoc:
  "ip \<notin> ip_add ` set c \<Longrightarrow> cache_map (c @ [\<lparr>ip_add = ip, ac_mac = mac, timenotvalid = t\<rparr>]) = (cache_map c)(ip \<mapsto> (mac, t))"
  by (induction c) (auto simp: fun_upd_twist)

text \<open>
  C28. The cache is a map with expiry. Seen as a map from addresses to a MAC and the time up to which it holds, a search
  drops what has expired and answers from the rest, and an insertion binds an address for fifteen seconds
  if it is not bound, and changes nothing else: a binding is neither replaced nor prolonged. No address has two
  entries. The only fault is the assertion, for an unbound address 0.
\<close>
theorem cache_refines_map:
  assumes "distinct (map ip_add c)"
  shows "(case search_cache c now ip of (c', found) \<Rightarrow>
       distinct (map ip_add c') \<and> cache_map c' = live_at now (cache_map c) \<and>
       found = map_option fst (live_at now (cache_map c) ip)) \<and>
     (case add_cache_entry c now ip mac of
        Inl e \<Rightarrow> e = Assertion_failure \<and> ip = 0 \<and> live_at now (cache_map c) 0 = None
      | Inr c' \<Rightarrow> distinct (map ip_add c') \<and> cache_map c' = bind_at now ip mac (cache_map c))"
proof -
  let ?f = "filter (entry_valid now) c"
  have d: "distinct (map ip_add ?f)" using assms by (rule distinct_map_filter)
  note l = cache_map_live[OF assms]
  have w: "cache_walk ?f ip = None \<longleftrightarrow> live_at now (cache_map c) ip = None" for ip
    by (simp flip: l add: cache_map_walk)
  have "snd (search_cache c now ip) = map_option fst (live_at now (cache_map c) ip)"
    by (simp flip: l add: cache_map_walk search_cache_view option.map_comp o_def)
  then have "case search_cache c now ip of (c', found) \<Rightarrow>
       distinct (map ip_add c') \<and> cache_map c' = live_at now (cache_map c) \<and>
       found = map_option fst (live_at now (cache_map c) ip)"
    using d l by (simp add: search_cache_def check_cache_invalid_filter Let_def)
  moreover have "case add_cache_entry c now ip mac of
        Inl e \<Rightarrow> e = Assertion_failure \<and> ip = 0 \<and> live_at now (cache_map c) 0 = None
      | Inr c' \<Rightarrow> distinct (map ip_add c') \<and> cache_map c' = bind_at now ip mac (cache_map c)"
  proof (cases "cache_walk ?f ip")
    case None
    then have "ip \<notin> ip_add ` set ?f" by (auto simp: cachew.lookup_None)
    then show ?thesis
      using None w[of ip] d l cache_map_snoc[of ip ?f "take 6 mac" "now + 15"]
      by (auto simp: add_cache_entry_eq bind_at_def ARP_TIMEOUT_def hdr_lens)
  next
    case (Some e)
    then show ?thesis using w[of ip] d l by (auto simp: add_cache_entry_eq bind_at_def)
  qed
  ultimately show ?thesis ..
qed

theorem cache_refines_map_witness:
  "cache_map (fst (search_cache [\<lparr>ip_add = 7, ac_mac = [1, 2, 3, 4, 5, 6], timenotvalid = 115\<rparr>] 116 7)) 7 = None \<and>
   (\<exists>c'. add_cache_entry [\<lparr>ip_add = 7, ac_mac = [1, 2, 3, 4, 5, 6], timenotvalid = 115\<rparr>] 105 9 [9, 9, 9, 9, 9, 9] = Inr c' \<and>
      cache_map c' 9 = Some ([9, 9, 9, 9, 9, 9], 120) \<and> cache_map c' 7 = Some ([1, 2, 3, 4, 5, 6], 115))"
proof -
  let ?c = "[\<lparr>ip_add = 7, ac_mac = [1, 2, 3, 4, 5, 6], timenotvalid = 115\<rparr>]"
  have d: "distinct (map ip_add ?c)" by simp
  obtain c' where c: "add_cache_entry ?c 105 9 [9, 9, 9, 9, 9, 9] = Inr c'"
    by (simp add: add_cache_entry_eq)
  have "cache_map (fst (search_cache ?c 116 7)) = live_at 116 (cache_map ?c)"
    using cache_refines_map[OF d, of 116 7] by (simp add: case_prod_unfold)
  then have "cache_map (fst (search_cache ?c 116 7)) 7 = None" by (simp add: live_at_def cache_map_def)
  moreover have "cache_map c' = bind_at 105 9 [9, 9, 9, 9, 9, 9] (cache_map ?c)"
    using cache_refines_map[OF d, of 105 9 "[9, 9, 9, 9, 9, 9]"] c by simp
  ultimately show ?thesis using c by (simp add: bind_at_def live_at_def cache_map_def hdr_lens ARP_TIMEOUT_def)
qed

section \<open>The ARP packet handler\<close>

text \<open>
  The part of \<^verbatim>\<open>struct packet_state\<close> that ARP uses: the rest of the packet and its length, the
  interface it came in on, the block allocated for the response, the offset of
  \<^verbatim>\<open>response\<close> in it, and the response's length.
\<close>

record packet_state =
  ps_packet :: bytes
  ps_len :: nat
  ps_interface :: string
  ps_block :: bytes
  ps_response :: nat
  ps_res_len :: nat

definition ARP_HDR_LEN :: nat where "ARP_HDR_LEN = 28"
definition MAX_PAC_LENGTH :: nat where "MAX_PAC_LENGTH = 10000"
definition ARP_REQUEST :: u16 where "ARP_REQUEST = 1"
definition ARP_REPLY :: u16 where "ARP_REPLY = 2"
definition ETHERTYPE_ARP :: u16 where "ETHERTYPE_ARP = 0x0806"

lemmas arp_consts = ARP_HDR_LEN_def MAX_PAC_LENGTH_def ARP_REQUEST_def ARP_REPLY_def
  ETHERTYPE_ARP_def hdr_lens

text \<open>
  \<^verbatim>\<open>struct sr_arphdr\<close>: \<^verbatim>\<open>ar_hrd\<close> 0-1, \<^verbatim>\<open>ar_pro\<close> 2-3, \<^verbatim>\<open>ar_hln\<close> 4, \<^verbatim>\<open>ar_pln\<close> 5, \<^verbatim>\<open>ar_op\<close> 6-7,
  \<^verbatim>\<open>ar_sha\<close> 8-13, \<^verbatim>\<open>ar_sip\<close> 14-17, \<^verbatim>\<open>ar_tha\<close> 18-23, \<^verbatim>\<open>ar_tip\<close> 24-27.
\<close>

definition ar_op :: "bytes \<Rightarrow> u16" where "ar_op a = load16 (a ! 6) (a ! 7)"
definition ar_sha :: "bytes \<Rightarrow> mac" where "ar_sha a = take 6 (drop 8 a)"
definition ar_sip :: "bytes \<Rightarrow> u32" where "ar_sip a = load32 (a ! 14) (a ! 15) (a ! 16) (a ! 17)"
definition ar_tip :: "bytes \<Rightarrow> u32" where "ar_tip a = load32 (a ! 24) (a ! 25) (a ! 26) (a ! 27)"

lemmas ar_fields = ar_op_def ar_sha_def ar_sip_def ar_tip_def

definition construct_reply :: "packet_state \<Rightarrow> bytes \<Rightarrow> mac \<Rightarrow> bytes \<Rightarrow> packet_state result" where
  "construct_reply ps arp_hdr mac eth =
     (let reply = take 4 arp_hdr @ [of_nat ETHER_ADDR_LEN, arp_hdr ! 5] @ store16 (htons ARP_REPLY) @
            take ETHER_ADDR_LEN mac @ store32 (ar_tip arp_hdr) @ ar_sha arp_hdr @ store32 (ar_sip arp_hdr);
          new_eth = ether_shost eth @ take ETHER_ADDR_LEN mac @ store16 (htons ETHERTYPE_ARP)
      in rbind (put_bytes (ps_response ps) reply (ps_block ps)) (\<lambda>b1.
         if ps_response ps < ETHER_HDR_LEN then Inl Out_of_bounds
         else rbind (put_bytes (ps_response ps - ETHER_HDR_LEN) new_eth b1) (\<lambda>b2.
           Inr (ps\<lparr>ps_block := b2, ps_response := ps_response ps - ETHER_HDR_LEN,
                   ps_res_len := ETHER_HDR_LEN + ARP_HDR_LEN\<rparr>))))"

definition got_Request :: "sr_if list \<Rightarrow> packet_state \<Rightarrow> bytes \<Rightarrow> bytes \<Rightarrow> packet_state result" where
  "got_Request ifs ps arp_hdr eth =
     (case sr_get_interface ifs (ps_interface ps) of
        None \<Rightarrow> Inl Assertion_failure
      | Some iface \<Rightarrow> construct_reply ps arp_hdr (if_addr iface) eth)"

definition got_Reply ::
  "arp_cache_entry list \<Rightarrow> time \<Rightarrow> bytes \<Rightarrow> (arp_cache_entry list \<times> mac option) result" where
  "got_Reply cache now arp =
     rbind (add_cache_entry cache now (ar_sip arp) (ar_sha arp)) (\<lambda>cache'.
       Inr (search_cache cache' now (ar_sip arp)))"

definition handle_ARP ::
  "sr_if list \<Rightarrow> arp_cache_entry list \<Rightarrow> time \<Rightarrow> packet_state \<Rightarrow> bytes \<Rightarrow>
   (arp_cache_entry list \<times> packet_state \<times> mac option) result" where
  "handle_ARP ifs cache now ps eth =
     (if ps_len ps < ARP_HDR_LEN then Inr (cache, ps\<lparr>ps_res_len := 0\<rparr>, None)
      else let arp = ps_packet ps in
        if ntohs (ar_op arp) = ARP_REQUEST then
          rbind (got_Request ifs ps arp eth) (\<lambda>ps'. Inr (cache, ps', None))
        else if ntohs (ar_op arp) = ARP_REPLY then
          rbind (got_Reply cache now arp) (\<lambda>(cache', m). Inr (cache', ps, m))
        else Inr (cache, ps, None))"

text \<open>
  The ARP branch of \<^verbatim>\<open>sr_handlepacket\<close> for a frame of at least an Ethernet header: \<open>blk\<close> is the
  block of \<^verbatim>\<open>MAX_PAC_LENGTH\<close> bytes that becomes the response, \<^verbatim>\<open>leave_hdr_room\<close> steps over the
  Ethernet header, and the response is sent when \<^verbatim>\<open>handle_ARP\<close> returned null.
\<close>

definition leave_hdr_room :: "'a packet_state_scheme \<Rightarrow> nat \<Rightarrow> 'a packet_state_scheme" where
  "leave_hdr_room ps n =
     ps\<lparr>ps_packet := drop n (ps_packet ps), ps_len := ps_len ps - n,
        ps_response := ps_response ps + n, ps_res_len := ps_res_len ps + n\<rparr>"

definition handle_arp_frame ::
  "sr_if list \<Rightarrow> arp_cache_entry list \<Rightarrow> time \<Rightarrow> bytes \<Rightarrow> bytes \<Rightarrow> string \<Rightarrow>
   (arp_cache_entry list \<times> frame list) result" where
  "handle_arp_frame ifs cache now blk packet iface =
     (let ps = leave_hdr_room \<lparr>ps_packet = packet, ps_len = length packet, ps_interface = iface,
                 ps_block = blk, ps_response = 0, ps_res_len = 0\<rparr> ETHER_HDR_LEN
      in rbind (handle_ARP ifs cache now ps packet) (\<lambda>(cache', ps', m).
         if m = None \<and> 0 < ps_res_len ps'
         then rbind (sr_send_packet ifs (ps_block ps') (ps_res_len ps') iface) (\<lambda>out. Inr (cache', out))
         else Inr (cache', [])))"

text \<open>
  \<^verbatim>\<open>sr_read_from_server_expect\<close> drops an ARP request for another address than the
  receiving interface's before \<^verbatim>\<open>sr_handlepacket\<close> sees it.
\<close>

definition ether_type :: "bytes \<Rightarrow> u16" where "ether_type f = load16 (f ! 12) (f ! 13)"

definition sr_arp_req_not_for_us :: "sr_if list \<Rightarrow> bytes \<Rightarrow> string \<Rightarrow> bool result" where
  "sr_arp_req_not_for_us ifs packet interface =
     (if length packet < ETHER_HDR_LEN + ARP_HDR_LEN then Inr False
      else case sr_get_interface ifs interface of
             None \<Rightarrow> Inl Assertion_failure
           | Some iface \<Rightarrow>
               let a_hdr = drop ETHER_HDR_LEN packet
               in Inr (ether_type packet = htons ETHERTYPE_ARP \<and> ar_op a_hdr = htons ARP_REQUEST \<and>
                       ar_tip a_hdr \<noteq> if_ip iface))"

definition receive_arp_frame ::
  "sr_if list \<Rightarrow> arp_cache_entry list \<Rightarrow> time \<Rightarrow> bytes \<Rightarrow> bytes \<Rightarrow> string \<Rightarrow>
   (arp_cache_entry list \<times> frame list) result" where
  "receive_arp_frame ifs cache now blk packet iface =
     rbind (sr_arp_req_not_for_us ifs packet iface) (\<lambda>drop.
       if drop then Inr (cache, []) else handle_arp_frame ifs cache now blk packet iface)"

section \<open>The ARP request\<close>

definition construct_request :: "sr_if list \<Rightarrow> string \<Rightarrow> u32 \<Rightarrow> bytes result" where
  "construct_request ifs iface_nm ip_addr =
     (case sr_get_interface ifs iface_nm of
        None \<Rightarrow> Inl Null_pointer
      | Some iface \<Rightarrow>
          Inr (replicate ETHER_ADDR_LEN 0xFF @ take ETHER_ADDR_LEN (if_addr iface) @
               store16 (htons ETHERTYPE_ARP) @
               store16 (htons 0x0001) @ store16 (htons 0x0800) @ [of_nat ETHER_ADDR_LEN, 4] @
               store16 (htons ARP_REQUEST) @
               take ETHER_ADDR_LEN (if_addr iface) @ store32 (if_ip iface) @
               replicate ETHER_ADDR_LEN 0x00 @ store32 ip_addr))"

text \<open>The bytes of a request and of the reply to it.\<close>

definition arp_frame :: "mac \<Rightarrow> mac \<Rightarrow> u16 \<Rightarrow> mac \<Rightarrow> u32 \<Rightarrow> mac \<Rightarrow> u32 \<Rightarrow> bytes" where
  "arp_frame dst src op sha sip tha tip =
     dst @ src @ [8, 6] @ [0, 1, 8, 0, 6, 4] @ store16 (htons op) @ sha @ store32 sip @ tha @ store32 tip"

lemma mac_cases:
  assumes "length (m :: mac) = 6"
  obtains a b c d e f where "m = [a, b, c, d, e, f]"
  using assms by (auto simp: length_Suc_conv eval_nat_numeral)

lemma construct_request_frame:
  assumes "sr_get_interface ifs nm = Some w" "length (if_addr w) = 6"
  shows "construct_request ifs nm ip =
    Inr (arp_frame (replicate 6 0xFF) (if_addr w) 1 (if_addr w) (if_ip w) (replicate 6 0) ip)"
proof -
  have s: "store16 (htons 0x0806) = [8, 6]" "store16 (htons 1) = [0, 1]" "store16 (htons 0x0800) = [8, 0]"
    by code_simp+
  show ?thesis using assms by (simp add: construct_request_def arp_frame_def arp_consts s)
qed

lemma arp_frame_fields:
  assumes "length dst = 6" "length src = 6" "length sha = 6" "length tha = 6"
  shows "length (arp_frame dst src op sha sip tha tip) = 42"
    "ether_dhost (arp_frame dst src op sha sip tha tip) = dst"
    "ether_shost (arp_frame dst src op sha sip tha tip) = src"
    "ar_op (drop 14 (arp_frame dst src op sha sip tha tip)) = htons op"
    "ar_sha (drop 14 (arp_frame dst src op sha sip tha tip)) = sha"
    "ar_sip (drop 14 (arp_frame dst src op sha sip tha tip)) = sip"
    "ar_tip (drop 14 (arp_frame dst src op sha sip tha tip)) = tip"
    "take 4 (drop 14 (arp_frame dst src op sha sip tha tip)) = [0, 1, 8, 0]"
    "drop 14 (arp_frame dst src op sha sip tha tip) ! 5 = 4"
  using assms
  by (auto elim!: mac_cases simp: arp_frame_def ether_dhost_def ether_shost_def ar_fields
      store16_def store32_def)

lemma handle_arp_frame_request:
  assumes "sr_get_interface ifs nm = Some w" "length (if_addr w) = 6" "42 \<le> length blk"
    and l: "length dst = 6" "length src = 6" "length sha = 6" "length tha = 6"
  shows "handle_arp_frame ifs c now blk (arp_frame dst src 1 sha sip tha tip) nm =
    Inr (c, [(nm, arp_frame src (if_addr w) 2 (if_addr w) tip sha sip)])"
proof -
  let ?f = "arp_frame dst src 1 sha sip tha tip"
  note F = arp_frame_fields[OF l, of 1 sip tip]
  have s: "store16 (htons 0x0806) = [8, 6]" by code_simp
  have "take 42 (arp_frame src (if_addr w) 2 (if_addr w) tip sha sip) =
      arp_frame src (if_addr w) 2 (if_addr w) tip sha sip"
    using assms by (simp add: arp_frame_def)
  moreover have "handle_ARP ifs c now (leave_hdr_room \<lparr>ps_packet = ?f, ps_len = length ?f,
        ps_interface = nm, ps_block = blk, ps_response = 0, ps_res_len = 0\<rparr> 14) ?f =
    Inr (c, \<lparr>ps_packet = drop 14 ?f, ps_len = 28, ps_interface = nm,
       ps_block = arp_frame src (if_addr w) 2 (if_addr w) tip sha sip @ drop 42 blk,
       ps_response = 0, ps_res_len = 42\<rparr>, None)"
    using assms F s
    by (simp add: handle_ARP_def got_Request_def construct_reply_def leave_hdr_room_def arp_consts Let_def)
      (simp add: arp_frame_def)
  moreover have "ether_shost (arp_frame src (if_addr w) 2 (if_addr w) tip sha sip @ drop 42 blk) = if_addr w"
    using assms by (simp add: arp_frame_def ether_shost_def)
  ultimately show ?thesis
    using assms F(1)
    by (simp add: handle_arp_frame_def arp_consts sr_send_packet_def sr_ether_addrs_match_interface_def
        arp_frame_fields)
qed

lemma handle_arp_frame_reply:
  assumes l: "length dst = 6" "length src = 6" "length sha = 6" "length tha = 6"
    and "add_cache_entry c now sip sha = Inr c'"
    and "snd (search_cache c' now sip) \<noteq> None"
  shows "handle_arp_frame ifs c now blk (arp_frame dst src 2 sha sip tha tip) nm =
    Inr (fst (search_cache c' now sip), [])"
  using assms(5,6) arp_frame_fields[OF l, of 2 sip tip]
  by (cases "search_cache c' now sip")
    (auto simp: handle_arp_frame_def handle_ARP_def leave_hdr_room_def arp_consts got_Reply_def Let_def)

lemma arp_frame_type: "length dst = 6 \<Longrightarrow> length src = 6 \<Longrightarrow>
   ether_type (arp_frame dst src op sha sip tha tip) = htons ETHERTYPE_ARP"
  by (auto elim!: mac_cases simp: arp_frame_def ether_type_def ETHERTYPE_ARP_def) code_simp

lemma sr_arp_req_not_for_us_frame:
  assumes "sr_get_interface ifs nm = Some w"
    and "length dst = 6" "length src = 6" "length sha = 6" "length tha = 6"
  shows "sr_arp_req_not_for_us ifs (arp_frame dst src op sha sip tha tip) nm =
     Inr (op = ARP_REQUEST \<and> tip \<noteq> if_ip w)"
  using assms arp_frame_fields[OF assms(2-5)]
  by (simp add: sr_arp_req_not_for_us_def arp_frame_type arp_consts)

text \<open>
  C27. Address resolution works end to end. The request a router builds for an address reaches
  \<^verbatim>\<open>sr_handlepacket\<close> of a router only over an interface that has the address, and is answered
  there with one frame back to the sender; when that frame reaches the first router, no further
  frame is sent and the address resolves to the answering interface's MAC for the next
  \<^verbatim>\<open>ARP_TIMEOUT\<close> seconds. A request for any other address is dropped.
\<close>
theorem arp_exchange:
  assumes "sr_get_interface ifsA nA = Some wA" and "length (if_addr wA) = 6"
    and "sr_get_interface ifsB nB = Some wB" and "length (if_addr wB) = 6"
    and "42 \<le> length blkB" and "ip \<noteq> 0" and "snd (search_cache cA now ip) = None"
  shows "\<exists>req. construct_request ifsA nA ip = Inr req \<and>
     (if ip \<noteq> if_ip wB then receive_arp_frame ifsB cB nowB blkB req nB = Inr (cB, [])
      else \<exists>rep cA'. receive_arp_frame ifsB cB nowB blkB req nB = Inr (cB, [(nB, rep)]) \<and>
        ether_dhost rep = if_addr wA \<and>
        receive_arp_frame ifsA cA now blkA rep nA = Inr (cA', []) \<and>
        (\<forall>t. now \<le> t \<and> t \<le> now + 15 \<longrightarrow> snd (search_cache cA' t ip) = Some (if_addr wB)))"
proof -
  have none: "cache_walk (filter (entry_valid now) cA) ip = None"
    using assms(7) by (simp add: search_cache_view)
  then have "\<exists>c. add_cache_entry cA now ip (if_addr wB) = Inr c" using assms(6) by (simp add: add_cache_entry_eq)
  then obtain c where c: "add_cache_entry cA now ip (if_addr wB) = Inr c" ..
  have view: "snd (search_cache c t ip) = Some (if_addr wB)" if "now \<le> t" "t \<le> now + 15" for t
    using arpc.view_new[OF c that(1) assms(7)] that(2) assms(4) by (simp add: ARP_TIMEOUT_def hdr_lens)
  have again: "snd (search_cache (fst (search_cache c now ip)) t ip) = snd (search_cache c t ip)"
    if "now \<le> t" for t
    using that by (simp add: search_cache_view search_cache_def check_cache_invalid_filter Let_def)
  have op: "(2 :: u16) \<noteq> ARP_REQUEST" "ARP_REQUEST = 1" by (simp_all add: ARP_REQUEST_def)
  define rep where "rep = arp_frame (if_addr wA) (if_addr wB) 2 (if_addr wB) ip (if_addr wA) (if_ip wA)"
  have rep: "ether_dhost rep = if_addr wA"
      "handle_arp_frame ifsA cA now blkA rep nA = Inr (fst (search_cache c now ip), [])"
      "sr_arp_req_not_for_us ifsA rep nA = Inr False"
    using handle_arp_frame_reply[OF _ _ _ _ c, of "if_addr wA" "if_addr wB" "if_addr wA"] assms view[of now] op
    by (simp_all add: rep_def arp_frame_fields sr_arp_req_not_for_us_frame)
  have "\<forall>t. now \<le> t \<and> t \<le> now + 15 \<longrightarrow>
      snd (search_cache (fst (search_cache c now ip)) t ip) = Some (if_addr wB)"
    using again view by simp
  define req where "req = arp_frame (replicate 6 0xFF) (if_addr wA) 1 (if_addr wA) (if_ip wA) (replicate 6 0) ip"
  from \<open>\<forall>t. now \<le> t \<and> t \<le> now + 15 \<longrightarrow> _ t\<close>
  have ans: "\<exists>rep cA'. handle_arp_frame ifsB cB nowB blkB req nB = Inr (cB, [(nB, rep)]) \<and>
        ether_dhost rep = if_addr wA \<and> receive_arp_frame ifsA cA now blkA rep nA = Inr (cA', []) \<and>
        (\<forall>t. now \<le> t \<and> t \<le> now + 15 \<longrightarrow> snd (search_cache cA' t ip) = Some (if_addr wB))"
    using rep assms handle_arp_frame_request[OF assms(3,4,5), of "replicate 6 0xFF" "if_addr wA" "if_addr wA"
        "replicate 6 0"]
    by (intro exI[of _ rep] exI[of _ "fst (search_cache c now ip)"]) (simp add: receive_arp_frame_def rep_def req_def)
  have cr: "construct_request ifsA nA ip = Inr req"
    using construct_request_frame[OF assms(1,2)] by (simp add: req_def)
  have rB: "receive_arp_frame ifsB cB nowB blkB req nB =
      (if ip \<noteq> if_ip wB then Inr (cB, []) else handle_arp_frame ifsB cB nowB blkB req nB)"
    using assms op by (simp add: receive_arp_frame_def sr_arp_req_not_for_us_frame req_def)
  show ?thesis
    using cr ans by (intro exI[of _ req]) (cases "ip = if_ip wB", simp_all add: rB del: ex_simps)
qed

theorem arp_exchange_witness:
  "\<exists>rep. receive_arp_frame [sample_if1] [] 50 (replicate 42 0)
     (arp_frame (replicate 6 0xFF) (if_addr sample_if) 1 (if_addr sample_if) (if_ip sample_if)
       (replicate 6 0) (if_ip sample_if1)) ''eth1'' = Inr ([], [(''eth1'', rep)])"
proof -
  have s: "sr_get_interface [sample_if] ''eth0'' = Some sample_if" "length (if_addr sample_if) = 6"
    "sr_get_interface [sample_if1] ''eth1'' = Some sample_if1" "length (if_addr sample_if1) = 6"
    "if_ip sample_if1 \<noteq> 0"
    by (simp_all add: sample_if_def sample_if1_def) code_simp
  have "snd (search_cache [] 60 (if_ip sample_if1)) = None" by (simp add: search_cache_view)
  from arp_exchange[OF s(1-4) _ s(5) this, of "replicate 42 0" "[]" 50 "[]"]
  show ?thesis by (auto simp: construct_request_frame[OF s(1,2)])
qed

text \<open>
  A reply that claims the address 0.0.0.0 is not refused: it reaches \<^verbatim>\<open>assert(ip)\<close> and stops the
  router.
\<close>

lemma arp_reply_zero_aborts:
  assumes l: "length dst = 6" "length src = 6" "length sha = 6" "length tha = 6"
    and "snd (search_cache c now 0) = None"
  shows "handle_arp_frame ifs c now blk (arp_frame dst src 2 sha 0 tha tip) nm = Inl Assertion_failure"
  using assms(5) arp_frame_fields[OF l, of 2 0 tip]
  by (simp add: handle_arp_frame_def handle_ARP_def leave_hdr_room_def arp_consts got_Reply_def
      add_cache_entry_eq search_cache_view)

end
