(* ===== verification/Icmp.thy ===== *)
theory Icmp
  imports Buffers Arp_Cache
begin

text \<open>
  ICMP messages of the packet handler, \<^verbatim>\<open>icmp.c\<close>: echo replies and errors, written behind the
  headers that \<^verbatim>\<open>leave_hdr_room\<close> left room for.
\<close>

section \<open>The code\<close>

definition ICMPT_ECHOREPLY :: u8 where "ICMPT_ECHOREPLY = 0"
definition ICMPT_ECHOREQUEST :: u8 where "ICMPT_ECHOREQUEST = 8"
definition ICMPT_TIMEEX :: u8 where "ICMPT_TIMEEX = 11"
definition ICMPC_PORTUN :: u8 where "ICMPC_PORTUN = 3"
definition ICMPC_INTRANSIT :: u8 where "ICMPC_INTRANSIT = 0"
definition ICMP_HDR_LEN :: nat where "ICMP_HDR_LEN = 8"

lemmas icmp_types = ICMPT_ECHOREPLY_def ICMPT_ECHOREQUEST_def ICMPT_TIMEEX_def ICMPC_PORTUN_def
  ICMPC_INTRANSIT_def ICMP_HDR_LEN_def icmp_consts

text \<open>Writing at \<^verbatim>\<open>response\<close> and stepping over what was written.\<close>

definition emit :: "bytes \<Rightarrow> 'a packet_state_scheme \<Rightarrow> 'a packet_state_scheme result" where
  "emit d ps =
     rbind (put_bytes (ps_response ps) d (ps_block ps)) (\<lambda>b.
       Inr (ps\<lparr>ps_block := b, ps_response := ps_response ps + length d,
               ps_res_len := ps_res_len ps + length d\<rparr>))"

definition create_icmp_hdr ::
  "'a packet_state_scheme \<Rightarrow> u8 \<Rightarrow> u8 \<Rightarrow> 'a packet_state_scheme result" where
  "create_icmp_hdr ps type code = emit [type, code, 0, 0, 0, 0, 0, 0] ps"

definition create_icmp_data ::
  "'a packet_state_scheme \<Rightarrow> bytes \<Rightarrow> 'a packet_state_scheme result" where
  "create_icmp_data ps ip_hdr =
     rbind (get_bytes 0 IP_HDR_LEN ip_hdr) (\<lambda>h.
     rbind (emit h ps) (\<lambda>ps1.
     rbind (get_bytes 0 (if ps_len ps1 < ICMP_DATA_RES then ps_len ps1 else ICMP_DATA_RES)
              (ps_packet ps1)) (\<lambda>d.
       emit d ps1)))"

text \<open>\<^verbatim>\<open>copy_echo_data\<close> leaves \<^verbatim>\<open>response\<close> where it is. Its caller has checked the length.\<close>

definition copy_echo_data :: "'a packet_state_scheme \<Rightarrow> 'a packet_state_scheme result" where
  "copy_echo_data ps =
     (let ps1 = ps\<lparr>ps_len := ps_len ps - ICMP_HDR_LEN, ps_packet := drop ICMP_HDR_LEN (ps_packet ps),
                   ps_res_len := ps_res_len ps + (ps_len ps - ICMP_HDR_LEN)\<rparr>
      in rbind (get_bytes 0 (ps_len ps1) (ps_packet ps1)) (\<lambda>d.
         rbind (put_bytes (ps_response ps1) d (ps_block ps1)) (\<lambda>b.
           Inr (ps1\<lparr>ps_block := b\<rparr>))))"

text \<open>
  The checksum of the message that starts at \<open>head\<close>. The length is what is left of \<^verbatim>\<open>res_len\<close>
  behind an Ethernet and an IP header.
\<close>

definition fill_icmp_sum :: "nat \<Rightarrow> 'a packet_state_scheme \<Rightarrow> 'a packet_state_scheme result" where
  "fill_icmp_sum head ps =
     (let len = ps_res_len ps - ETHER_HDR_LEN - IP_HDR_LEN
      in rbind (put_bytes (head + 2) (store16 0) (ps_block ps)) (\<lambda>b1.
         rbind (cksum (drop head b1) len) (\<lambda>c.
         rbind (put_bytes (head + 2) (store16 (ntohs c)) b1) (\<lambda>b2.
           Inr (ps\<lparr>ps_block := b2\<rparr>)))))"

definition icmp_response ::
  "'a packet_state_scheme \<Rightarrow> bytes \<Rightarrow> u8 \<Rightarrow> u8 \<Rightarrow> 'a packet_state_scheme result" where
  "icmp_response ps ip_hdr type code =
     (let res_head = ps_response ps
      in if type = ICMPT_ECHOREPLY then
           rbind (create_icmp_hdr ps type code) (\<lambda>ps1.
           rbind (get_bytes 4 4 (ps_packet ps)) (\<lambda>opts.
           rbind (put_bytes (res_head + 4) opts (ps_block ps1)) (\<lambda>b.
           rbind (copy_echo_data (ps1\<lparr>ps_block := b\<rparr>)) (fill_icmp_sum res_head))))
         else if type = ICMPT_DESTUN \<or> type = ICMPT_TIMEEX then
           rbind (create_icmp_hdr ps type code) (\<lambda>ps1.
           rbind (create_icmp_data ps1 ip_hdr) (fill_icmp_sum res_head))
         else Inr ps)"

definition handle_icmp :: "'a packet_state_scheme \<Rightarrow> bytes \<Rightarrow> 'a packet_state_scheme result" where
  "handle_icmp ps ip_hdr =
     (if ps_len ps < ICMP_HDR_LEN then Inr ps
      else rbind (get_bytes 0 1 (ps_packet ps)) (\<lambda>t.
        if t = [ICMPT_ECHOREQUEST] then icmp_response ps ip_hdr ICMPT_ECHOREPLY ICMPT_ECHOREPLY
        else icmp_response ps ip_hdr ICMPT_DESTUN ICMPC_PORTUN))"

section \<open>The messages\<close>

text \<open>A message with its checksum filled in, and the test a receiver makes.\<close>

definition summed :: "u16 \<Rightarrow> bytes \<Rightarrow> bytes" where
  "summed c m = take 2 m @ store16 (htons c) @ drop 4 m"

lemma length_summed [simp]: "4 \<le> length m \<Longrightarrow> length (summed c m) = length m"
  by (simp add: summed_def)

lemma cksum_prefix:
  "even (length z) \<Longrightarrow> length z \<le> 65534 \<Longrightarrow> cksum (z @ post) (length z) = cksum z (length z)"
  using cksum_take[of "length z" "z @ post"] by simp

lemma fill_icmp_sum_ok:
  assumes "ps_block ps = pre @ m @ post" "length pre = head" "ps_res_len ps = 34 + length m"
    and "even (length m)" "4 \<le> length m" "length m \<le> 65534"
  shows "\<exists>c. fill_icmp_sum head ps = Inr (ps\<lparr>ps_block := pre @ summed c m @ post\<rparr>) \<and>
     cksum (summed c m) (length m) = Inr 0"
proof -
  let ?z = "take 2 m @ [0, 0] @ drop 4 m"
  have l: "length ?z = length m" using assms(5) by simp
  have "\<exists>c. cksum ?z (length m) = Inr c"
    by (rule cksum_total) (use assms(4-6) in simp_all)
  then obtain c where c: "cksum ?z (length m) = Inr c" ..
  have "cksum (put16 2 (htons c) ?z) (length m) = Inr 0"
    by (rule cksum_stored_zero[OF assms(4) _ assms(6) _ _ _ _ c]) (use assms(5) in \<open>simp_all add: nth_append\<close>)
  moreover have "put16 2 (htons c) ?z = summed c m"
    using assms(5) by (simp add: put16_def summed_def store16_def list_update_append)
  ultimately have ok: "cksum (summed c m) (length m) = Inr 0" by simp
  have "cksum (?z @ post) (length m) = Inr c"
    using cksum_prefix[of ?z post] c l assms(4,6) by (simp only: l)
  with assms ok show ?thesis
    by (intro exI[of _ c])
      (simp add: fill_icmp_sum_def hdr_lens store16_def summed_def Let_def)
qed

lemma emit_ok:
  "ps_block ps = pre @ room \<Longrightarrow> length pre = ps_response ps \<Longrightarrow> length d \<le> length room \<Longrightarrow>
   emit d ps = Inr (ps\<lparr>ps_block := pre @ d @ drop (length d) room,
     ps_response := ps_response ps + length d, ps_res_len := ps_res_len ps + length d\<rparr>)"
  by (simp add: emit_def)

lemma create_icmp_hdr_ok:
  assumes "ps_block ps = pre @ room" "length pre = ps_response ps" "8 \<le> length room"
  shows "create_icmp_hdr ps type code = Inr (ps\<lparr>ps_block := pre @ [type, code, 0, 0, 0, 0, 0, 0] @ drop 8 room,
     ps_response := ps_response ps + 8, ps_res_len := ps_res_len ps + 8\<rparr>)"
proof -
  define d where "d = [type, code, 0, 0, 0, 0, 0, 0]"
  then have l: "length d = 8" by simp
  then show ?thesis unfolding create_icmp_hdr_def d_def[symmetric]
    using emit_ok[OF assms(1,2), of d] assms(3) by simp
qed

text \<open>
  An error message: the header, the IP header of the packet it is about, and the first eight bytes
  behind it (or what there is of them).
\<close>

definition icmp_error :: "u8 \<Rightarrow> u8 \<Rightarrow> bytes \<Rightarrow> bytes \<Rightarrow> bytes" where
  "icmp_error type code ip_hdr data = [type, code, 0, 0, 0, 0, 0, 0] @ take 20 ip_hdr @ take 8 data"

lemma icmp_error_ok:
  assumes "ps_block ps = pre @ room" "length pre = ps_response ps" "ps_res_len ps = 34"
    and "36 \<le> length room" "20 \<le> length ip_hdr" "8 \<le> ps_len ps" "ps_len ps \<le> length (ps_packet ps)"
    and "type = ICMPT_DESTUN \<or> type = ICMPT_TIMEEX"
  shows "\<exists>c. icmp_response ps ip_hdr type code =
     Inr (ps\<lparr>ps_block := pre @ summed c (icmp_error type code ip_hdr (ps_packet ps)) @ drop 36 room,
             ps_response := ps_response ps + 36, ps_res_len := 70\<rparr>) \<and>
     cksum (summed c (icmp_error type code ip_hdr (ps_packet ps))) 36 = Inr 0"
proof -
  let ?m = "icmp_error type code ip_hdr (ps_packet ps)"
  have l: "length ?m = 36" using assms(5-7) by (simp add: icmp_error_def)
  have t: "type \<noteq> ICMPT_ECHOREPLY" using assms(8) by (auto simp: icmp_types)
  define ps2 where "ps2 = ps\<lparr>ps_block := pre @ ?m @ drop 36 room,
     ps_response := ps_response ps + 36, ps_res_len := 70\<rparr>"
  have 1: "create_icmp_hdr ps type code = Inr (ps\<lparr>ps_block := pre @ [type, code, 0, 0, 0, 0, 0, 0] @ drop 8 room,
      ps_response := ps_response ps + 8, ps_res_len := 42\<rparr>)" (is "_ = Inr ?ps1")
    using create_icmp_hdr_ok[OF assms(1,2)] assms(3,4) by simp
  have "create_icmp_data ?ps1 ip_hdr = Inr ps2"
    using assms(2,4-7)
    by (simp add: create_icmp_data_def emit_def hdr_lens icmp_types ps2_def icmp_error_def Let_def)
  with 1 t assms(8) have eq: "icmp_response ps ip_hdr type code = fill_icmp_sum (ps_response ps) ps2"
    by (simp add: icmp_response_def Let_def)
  have "ps_block ps2 = pre @ ?m @ drop 36 room" "ps_res_len ps2 = 34 + length ?m"
    using l by (simp_all add: ps2_def)
  then obtain c where "fill_icmp_sum (ps_response ps) ps2 = Inr (ps2\<lparr>ps_block := pre @ summed c ?m @ drop 36 room\<rparr>)"
      "cksum (summed c ?m) (length ?m) = Inr 0"
    using fill_icmp_sum_ok[of ps2 pre ?m "drop 36 room" "ps_response ps"] assms(2) l by auto
  with eq l show ?thesis by (intro exI[of _ c]) (simp add: ps2_def)
qed

text \<open>An echo reply: the request with type and code 0.\<close>

lemma echo_reply_ok:
  assumes "ps_block ps = pre @ room" "length pre = ps_response ps" "ps_res_len ps = 34"
    and "ps_len ps = length req" "ps_packet ps = req @ rest" "8 \<le> length req" "req ! 0 = 8"
    and "length req \<le> length room" "even (length req)" "length req \<le> 65534"
  shows "\<exists>c. handle_icmp ps ip_hdr = Inr (ps\<lparr>ps_packet := drop 8 (req @ rest), ps_len := length req - 8,
       ps_block := pre @ summed c ([0, 0, 0, 0] @ drop 4 req) @ drop (length req) room,
       ps_response := ps_response ps + 8, ps_res_len := 34 + length req\<rparr>) \<and>
     cksum (summed c ([0, 0, 0, 0] @ drop 4 req)) (length req) = Inr 0"
proof -
  let ?m = "[0, 0, 0, 0] @ drop 4 req"
  have l: "length ?m = length req" using assms(6) by simp
  define ps2 where "ps2 = ps\<lparr>ps_packet := drop 8 (req @ rest), ps_len := length req - 8,
       ps_block := pre @ ?m @ drop (length req) room,
       ps_response := ps_response ps + 8, ps_res_len := 34 + length req\<rparr>"
  have t: "take 1 (req @ rest) = [ICMPT_ECHOREQUEST]"
    using assms(6,7) by (cases req) (simp_all add: icmp_types)
  have 1: "create_icmp_hdr ps 0 0 = Inr (ps\<lparr>ps_block := pre @ [0, 0, 0, 0, 0, 0, 0, 0] @ drop 8 room,
      ps_response := ps_response ps + 8, ps_res_len := 42\<rparr>)" (is "_ = Inr ?ps1")
    using create_icmp_hdr_ok[OF assms(1,2)] assms(3,6,8) by simp
  have d: "drop 4 req = take 4 (drop 4 req) @ drop 8 req"
    by (metis append_take_drop_id drop_drop numeral_Bit0)
  have m: "?m = [0, 0, 0, 0] @ take 4 (drop 4 req) @ drop 8 req" by (subst (1) d) (rule refl)
  have e: "drop (length req) (0 # 0 # 0 # 0 # take 4 (drop 4 req) @ drop 8 room) = drop (length req) room"
  proof -
    define h where "h = [0, 0, 0, 0] @ take 4 (drop 4 req)"
    have "length h = 8" using assms(6) by (simp add: h_def)
    then have "drop (length req) (h @ drop 8 room) = drop (length req) room" using assms(6) by simp
    then show ?thesis by (simp add: h_def)
  qed
  have 2: "copy_echo_data (?ps1\<lparr>ps_block := pre @ [0, 0, 0, 0] @ take 4 (drop 4 req) @ drop 8 room\<rparr>) = Inr ps2"
    using assms(2,4-6,8)
    unfolding ps2_def m by (simp add: copy_echo_data_def icmp_types Let_def e)
  have "handle_icmp ps ip_hdr = fill_icmp_sum (ps_response ps) ps2"
    using 1 2 t assms(2,4-6,8)
    by (simp add: handle_icmp_def icmp_response_def ICMPT_ECHOREPLY_def ICMP_HDR_LEN_def Let_def)
  moreover have "ps_block ps2 = pre @ ?m @ drop (length req) room" "ps_res_len ps2 = 34 + length ?m"
    using l by (simp_all add: ps2_def)
  then obtain c where "fill_icmp_sum (ps_response ps) ps2 =
        Inr (ps2\<lparr>ps_block := pre @ summed c ?m @ drop (length req) room\<rparr>)"
      "cksum (summed c ?m) (length ?m) = Inr 0"
    using fill_icmp_sum_ok[of ps2 pre ?m "drop (length req) room" "ps_response ps"] assms l by auto
  ultimately show ?thesis using l by (intro exI[of _ c]) (simp add: ps2_def)
qed

end
