(* ===== verification/Arp_Queue.thy ===== *)
theory Arp_Queue
  imports Buffers Arp_Cache
begin

text \<open>
  Packets that wait for address resolution, \<^verbatim>\<open>arpq.c\<close>: the list of pending entries, and the
  thread that each entry runs while it has packets. The subsystem's lock serialises the
  critical sections; each step of the model is one of them, or one call of
  \<^verbatim>\<open>search_cache\<close> (which takes the cache's own lock), and the steps of different threads
  interleave. \<^verbatim>\<open>sleep\<close>, \<^verbatim>\<open>malloc\<close> and \<^verbatim>\<open>pthread_create\<close> are taken to succeed.
\<close>

section \<open>State\<close>

text \<open>
  A buffer pointer is a chain of nodes. After a send loop has freed the nodes, the pointer in the
  entry still points to the first of them until the thread clears it: the chain's end is
  dangling.
\<close>

datatype 'a chain = Chain (nodes: "'a list") (dangling: bool)

definition chain_list :: "'a chain \<Rightarrow> 'a list result" where
  "chain_list c = (if dangling c then Inl Use_after_free else Inr (nodes c))"

definition freed :: "'a chain \<Rightarrow> 'a chain" where
  "freed c = Chain [] (nodes c \<noteq> [])"

text \<open>
  Both functions that delete a buffer free its nodes and clear their own copy of the pointer only, so that
  the caller's dangles. (\<^verbatim>\<open>delete_all_pack\<close> has no caller left.)
\<close>

definition delete_all_lsu :: "lsu_buf_ent chain \<Rightarrow> lsu_buf_ent chain result" where
  "delete_all_lsu c = rbind (chain_list c) (\<lambda>_. Inr (freed c))"

definition delete_all_pack :: "packet_buffer chain \<Rightarrow> packet_buffer chain result" where
  "delete_all_pack c = rbind (chain_list c) (\<lambda>_. Inr (freed c))"

lemma delete_twice:
  "delete_all_lsu c = Inr c' \<Longrightarrow> nodes c \<noteq> [] \<Longrightarrow> delete_all_lsu c' = Inl Use_after_free"
  "delete_all_pack d = Inr d' \<Longrightarrow> nodes d \<noteq> [] \<Longrightarrow> delete_all_pack d' = Inl Use_after_free"
  by (auto simp: delete_all_lsu_def delete_all_pack_def rbind_eq_Inr chain_list_def freed_def)

abbreviation null :: "'a chain" where "null \<equiv> Chain [] False"

record arpq =
  q_ip :: u32
  q_num :: int
  q_request :: bytes
  q_request_len :: u16
  q_pac :: "packet_buffer chain"
  q_lsu :: "lsu_buf_ent chain"
  q_iface :: string

text \<open>
  Where a thread is in \<^verbatim>\<open>arp_req_init\<close>: before the first request, at the head of the loop with the
  value of \<^verbatim>\<open>i\<close>, after a search that found a MAC or found none, before the last critical
  section, or ended.
\<close>

datatype arp_pc = Start | Loop nat | Found nat mac | Missed nat | Finish nat | Done

record arp_state =
  st_pending :: "arpq list"
  st_threads :: "(nat \<times> arp_pc) list"
  st_cache :: "arp_cache_entry list"
  st_sent :: "frame list"

definition MAX_ARP_REQUESTS :: nat where "MAX_ARP_REQUESTS = 5"
definition LSU_TYPE :: int where "LSU_TYPE = 1"

definition arp_init :: arp_state where
  "arp_init = \<lparr>st_pending = [], st_threads = [], st_cache = [], st_sent = []\<rparr>"

section \<open>Queueing a packet\<close>

primrec get_entry :: "arpq list \<Rightarrow> u32 \<Rightarrow> nat option" where
  "get_entry [] next_hop = None"
| "get_entry (e # es) next_hop =
     (if q_ip e = next_hop then Some 0 else map_option Suc (get_entry es next_hop))"

definition create_entry :: "sr_if list \<Rightarrow> arpq list \<Rightarrow> u32 \<Rightarrow> string \<Rightarrow> arpq list result" where
  "create_entry ifs pending next_hop iface =
     rbind (construct_request ifs iface next_hop) (\<lambda>req.
       Inr (pending @ [\<lparr>q_ip = next_hop, q_num = 0, q_request = req,
                        q_request_len = of_nat (ETHER_HDR_LEN + ARP_HDR_LEN),
                        q_pac = null, q_lsu = null, q_iface = strncpy_name iface\<rparr>]))"

text \<open>
  \<^verbatim>\<open>add_to_lsu_buff\<close> puts the new node in front and never follows the old pointer;
  \<^verbatim>\<open>add_to_pack_buff\<close> walks to the end of the chain.
\<close>

definition buffer_packet :: "int \<Rightarrow> arpq \<Rightarrow> bytes \<Rightarrow> u16 \<Rightarrow> bytes \<Rightarrow> arpq result" where
  "buffer_packet ty e packet len hdr =
     (if ty = LSU_TYPE then
        rbind (add_to_lsu_buff (nodes (q_lsu e)) packet len) (\<lambda>ns.
          Inr (e\<lparr>q_lsu := Chain ns (dangling (q_lsu e))\<rparr>))
      else
        rbind (chain_list (q_pac e)) (\<lambda>old.
        rbind (add_to_pack_buff old packet len hdr) (\<lambda>ns.
          Inr (e\<lparr>q_pac := Chain ns False\<rparr>))))"

definition get_mac_address ::
  "sr_if list \<Rightarrow> arp_state \<Rightarrow> u32 \<Rightarrow> bytes \<Rightarrow> u16 \<Rightarrow> string \<Rightarrow> int \<Rightarrow> bytes \<Rightarrow> arp_state result" where
  "get_mac_address ifs s next_hop packet len iface ty hdr =
     (case get_entry (st_pending s) next_hop of
        Some k \<Rightarrow>
          let e = st_pending s ! k in
          if 0 \<le> q_num e then
            rbind (buffer_packet ty e packet len hdr) (\<lambda>e'.
              Inr (s\<lparr>st_pending := (st_pending s)[k := e']\<rparr>))
          else
            rbind (buffer_packet ty e packet len hdr) (\<lambda>e'.
              Inr (s\<lparr>st_pending := (st_pending s)[k := e'\<lparr>q_num := 0\<rparr>],
                     st_threads := st_threads s @ [(k, Start)]\<rparr>))
      | None \<Rightarrow>
          rbind (create_entry ifs (st_pending s) next_hop iface) (\<lambda>pending'.
          let k = length (st_pending s) in
          rbind (buffer_packet ty (pending' ! k) packet len hdr) (\<lambda>e'.
            Inr (s\<lparr>st_pending := pending'[k := e'],
                   st_threads := st_threads s @ [(k, Start)]\<rparr>))))"

section \<open>The thread\<close>

definition set_pc :: "arp_state \<Rightarrow> nat \<Rightarrow> arp_pc \<Rightarrow> arp_state" where
  "set_pc s t pc = s\<lparr>st_threads := (st_threads s)[t := (fst (st_threads s ! t), pc)]\<rparr>"

definition send_request :: "sr_if list \<Rightarrow> arpq \<Rightarrow> frame list result" where
  "send_request ifs e = sr_send_packet ifs (q_request e) (unat (q_request_len e)) (q_iface e)"

definition send_buffered :: "sr_if list \<Rightarrow> arpq \<Rightarrow> mac \<Rightarrow> frame list result" where
  "send_buffered ifs e mac =
     rbind (chain_list (q_pac e)) (\<lambda>ps.
     rbind (send_all_packs ps mac (q_iface e) ifs) (\<lambda>out1.
     rbind (chain_list (q_lsu e)) (\<lambda>ls.
     rbind (send_all_lsus ls mac (q_iface e) ifs) (\<lambda>out2. Inr (out1 @ out2)))))"

definition give_up :: "sr_if list \<Rightarrow> bytes \<Rightarrow> arpq \<Rightarrow> frame list result" where
  "give_up ifs blk e =
     rbind (chain_list (q_pac e)) (\<lambda>ps.
     rbind (send_all_icmps ps blk ifs) (\<lambda>out.
     rbind (delete_all_lsu (q_lsu e)) (\<lambda>_. Inr out)))"

definition thread_step :: "sr_if list \<Rightarrow> bytes \<Rightarrow> time \<Rightarrow> arp_state \<Rightarrow> nat \<Rightarrow> arp_state result" where
  "thread_step ifs blk now s t =
     (case st_threads s ! t of (k, pc) \<Rightarrow>
      let e = st_pending s ! k in
      (case pc of
         Start \<Rightarrow>
           rbind (send_request ifs e) (\<lambda>out.
             Inr (set_pc (s\<lparr>st_sent := st_sent s @ out\<rparr>) t (Loop 1)))
       | Loop i \<Rightarrow>
           if 0 < i \<and> i < MAX_ARP_REQUESTS then
             (case search_cache (st_cache s) now (q_ip e) of
                (c, Some mac) \<Rightarrow> Inr (set_pc (s\<lparr>st_cache := c\<rparr>) t (Found i mac))
              | (c, None) \<Rightarrow> Inr (set_pc (s\<lparr>st_cache := c\<rparr>) t (Missed i)))
           else Inr (set_pc s t (Finish i))
       | Found i mac \<Rightarrow>
           rbind (send_buffered ifs e mac) (\<lambda>out.
             Inr (set_pc (s\<lparr>st_pending := (st_pending s)[k := e\<lparr>q_pac := freed (q_pac e),
                                                             q_lsu := freed (q_lsu e)\<rparr>],
                            st_sent := st_sent s @ out\<rparr>) t (Loop 0)))
       | Missed i \<Rightarrow>
           rbind (send_request ifs e) (\<lambda>out.
             Inr (set_pc (s\<lparr>st_pending := (st_pending s)[k := e\<lparr>q_num := q_num e + 1\<rparr>],
                            st_sent := st_sent s @ out\<rparr>) t (Loop (i + 1))))
       | Finish i \<Rightarrow>
           rbind (if 0 < i then give_up ifs blk e else Inr []) (\<lambda>out.
             Inr (set_pc (s\<lparr>st_pending := (st_pending s)[k := e\<lparr>q_num := - 1, q_pac := null,
                                                             q_lsu := null\<rparr>],
                            st_sent := st_sent s @ out\<rparr>) t Done))
       | Done \<Rightarrow> Inr s))"

text \<open>The interleavings: calls of \<^verbatim>\<open>get_mac_address\<close>, thread steps at any time, cache insertions.\<close>

inductive arp_run :: "sr_if list \<Rightarrow> arp_state \<Rightarrow> bool" for ifs where
  init: "arp_run ifs arp_init"
| get_mac: "arp_run ifs s \<Longrightarrow> get_mac_address ifs s next_hop packet len iface ty hdr = Inr s' \<Longrightarrow>
    arp_run ifs s'"
| thread: "arp_run ifs s \<Longrightarrow> t < length (st_threads s) \<Longrightarrow> thread_step ifs blk now s t = Inr s' \<Longrightarrow>
    arp_run ifs s'"
| cache: "arp_run ifs s \<Longrightarrow> add_cache_entry (st_cache s) now ip mac = Inr c \<Longrightarrow>
    arp_run ifs (s\<lparr>st_cache := c\<rparr>)"

section \<open>The invariant\<close>

definition running :: "arp_state \<Rightarrow> nat \<Rightarrow> nat \<Rightarrow> bool" where
  "running s t k \<longleftrightarrow> t < length (st_threads s) \<and> fst (st_threads s ! t) = k \<and> snd (st_threads s ! t) \<noteq> Done"

definition clean :: "arpq \<Rightarrow> bool" where
  "clean e \<longleftrightarrow> \<not> dangling (q_pac e) \<and> \<not> dangling (q_lsu e)"

definition entry_idle :: "arpq \<Rightarrow> bool" where
  "entry_idle e \<longleftrightarrow> q_num e = - 1 \<and> q_pac e = null \<and> q_lsu e = null"

text \<open>
  What an entry looks like for each place its thread can be in: the number of requests behind the
  first is \<open>i - 1\<close>, and a buffer dangles only between the send and the end.
\<close>

fun pc_ok :: "arpq \<Rightarrow> arp_pc \<Rightarrow> bool" where
  "pc_ok e Start = (q_num e = 0 \<and> clean e)"
| "pc_ok e (Loop i) = (if i = 0 then 0 \<le> q_num e \<and> q_num e \<le> 3
                       else i \<le> 5 \<and> q_num e = int i - 1 \<and> clean e)"
| "pc_ok e (Found i mac) = (0 < i \<and> i < 5 \<and> q_num e = int i - 1 \<and> clean e)"
| "pc_ok e (Missed i) = (0 < i \<and> i < 5 \<and> q_num e = int i - 1 \<and> clean e)"
| "pc_ok e (Finish i) = (if i = 0 then 0 \<le> q_num e \<and> q_num e \<le> 3
                         else i = 5 \<and> q_num e = 4 \<and> clean e)"
| "pc_ok e Done = True"

definition arp_ok :: "arp_state \<Rightarrow> bool" where
  "arp_ok s \<longleftrightarrow> distinct (map q_ip (st_pending s)) \<and>
     (\<forall>t < length (st_threads s). fst (st_threads s ! t) < length (st_pending s) \<and>
        pc_ok (st_pending s ! fst (st_threads s ! t)) (snd (st_threads s ! t))) \<and>
     (\<forall>k t t'. running s t k \<and> running s t' k \<longrightarrow> t = t') \<and>
     (\<forall>k < length (st_pending s). (\<exists>t. running s t k) \<or> entry_idle (st_pending s ! k))"

lemma arp_okD:
  assumes "arp_ok s"
  shows "distinct (map q_ip (st_pending s))"
    and "\<And>t. t < length (st_threads s) \<Longrightarrow> fst (st_threads s ! t) < length (st_pending s)"
    and "\<And>t. t < length (st_threads s) \<Longrightarrow>
          pc_ok (st_pending s ! fst (st_threads s ! t)) (snd (st_threads s ! t))"
    and "\<And>k t t'. running s t k \<Longrightarrow> running s t' k \<Longrightarrow> t = t'"
    and "\<And>k. k < length (st_pending s) \<Longrightarrow> (\<exists>t. running s t k) \<or> entry_idle (st_pending s ! k)"
  using assms unfolding arp_ok_def by blast+

lemma pc_ok_num: "pc_ok e pc \<Longrightarrow> pc \<noteq> Done \<Longrightarrow> 0 \<le> q_num e \<and> q_num e \<le> 4"
  by (cases pc) (auto split: if_splits)

lemma running_num: "arp_ok s \<Longrightarrow> running s t k \<Longrightarrow> 0 \<le> q_num (st_pending s ! k) \<and> q_num (st_pending s ! k) \<le> 4"
  using arp_okD(3)[of s t] pc_ok_num by (auto simp: running_def)

lemma map_update_same: "k < length xs \<Longrightarrow> f e = f (xs ! k) \<Longrightarrow> map f (xs[k := e]) = map f xs"
  by (simp add: map_update list_update_same_conv)

text \<open>A step of a running thread that updates only its own entry.\<close>

lemma arp_ok_own:
  assumes ok: "arp_ok s" and t: "t < length (st_threads s)" "st_threads s ! t = (k, pc)" "pc \<noteq> Done"
    and e: "q_ip e' = q_ip (st_pending s ! k)" "pc_ok e' pc'" "pc' = Done \<Longrightarrow> entry_idle e'"
    and s': "st_pending s' = (st_pending s)[k := e']" "st_threads s' = (st_threads s)[t := (k, pc')]"
  shows "arp_ok s'"
proof -
  note D = arp_okD[OF ok]
  have k: "k < length (st_pending s)" using D(2)[OF t(1)] t(2) by simp
  have lk: "running s t k" using t by (simp add: running_def)
  have others: "snd (st_threads s ! u) = Done"
    if "u < length (st_threads s)" "u \<noteq> t" "fst (st_threads s ! u) = k" for u
    using D(4)[OF lk, of u] that by (auto simp: running_def)
  have running': "running s' u j \<longleftrightarrow> (if u = t then j = k \<and> pc' \<noteq> Done else running s u j)" for u j
    using t by (auto simp: running_def s' nth_list_update)
  show ?thesis
    unfolding arp_ok_def
  proof (intro conjI allI impI)
    show "distinct (map q_ip (st_pending s'))"
      using D(1) map_update_same[OF k, of q_ip e'] e(1) by (simp add: s')
  next
    fix u assume "u < length (st_threads s')"
    then show "fst (st_threads s' ! u) < length (st_pending s')"
      using D(2) k by (cases "u = t") (simp_all add: s')
  next
    fix u assume u: "u < length (st_threads s')"
    then show "pc_ok (st_pending s' ! fst (st_threads s' ! u)) (snd (st_threads s' ! u))"
      using D(3)[of u] others[of u] e(2) k t
      by (cases "u = t"; cases "fst (st_threads s ! u) = k") (auto simp: s')
  next
    fix j u v assume "running s' u j \<and> running s' v j"
    then show "u = v" using D(4) lk by (auto simp: running' split: if_splits)
  next
    fix j assume j: "j < length (st_pending s')"
    show "(\<exists>u. running s' u j) \<or> entry_idle (st_pending s' ! j)"
    proof (cases "j = k")
      case True
      then show ?thesis using e(3) k by (cases "pc' = Done") (auto simp: running' s')
    next
      case False
      have "running s' u j" if "running s u j" for u
        using that False lk running' by (auto simp: running_def)
      then show ?thesis using D(5)[of j] j False by (auto simp: s')
    qed
  qed
qed

text \<open>A packet for an entry that has a thread.\<close>

lemma arp_ok_enqueue:
  assumes ok: "arp_ok s" and k: "k < length (st_pending s)" "\<exists>t. running s t k"
    and e: "q_ip e' = q_ip (st_pending s ! k)" "\<And>pc. pc_ok (st_pending s ! k) pc \<Longrightarrow> pc_ok e' pc"
  shows "arp_ok (s\<lparr>st_pending := (st_pending s)[k := e']\<rparr>)"
proof -
  note D = arp_okD[OF ok]
  have running': "running (s\<lparr>st_pending := (st_pending s)[k := e']\<rparr>) u j = running s u j" for u j
    by (simp add: running_def)
  show ?thesis
    using D k e map_update_same[OF k(1), of q_ip e']
    by (auto simp: arp_ok_def running' nth_list_update)
qed

text \<open>A thread starts for an entry that has none.\<close>

lemma arp_ok_spawn:
  assumes ok: "arp_ok s" and k: "\<And>t. \<not> running s t k"
    and p: "k < length (st_pending s')" "distinct (map q_ip (st_pending s'))"
      "length (st_pending s) \<le> length (st_pending s')"
      "\<And>j. j < length (st_pending s') \<Longrightarrow> j \<noteq> k \<Longrightarrow>
         j < length (st_pending s) \<and> st_pending s' ! j = st_pending s ! j"
    and e: "pc_ok (st_pending s' ! k) Start"
    and t: "st_threads s' = st_threads s @ [(k, Start)]"
  shows "arp_ok s'"
proof -
  note D = arp_okD[OF ok]
  let ?n = "length (st_threads s)"
  have running': "running s' u j \<longleftrightarrow> (if u = ?n then j = k else running s u j)" for u j
    by (auto simp: running_def t nth_append)
  have done_k: "snd (st_threads s ! u) = Done" if "u < ?n" "fst (st_threads s ! u) = k" for u
    using k[of u] that by (auto simp: running_def)
  show ?thesis
    unfolding arp_ok_def
  proof (intro conjI allI impI)
    show "distinct (map q_ip (st_pending s'))" by fact
  next
    fix u assume "u < length (st_threads s')"
    then show "fst (st_threads s' ! u) < length (st_pending s')"
      using D(2)[of u] p(1,3) by (cases "u = ?n") (auto simp: t nth_append)
  next
    fix u assume u: "u < length (st_threads s')"
    show "pc_ok (st_pending s' ! fst (st_threads s' ! u)) (snd (st_threads s' ! u))"
    proof (cases "u = ?n")
      case False
      with u have "u < ?n" by (simp add: t)
      moreover from this have "fst (st_threads s ! u) < length (st_pending s')"
        using D(2)[of u] p(3) by simp
      ultimately show ?thesis
        using D(3)[of u] done_k[of u] p(4)
        by (cases "fst (st_threads s ! u) = k") (auto simp: t nth_append)
    qed (use e in \<open>simp add: t\<close>)
  next
    fix j u v assume "running s' u j \<and> running s' v j"
    then show "u = v" using D(4) k by (auto simp: running' split: if_splits)
  next
    fix j assume j: "j < length (st_pending s')"
    have "running s' ?n k" by (simp add: running')
    moreover have "running s' u j" if "running s u j" for u
      using that running'[of u j] by (auto simp: running_def)
    ultimately show "(\<exists>u. running s' u j) \<or> entry_idle (st_pending s' ! j)"
      using D(5)[of j] p(4)[of j] j by (cases "j = k") auto
  qed
qed

section \<open>Every step keeps the invariant\<close>

lemma get_entry_None: "get_entry p ip = None \<longleftrightarrow> ip \<notin> q_ip ` set p"
  by (induction p) auto

lemma get_entry_Some: "get_entry p ip = Some k \<Longrightarrow> k < length p \<and> q_ip (p ! k) = ip"
  by (induction p arbitrary: k) (auto split: if_splits)

lemma buffer_packet_fields:
  assumes "buffer_packet ty e packet len hdr = Inr e'"
  shows "q_ip e' = q_ip e" "q_num e' = q_num e" "clean e \<Longrightarrow> clean e'"
  using assms by (auto simp: buffer_packet_def rbind_eq_Inr clean_def split: if_splits)

lemma buffer_packet_pc_ok:
  assumes "buffer_packet ty e packet len hdr = Inr e'"
  shows "pc_ok e pc \<Longrightarrow> pc_ok e' pc"
  using buffer_packet_fields[OF assms] by (cases pc) (auto split: if_splits)

lemma idle_clean: "entry_idle e \<Longrightarrow> clean e"
  by (simp add: entry_idle_def clean_def)

lemma get_mac_address_ok:
  assumes ok: "arp_ok s" and step: "get_mac_address ifs s ip packet len iface ty hdr = Inr s'"
  shows "arp_ok s'"
proof (cases "get_entry (st_pending s) ip")
  case (Some k)
  let ?e = "st_pending s ! k"
  have k: "k < length (st_pending s)" using get_entry_Some[OF Some] by simp
  obtain e' where e': "buffer_packet ty ?e packet len hdr = Inr e'"
    using step Some by (auto simp: get_mac_address_def rbind_eq_Inr Let_def split: if_splits)
  note F = buffer_packet_fields[OF e']
  show ?thesis
  proof (cases "0 \<le> q_num ?e")
    case True
    then have "\<exists>t. running s t k" using arp_okD(5)[OF ok k] by (auto simp: entry_idle_def)
    from arp_ok_enqueue[OF ok k this F(1) buffer_packet_pc_ok[OF e']] show ?thesis
      using step Some True e' by (simp add: get_mac_address_def Let_def)
  next
    case False
    then have nl: "\<not> running s t k" for t using running_num[OF ok, of t k] by auto
    then have "entry_idle ?e" using arp_okD(5)[OF ok k] by auto
    then have "pc_ok (e'\<lparr>q_num := 0\<rparr>) Start" using F(3) idle_clean by (simp add: clean_def)
    then show ?thesis
      using step Some False e' k F(1) arp_okD(1)[OF ok] map_update_same[OF k, of q_ip "e'\<lparr>q_num := 0\<rparr>"]
      by (intro arp_ok_spawn[OF ok nl]) (auto simp: get_mac_address_def Let_def)
  qed
next
  case None
  let ?n = "length (st_pending s)"
  obtain req e' where e': "buffer_packet ty \<lparr>q_ip = ip, q_num = 0, q_request = req,
       q_request_len = of_nat (ETHER_HDR_LEN + ARP_HDR_LEN), q_pac = null, q_lsu = null,
       q_iface = strncpy_name iface\<rparr> packet len hdr = Inr e'"
    and s': "s' = s\<lparr>st_pending := st_pending s @ [e'], st_threads := st_threads s @ [(?n, Start)]\<rparr>"
    using step None by (auto simp: get_mac_address_def create_entry_def rbind_eq_Inr Let_def)
  note F = buffer_packet_fields[OF e']
  have nl: "\<not> running s t ?n" for t using arp_okD(2)[OF ok, of t] by (auto simp: running_def)
  have "distinct (map q_ip (st_pending s @ [e']))"
    using arp_okD(1)[OF ok] None F(1) by (auto simp: get_entry_None)
  then show ?thesis
    using F by (intro arp_ok_spawn[OF ok nl]) (auto simp: s' nth_append clean_def)
qed

lemma thread_step_ok:
  assumes ok: "arp_ok s" and t: "t < length (st_threads s)"
    and step: "thread_step ifs blk now s t = Inr s'"
  shows "arp_ok s'"
proof -
  obtain k pc where kp: "st_threads s ! t = (k, pc)" by force
  let ?e = "st_pending s ! k"
  have pc: "pc_ok ?e pc" using arp_okD(3)[OF ok t] kp by simp
  have k: "k < length (st_pending s)" using arp_okD(2)[OF ok t] kp by simp
  note own = arp_ok_own[OF ok t kp]
  note S = thread_step_def set_pc_def rbind_eq_Inr MAX_ARP_REQUESTS_def Let_def kp
  show ?thesis
  proof (cases pc)
    case Start
    then show ?thesis using step pc k by (intro own[of ?e "Loop 1"]) (auto simp: S)
  next
    case (Loop i)
    show ?thesis
    proof (cases "0 < i \<and> i < 5")
      case True
      obtain c r where c: "search_cache (st_cache s) now (q_ip ?e) = (c, r)" by force
      with True Loop step pc k show ?thesis
        by (cases r; intro own[of ?e "case r of None \<Rightarrow> Missed i | Some m \<Rightarrow> Found i m"]) (auto simp: S)
    next
      case False
      with Loop step pc k show ?thesis by (intro own[of ?e "Finish i"]) (auto simp: S split: if_splits)
    qed
  next
    case (Found i m)
    then show ?thesis using step pc k
      by (intro own[of "?e\<lparr>q_pac := freed (q_pac ?e), q_lsu := freed (q_lsu ?e)\<rparr>" "Loop 0"]) (auto simp: S)
  next
    case (Missed i)
    then show ?thesis using step pc k
      by (intro own[of "?e\<lparr>q_num := q_num ?e + 1\<rparr>" "Loop (i + 1)"]) (auto simp: S clean_def)
  next
    case (Finish i)
    then show ?thesis using step pc k
      by (intro own[of "?e\<lparr>q_num := - 1, q_pac := null, q_lsu := null\<rparr>" Done])
        (auto simp: S entry_idle_def)
  next
    case Done
    then show ?thesis using step ok by (simp add: S)
  qed
qed

lemma arp_run_ok: "arp_run ifs s \<Longrightarrow> arp_ok s"
proof (induction rule: arp_run.induct)
  case init
  show ?case by (simp add: arp_ok_def arp_init_def running_def)
next
  case cache
  then show ?case by (auto simp: arp_ok_def running_def)
qed (rule get_mac_address_ok thread_step_ok, assumption+)+

text \<open>The state after one packet for next hop 9 has been queued.\<close>

definition race_entry :: arpq where
  "race_entry = \<lparr>q_ip = 9, q_num = 0,
    q_request = arp_frame (replicate 6 0xFF) (if_addr sample_if) 1 (if_addr sample_if) (if_ip sample_if)
      (replicate 6 0) 9, q_request_len = 42,
    q_pac = Chain [\<lparr>pb_packet = replicate 14 0, pb_len = 14, pb_old_eth = replicate 14 0\<rparr>] False,
    q_lsu = null, q_iface = strncpy_name ''eth0''\<rparr>"

definition race_state :: arp_state where
  "race_state = \<lparr>st_pending = [race_entry], st_threads = [(0, Start)], st_cache = [], st_sent = []\<rparr>"

lemma arp_run_race_state: "arp_run [sample_if] race_state"
proof -
  have g: "sr_get_interface [sample_if] ''eth0'' = Some sample_if" "length (if_addr sample_if) = 6"
    by (simp_all add: sample_if_def)
  have "get_mac_address [sample_if] arp_init 9 (replicate 14 0) 14 ''eth0'' 0 (replicate 14 0) = Inr race_state"
    by (simp add: get_mac_address_def arp_init_def create_entry_def construct_request_frame[OF g] hdr_lens
        arp_consts buffer_packet_def LSU_TYPE_def chain_list_def add_to_pack_buff_def Let_def
        race_state_def race_entry_def)
  then show ?thesis by (rule arp_run.get_mac[OF arp_run.init])
qed

text \<open>
  C15. The ARP threads under every interleaving. There is at most one entry per next hop; an entry
  has a running thread exactly when its request counter is not negative, and then exactly
  one; the counter never passes \<^verbatim>\<open>MAX_ARP_REQUESTS\<close> - 1; and an entry without a thread holds no
  packets.
\<close>
theorem arp_run_threads:
  assumes "arp_run ifs s" and "k < length (st_pending s)"
  shows "distinct (map q_ip (st_pending s)) \<and>
     (0 \<le> q_num (st_pending s ! k) \<longleftrightarrow> (\<exists>!t. running s t k)) \<and>
     q_num (st_pending s ! k) < 5 \<and>
     ((\<forall>t. \<not> running s t k) \<longrightarrow> q_pac (st_pending s ! k) = null \<and> q_lsu (st_pending s ! k) = null)"
proof -
  note ok = arp_run_ok[OF assms(1)]
  note D = arp_okD[OF ok]
  have "(\<exists>t. running s t k) \<or> entry_idle (st_pending s ! k)" using D(5) assms(2) .
  then show ?thesis
    using D(1) D(4)[of _ k] running_num[OF ok, of _ k] by (fastforce simp: entry_idle_def)
qed

theorem arp_run_threads_witness:
  "\<exists>!t. running race_state t 0"
proof -
  have "0 < length (st_pending race_state)" "0 \<le> q_num (st_pending race_state ! 0)"
    by (simp_all add: race_state_def race_entry_def)
  with arp_run_threads[OF arp_run_race_state, of 0] show ?thesis by blast
qed

section \<open>One thread from start to end\<close>

primrec thread_steps :: "sr_if list \<Rightarrow> bytes \<Rightarrow> time list \<Rightarrow> arp_state \<Rightarrow> nat \<Rightarrow> arp_state result" where
  "thread_steps ifs blk [] s t = Inr s"
| "thread_steps ifs blk (now # ts) s t =
     rbind (thread_step ifs blk now s t) (\<lambda>s'. thread_steps ifs blk ts s' t)"

lemma thread_steps_append:
  "thread_steps ifs blk (xs @ ys) s t =
   rbind (thread_steps ifs blk xs s t) (\<lambda>s'. thread_steps ifs blk ys s' t)"
proof (induction xs arbitrary: s)
  case (Cons x xs)
  then show ?case by (cases "thread_step ifs blk x s t") simp_all
qed simp

text \<open>The state in which entry \<open>k\<close> is \<open>e\<close> and its thread \<open>t\<close> is at \<open>pc\<close>.\<close>

definition at_pc :: "arp_state \<Rightarrow> nat \<Rightarrow> nat \<Rightarrow> arpq \<Rightarrow> arp_cache_entry list \<Rightarrow> frame list \<Rightarrow> arp_pc \<Rightarrow> arp_state" where
  "at_pc s t k e c out pc =
     s\<lparr>st_pending := (st_pending s)[k := e], st_threads := (st_threads s)[t := (k, pc)],
       st_cache := c, st_sent := out\<rparr>"

lemma at_pc_self:
  "t < length (st_threads s) \<Longrightarrow> st_threads s ! t = (k, pc) \<Longrightarrow>
   at_pc s t k (st_pending s ! k) (st_cache s) (st_sent s) pc = s"
  by (cases s) (simp add: at_pc_def, metis list_update_id)

text \<open>A failed check and the request after it.\<close>

lemma step_missed:
  assumes "t < length (st_threads s)" "k < length (st_pending s)" "0 < i" "i < 5"
    and "snd (search_cache c t1 (q_ip e)) = None" and "send_request ifs e = Inr r"
  shows "thread_steps ifs blk [t1, t2] (at_pc s t k e c out (Loop i)) t =
    Inr (at_pc s t k (e\<lparr>q_num := q_num e + 1\<rparr>) (fst (search_cache c t1 (q_ip e))) (out @ r) (Loop (i + 1)))"
  using assms
  by (cases "search_cache c t1 (q_ip e)")
    (simp add: at_pc_def thread_step_def set_pc_def MAX_ARP_REQUESTS_def Let_def)

lemma search_None_again:
  "snd (search_cache c t1 ip) = None \<Longrightarrow> snd (search_cache c t2 ip) = None \<Longrightarrow>
   snd (search_cache (fst (search_cache c t1 ip')) t2 ip) = None"
  by (auto simp: search_cache_view search_cache_def check_cache_invalid_filter cachew.lookup_None Let_def)

lemma send_request_num [simp]: "send_request ifs (e\<lparr>q_num := n\<rparr>) = send_request ifs e"
  by (simp add: send_request_def)

lemma steps_missed:
  assumes "t < length (st_threads s)" "k < length (st_pending s)" "0 < i" "i + n \<le> 5"
    and "length ts = 2 * n" and "\<forall>u \<in> set ts. snd (search_cache c u (q_ip e)) = None"
    and "send_request ifs e = Inr r"
  shows "\<exists>c'. thread_steps ifs blk ts (at_pc s t k e c out (Loop i)) t =
    Inr (at_pc s t k (e\<lparr>q_num := q_num e + int n\<rparr>) c' (out @ concat (replicate n r)) (Loop (i + n)))"
  using assms(3-)
proof (induction n arbitrary: ts i e c out)
  case (Suc n)
  then obtain t1 t2 us where ts: "ts = t1 # t2 # us" "length us = 2 * n"
    by (cases ts; cases "tl ts") auto
  let ?c = "fst (search_cache c t1 (q_ip e))" and ?e = "e\<lparr>q_num := q_num e + 1\<rparr>"
  have "\<forall>u \<in> set us. snd (search_cache ?c u (q_ip ?e)) = None"
    using Suc.prems(4) ts search_None_again by auto
  then obtain c' where "thread_steps ifs blk us (at_pc s t k ?e ?c (out @ r) (Loop (i + 1))) t =
      Inr (at_pc s t k (?e\<lparr>q_num := q_num ?e + int n\<rparr>) c' ((out @ r) @ concat (replicate n r)) (Loop (i + 1 + n)))"
    using Suc.IH[of "i + 1" us ?c ?e "out @ r"] Suc.prems ts by auto
  moreover have "thread_steps ifs blk [t1, t2] (at_pc s t k e c out (Loop i)) t =
      Inr (at_pc s t k ?e ?c (out @ r) (Loop (i + 1)))"
    using step_missed[OF assms(1,2), of i c t1 e] Suc.prems ts by auto
  ultimately show ?case
    using thread_steps_append[of ifs blk "[t1, t2]" us] by (auto simp: ts algebra_simps)
qed (auto simp: at_pc_def)


definition sample_entry :: arpq where
  "sample_entry = \<lparr>q_ip = 9, q_num = 0,
     q_request = arp_frame (replicate 6 0xFF) [1, 2, 3, 4, 5, 6] 1 [1, 2, 3, 4, 5, 6] 1 (replicate 6 0) 9,
     q_request_len = 42, q_pac = null, q_lsu = null, q_iface = ''eth0''\<rparr>"

lemma sample_request: "\<exists>r. send_request [sample_if] sample_entry = Inr r"
  by (auto simp: send_request_def sr_send_packet_def sample_entry_def arp_frame_def hdr_lens)




section \<open>The window between the send and the end\<close>

text \<open>No operation of the buffers or the ICMP errors reads freed memory by itself.\<close>

lemma no_uaf_basic [simp]:
  "get_bytes k n b \<noteq> Inl Use_after_free" "put_bytes k b d \<noteq> Inl Use_after_free"
  "sr_send_packet ifs b n i \<noteq> Inl Use_after_free"
  by (auto simp: get_bytes_def put_bytes_def sr_send_packet_def)

lemma cksum_loop_no_uaf: "cksum_loop buff len i acc \<noteq> Inl Use_after_free"
proof (induction buff len i acc rule: cksum_loop.induct)
  case (1 buff len i acc)
  then show ?case by (subst cksum_loop.simps) auto
qed

lemma cksum_no_uaf [simp]: "cksum b n \<noteq> Inl Use_after_free"
  by (simp add: cksum_def rbind_eq_Inl cksum_loop_no_uaf)

lemma send_icmp_no_uaf [simp]: "send_icmp ifs blk p n eth \<noteq> Inl Use_after_free"
  by (auto simp: send_icmp_def icmp_message_def icmp_ip_header_def Let_def rbind_eq_Inl split: option.splits)

lemma send_loops_no_uaf [simp]:
  "send_all_packs ps mac i ifs \<noteq> Inl Use_after_free"
  "send_all_icmps ps blk ifs \<noteq> Inl Use_after_free"
  by (induction ps) (auto simp: rbind_eq_Inl send_to_mac_def)

lemma send_lsus_no_uaf [simp]: "send_all_lsus ls mac i ifs \<noteq> Inl Use_after_free"
  by (induction ls) (auto simp: rbind_eq_Inl send_to_mac_def)

lemma buffer_packet_uaf:
  "buffer_packet ty e packet len hdr = Inl Use_after_free \<longleftrightarrow> ty \<noteq> LSU_TYPE \<and> dangling (q_pac e)"
  by (auto simp: buffer_packet_def rbind_eq_Inl chain_list_def add_to_lsu_buff_def add_to_pack_buff_def)

lemma chain_list_clean [simp]: "clean e \<Longrightarrow> chain_list (q_pac e) = Inr (nodes (q_pac e))"
  "clean e \<Longrightarrow> chain_list (q_lsu e) = Inr (nodes (q_lsu e))"
  by (simp_all add: clean_def chain_list_def)



text \<open>
  And there it happens: two packets for the same next hop, the second arriving after the
  thread has sent and freed the first and released the lock, make \<^verbatim>\<open>add_to_pack_buff\<close> walk
  a freed node.
\<close>
theorem arp_race:
  "\<exists>s. arp_run [sample_if] s \<and>
       get_mac_address [sample_if] s 9 (replicate 14 0) 14 ''eth0'' 0 (replicate 14 0) = Inl Use_after_free"
proof -
  let ?ifs = "[sample_if]" and ?m = "[6, 6, 6, 6, 6, 6] :: mac"
  let ?c = "[\<lparr>ip_add = 9, ac_mac = ?m, timenotvalid = 115\<rparr>]"
  let ?e = race_entry
  have f: "st_pending race_state = [?e]" "st_threads race_state = [(0, Start)]" "st_cache race_state = []"
      "q_ip ?e = 9" "q_num ?e = 0" "q_request_len ?e = 42" "length (q_request ?e) = 42"
      "q_pac ?e = Chain [\<lparr>pb_packet = replicate 14 0, pb_len = 14, pb_old_eth = replicate 14 0\<rparr>] False"
      "q_lsu ?e = null"
    by (simp_all add: race_state_def race_entry_def arp_frame_def sample_if_def)
  note r1 = arp_run_race_state
  have "\<exists>r. send_request ?ifs ?e = Inr r"
    using f by (auto simp: send_request_def sr_send_packet_def hdr_lens)
  then obtain r where r: "send_request ?ifs ?e = Inr r" ..
  let ?s2 = "set_pc (race_state\<lparr>st_sent := st_sent race_state @ r\<rparr>) 0 (Loop 1)"
  have "thread_step ?ifs [] 100 race_state 0 = Inr ?s2" using f r by (simp add: thread_step_def Let_def)
  then have r2: "arp_run ?ifs ?s2" using arp_run.thread[OF r1] f by simp
  have "add_cache_entry (st_cache ?s2) 100 9 ?m = Inr ?c" using f by (simp add: set_pc_def add_cache_entry_eq)
  then have r3: "arp_run ?ifs (?s2\<lparr>st_cache := ?c\<rparr>)" by (rule arp_run.cache[OF r2])
  let ?s4 = "set_pc (?s2\<lparr>st_cache := ?c\<rparr>) 0 (Found 1 ?m)"
  have "search_cache ?c 101 9 = (?c, Some ?m)"
    by (simp add: search_cache_def check_cache_invalid_filter Let_def)
  then have "thread_step ?ifs [] 101 (?s2\<lparr>st_cache := ?c\<rparr>) 0 = Inr ?s4"
    using f by (simp add: thread_step_def set_pc_def MAX_ARP_REQUESTS_def Let_def)
  then have r4: "arp_run ?ifs ?s4" using arp_run.thread[OF r3] f by (simp add: set_pc_def)
  have "\<exists>out. send_buffered ?ifs ?e ?m = Inr out"
    using f by (auto simp: send_buffered_def chain_list_def send_to_mac_def sr_send_packet_def hdr_lens)
  then obtain out where "send_buffered ?ifs ?e ?m = Inr out" ..
  then obtain s5 where s5: "thread_step ?ifs [] 102 ?s4 0 = Inr s5"
    "st_pending s5 = [?e\<lparr>q_pac := Chain [] True, q_lsu := null\<rparr>]"
    using f by (simp add: thread_step_def set_pc_def Let_def freed_def)
  then have "arp_run ?ifs s5" using arp_run.thread[OF r4] f by (simp add: set_pc_def)
  moreover have "get_mac_address ?ifs s5 9 (replicate 14 0) 14 ''eth0'' 0 (replicate 14 0) = Inl Use_after_free"
    using f s5(2) by (simp add: get_mac_address_def buffer_packet_def LSU_TYPE_def chain_list_def Let_def)
  ultimately show ?thesis by blast
qed

text \<open>
  A MAC that has been freed. \<^verbatim>\<open>search_cache\<close> returns a pointer into the cache, whose lock the thread does not
  hold when it sends: there is a reachable state in which a thread is about to send its packets to the MAC it
  found, while no entry of the cache has that MAC any more, because another search has
  deleted what had expired.
\<close>
theorem arp_mac_freed:
  "\<exists>s mac. arp_run [sample_if] s \<and> running s 0 0 \<and> snd (st_threads s ! 0) = Found 1 mac \<and>
       mac \<notin> ac_mac ` set (st_cache s)"
proof -
  let ?ifs = "[sample_if]" and ?m = "[6, 6, 6, 6, 6, 6] :: mac" and ?m2 = "[7, 7, 7, 7, 7, 7] :: mac"
  let ?c = "[\<lparr>ip_add = 9, ac_mac = ?m, timenotvalid = 115\<rparr>]" and ?c2 = "[\<lparr>ip_add = 8, ac_mac = ?m2, timenotvalid = 215\<rparr>]"
  let ?e = race_entry
  have f: "st_pending race_state = [?e]" "st_threads race_state = [(0, Start)]" "st_cache race_state = []"
      "q_ip ?e = 9" "q_request_len ?e = 42" "length (q_request ?e) = 42"
    by (simp_all add: race_state_def race_entry_def arp_frame_def sample_if_def)
  have "\<exists>r. send_request ?ifs ?e = Inr r"
    using f by (auto simp: send_request_def sr_send_packet_def hdr_lens)
  then obtain r where r: "send_request ?ifs ?e = Inr r" ..
  let ?s2 = "set_pc (race_state\<lparr>st_sent := st_sent race_state @ r\<rparr>) 0 (Loop 1)"
  have "thread_step ?ifs [] 100 race_state 0 = Inr ?s2" using f r by (simp add: thread_step_def Let_def)
  then have r2: "arp_run ?ifs ?s2" using arp_run.thread[OF arp_run_race_state] f by simp
  have "add_cache_entry (st_cache ?s2) 100 9 ?m = Inr ?c" using f by (simp add: set_pc_def add_cache_entry_eq)
  then have r3: "arp_run ?ifs (?s2\<lparr>st_cache := ?c\<rparr>)" by (rule arp_run.cache[OF r2])
  let ?s4 = "set_pc (?s2\<lparr>st_cache := ?c\<rparr>) 0 (Found 1 ?m)"
  have "search_cache ?c 101 9 = (?c, Some ?m)"
    by (simp add: search_cache_def check_cache_invalid_filter Let_def)
  then have "thread_step ?ifs [] 101 (?s2\<lparr>st_cache := ?c\<rparr>) 0 = Inr ?s4"
    using f by (simp add: thread_step_def set_pc_def MAX_ARP_REQUESTS_def Let_def)
  then have r4: "arp_run ?ifs ?s4" using arp_run.thread[OF r3] f by (simp add: set_pc_def)
  have c: "st_cache ?s4 = ?c" by (simp add: set_pc_def)
  have "add_cache_entry ?c 200 8 ?m2 = Inr ?c2" by (simp add: add_cache_entry_eq)
  then have "arp_run ?ifs (?s4\<lparr>st_cache := ?c2\<rparr>)" using arp_run.cache[OF r4, of 200 8 ?m2 ?c2] c by simp
  moreover have "st_threads (?s4\<lparr>st_cache := ?c2\<rparr>) = [(0, Found 1 ?m)]" using f by (simp add: set_pc_def)
  ultimately show ?thesis
    by (intro exI[of _ "?s4\<lparr>st_cache := ?c2\<rparr>"] exI[of _ ?m]) (simp add: running_def)
qed


end
