(* ===== verification/Lsu.thy ===== *)
theory Lsu
  imports Hello Icmp Arp_Queue
begin

text \<open>
  Link state updates, \<^verbatim>\<open>lsu.c\<close>: a router floods its subnets and static routes to its
  neighbours, and passes on what it receives. The frame is one block that all functions write
  in place: Ethernet header at 0, IP header at 14, OSPF header at 34, LSU header at 58,
  advertisements of 12 bytes from 66 on.
\<close>

section \<open>Readdressing a frame\<close>

text \<open>Source and destination address, header checksum, Ethernet type and source MAC of a frame.\<close>

definition address_frame :: "u32 \<Rightarrow> u32 \<Rightarrow> mac \<Rightarrow> bytes \<Rightarrow> bytes result" where
  "address_frame src dst mac f =
     rbind (put_bytes 26 (store32 src @ store32 dst) f) (\<lambda>f1.
     rbind (put_bytes 24 (store16 0) f1) (\<lambda>f2.
     rbind (cksum (drop 14 f2) IP_HDR_LEN) (\<lambda>c.
     rbind (put_bytes 24 (store16 (htons c)) f2) (\<lambda>f3.
       put_bytes 6 (take ETHER_ADDR_LEN mac @ store16 (htons ETHERTYPE_IP)) f3))))"

text \<open>
  The destination MAC from the cache and the frame sent, or the frame handed to
  \<^verbatim>\<open>get_mac_address\<close>.
\<close>

definition lsu_to_nbr ::
  "sr_if list \<Rightarrow> time \<Rightarrow> u16 \<Rightarrow> string \<Rightarrow> u32 \<Rightarrow> bytes \<times> arp_state \<Rightarrow> (bytes \<times> arp_state) result" where
  "lsu_to_nbr ifs now len iface dst = (\<lambda>(f, a).
     case search_cache (st_cache a) now dst of
       (c, Some mac) \<Rightarrow>
         rbind (put_bytes 0 (take ETHER_ADDR_LEN mac) f) (\<lambda>f'.
         rbind (sr_send_packet ifs f' (unat len) iface) (\<lambda>out.
           Inr (f', a\<lparr>st_cache := c, st_sent := st_sent a @ out\<rparr>)))
     | (c, None) \<Rightarrow>
         rbind (get_mac_address ifs (a\<lparr>st_cache := c\<rparr>) dst f len iface LSU_TYPE []) (\<lambda>a'.
           Inr (f, a')))"

section \<open>Forwarding\<close>

text \<open>
  The two nested loops of \<^verbatim>\<open>forward_lsu\<close>; \<open>from\<close> is the address the update came from.
\<close>

definition forward_on_if ::
  "sr_if list \<Rightarrow> time \<Rightarrow> u16 \<Rightarrow> u32 \<Rightarrow> pwospf_if \<Rightarrow> bytes \<times> arp_state \<Rightarrow> (bytes \<times> arp_state) result" where
  "forward_on_if ifs now len from w =
     foldr_res (\<lambda>n (f, a).
       if nb_ip n = from then Inr (f, a)
       else rbind (address_frame (pif_address w) (nb_ip n) (pif_mac w) f) (\<lambda>f'.
         lsu_to_nbr ifs now len (pif_name w) (nb_ip n) (f', a))) (pif_neighbors w)"

text \<open>
  A time to live of 0 makes an ICMP message that nobody sends, and is then decremented like any
  other.
\<close>

definition forward_lsu ::
  "sr_if list \<Rightarrow> pwospf_if list \<Rightarrow> time \<Rightarrow> 'p packet_state_scheme \<Rightarrow> bytes \<Rightarrow> arp_state \<Rightarrow> arp_state result" where
  "forward_lsu ifs wifs now ps f a =
     rbind (field8 22 f) (\<lambda>ip_ttl.
     rbind (if ip_ttl < 1
            then rbind (icmp_response (ps\<lparr>ps_packet := f\<rparr>) (drop 14 f) ICMPT_TIMEEX ICMPC_INTRANSIT) (\<lambda>_. Inr ())
            else Inr ()) (\<lambda>_.
     rbind (put_bytes 22 [ip_ttl - 1] f) (\<lambda>f1.
     rbind (field8 61 f1) (\<lambda>lsu_ttl.
     rbind (put_bytes 61 [lsu_ttl - 1] f1) (\<lambda>f2.
     rbind (put_bytes 46 (store16 0) f2) (\<lambda>f3.
     rbind (field16 36 f3) (\<lambda>ospf_len.
     rbind (cksum (drop 34 f3) (OSPF_HDR_LEN - 8)) (\<lambda>c.
     rbind (put_bytes 46 (store16 (htons c)) f3) (\<lambda>f4.
       if 0 < lsu_ttl - 1 \<and> 0 < ip_ttl - 1 then
         rbind (field32 26 f4) (\<lambda>prev_src.
         let len = of_nat (ETHER_HDR_LEN + IP_HDR_LEN + unat (ntohs ospf_len))
         in rbind (foldr_res (forward_on_if ifs now len prev_src) wifs (f4, a)) (\<lambda>(_, a'). Inr a'))
       else Inr a)))))))))"

section \<open>Receiving\<close>

text \<open>
  The advertisements of an update. Each is copied into a fresh \<^verbatim>\<open>struct route\<close> whose other two
  fields are what \<^verbatim>\<open>malloc\<close> left there: \<open>junk\<close>.
\<close>

primrec read_advs :: "(nat \<Rightarrow> u32 \<times> int) \<Rightarrow> nat \<Rightarrow> bytes \<Rightarrow> route list result" where
  "read_advs junk 0 p = Inr []"
| "read_advs junk (Suc n) p =
     rbind (field32 0 p) (\<lambda>subnet.
     rbind (field32 4 p) (\<lambda>m.
     rbind (field32 8 p) (\<lambda>ident.
     rbind (read_advs junk n (drop 12 p)) (\<lambda>rs.
       Inr (\<lparr>prefix = subnet, rmask = m, rnext_hop = fst (junk n), r_id = ident,
             from_lsu = snd (junk n)\<rparr> # rs)))))"

definition handle_lsu ::
  "sr_if list \<Rightarrow> (nat \<Rightarrow> u32 \<times> int) \<Rightarrow> time \<Rightarrow> 'p packet_state_scheme \<Rightarrow> bytes \<Rightarrow> ospf \<Rightarrow> arp_state \<Rightarrow>
   (ospf \<times> arp_state) result" where
  "handle_lsu ifs junk now ps f os a =
     rbind (field32 38 f) (\<lambda>source_rid.
     rbind (deref (os_topo os) (this_router (os_topo os))) (\<lambda>me.
       if source_rid = rid me then Inr (os, a)
       else
         rbind (get_sequence source_rid (os_topo os)) (\<lambda>old_seq.
         rbind (field16 58 f) (\<lambda>seq.
           if old_seq = seq then Inr (os, a)
           else
             rbind (field32 62 f) (\<lambda>num_adv.
             rbind (read_advs junk (unat (ntohl num_adv)) (drop 66 f)) (\<lambda>advertisements.
             rbind (add_to_top (os_topo os) (os_ifs os) now source_rid advertisements) (\<lambda>(s1, ft).
             rbind (set_sequence source_rid seq s1) (\<lambda>s2.
             rbind (forward_lsu ifs (os_ifs os) now ps f a) (\<lambda>a'.
               Inr (os\<lparr>os_topo := s2, os_ftable := ft\<rparr>, a'))))))))))"

section \<open>Sending\<close>

definition generate_adv :: "router \<Rightarrow> sr_rt list \<Rightarrow> bytes" where
  "generate_adv me rts =
     concat (map (\<lambda>r. store32 (prefix r) @ store32 (rmask r) @ store32 (r_id r)) (subnets me)) @
     concat (map (\<lambda>e. store32 (rt_dest e) @ store32 (rt_mask e) @ store32 0) rts)"

definition OSPF_TYPE_LSU :: u8 where "OSPF_TYPE_LSU = 4"
definition LSU_HDR_LEN :: nat where "LSU_HDR_LEN = 8"
definition LSU_ADV_LEN :: nat where "LSU_ADV_LEN = 12"

lemmas lsu_consts = OSPF_TYPE_LSU_def LSU_HDR_LEN_def LSU_ADV_LEN_def hello_consts

text \<open>
  The update before it is addressed. \<open>blk\<close> is the block from \<^verbatim>\<open>malloc\<close>: the Ethernet header and
  the unused byte of the LSU header keep its contents. (The IP addresses and the header checksum
  are written for each neighbour before the frame is used.)
\<close>

definition build_lsu :: "bytes \<Rightarrow> sr_rt list \<Rightarrow> ospf \<Rightarrow> router \<Rightarrow> u16 \<Rightarrow> bytes result" where
  "build_lsu blk rts os me seq =
     (let n = length (subnets me) + length rts;
          ospf_len = OSPF_HDR_LEN + LSU_HDR_LEN + n * LSU_ADV_LEN;
          lsu_hdr = store16 (htons seq) @ [blk ! 60, INIT_TTL] @ store32 (htonl (of_nat n))
      in rbind (fill_sum 12 16 (ospf_header OSPF_TYPE_LSU ospf_len (rid me) (os_area os))) (\<lambda>oh.
           Inr (take ETHER_HDR_LEN blk @ ip_header (IP_HDR_LEN + ospf_len) 0 0 @ oh @ lsu_hdr @
                generate_adv me rts)))"

definition send_on_if ::
  "sr_if list \<Rightarrow> time \<Rightarrow> u16 \<Rightarrow> pwospf_if \<Rightarrow> bytes \<times> arp_state \<Rightarrow> (bytes \<times> arp_state) result" where
  "send_on_if ifs now len w =
     foldr_res (\<lambda>n (f, a).
       case sr_get_interface ifs (pif_name w) of
         None \<Rightarrow> Inl Null_pointer
       | Some src_if \<Rightarrow>
           rbind (address_frame (pif_address w) (nb_ip n) (if_addr src_if) f) (\<lambda>f'.
             lsu_to_nbr ifs now len (pif_name w) (nb_ip n) (f', a))) (pif_neighbors w)"

definition send_lsu ::
  "sr_if list \<Rightarrow> sr_rt list \<Rightarrow> bytes \<Rightarrow> time \<Rightarrow> ospf \<Rightarrow> arp_state \<Rightarrow> (ospf \<times> arp_state) result" where
  "send_lsu ifs rts blk now os a =
     rbind (deref (os_topo os) (this_router (os_topo os))) (\<lambda>me.
     let seq = os_seq_sent os + 1;
         len = of_nat (ETHER_HDR_LEN + IP_HDR_LEN + OSPF_HDR_LEN + LSU_HDR_LEN +
                       (length (subnets me) + length rts) * LSU_ADV_LEN)
     in rbind (build_lsu blk rts os me seq) (\<lambda>f.
        rbind (foldr_res (send_on_if ifs now len) (os_ifs os) (f, a)) (\<lambda>(_, a').
          Inr (os\<lparr>os_seq_sent := seq\<rparr>, a'))))"

section \<open>What is written is what is read\<close>

lemma address_frame_ok:
  assumes "length e = 14" "length ih = 20" "length mac = 6"
  shows "\<exists>c. address_frame src dst mac (e @ ih @ r) =
      Inr (take 6 e @ mac @ [8, 0] @ take 10 ih @ store16 (htons c) @ store32 src @ store32 dst @ r) \<and>
     cksum (take 10 ih @ store16 (htons c) @ store32 src @ store32 dst) 20 = Inr 0"
proof -
  let ?z = "take 10 ih @ [0, 0] @ store32 src @ store32 dst"
  have l: "length ?z = 20" using assms(2) by simp
  have "\<exists>c. cksum ?z 20 = Inr c" by (rule cksum_total) (use l in simp_all)
  then obtain c where c: "cksum ?z 20 = Inr c" ..
  have ok: "cksum (take 10 ih @ store16 (htons c) @ store32 src @ store32 dst) 20 = Inr 0"
    using fill_sum_ok[of 20 10 ?z] c assms(2) by (simp add: nth_append)
  have c': "cksum (?z @ r) 20 = Inr c" using cksum_prefix[of ?z r] c l by simp
  have s: "store16 0 = [0, 0]" "store16 (htons ETHERTYPE_IP) = [8, 0]" by (simp_all add: store16_def) code_simp+
  have 1: "put_bytes 26 (store32 src @ store32 dst) (e @ ih @ r) =
      Inr (e @ take 12 ih @ store32 src @ store32 dst @ r)" using assms by simp
  have 2: "put_bytes 24 (store16 0) (e @ take 12 ih @ store32 src @ store32 dst @ r) = Inr (e @ ?z @ r)"
    using assms by (simp add: s(1) take_take)
  have 3: "put_bytes 24 (store16 (htons c)) (e @ ?z @ r) =
      Inr (e @ take 10 ih @ store16 (htons c) @ store32 src @ store32 dst @ r)"
    using assms by simp
  have "address_frame src dst mac (e @ ih @ r) =
      Inr (take 6 e @ mac @ [8, 0] @ take 10 ih @ store16 (htons c) @ store32 src @ store32 dst @ r)"
    using assms c' 1 2 3 by (simp only: address_frame_def rbind_simps) (simp add: s(2) hdr_lens)
  with ok show ?thesis by blast
qed

text \<open>The three words of an advertisement.\<close>

definition adv_key :: "route \<Rightarrow> u32 \<times> u32 \<times> u32" where
  "adv_key r = (prefix r, rmask r, r_id r)"

definition adv_bytes :: "u32 \<times> u32 \<times> u32 \<Rightarrow> bytes" where
  "adv_bytes = (\<lambda>(p, m, i). store32 p @ store32 m @ store32 i)"

definition advertised_keys :: "router \<Rightarrow> sr_rt list \<Rightarrow> (u32 \<times> u32 \<times> u32) list" where
  "advertised_keys me rts = map adv_key (subnets me) @ map (\<lambda>e. (rt_dest e, rt_mask e, 0)) rts"

lemma generate_adv_bytes: "generate_adv me rts = concat (map adv_bytes (advertised_keys me rts))"
  by (simp add: generate_adv_def advertised_keys_def adv_bytes_def adv_key_def comp_def)

lemma length_adv_bytes [simp]: "length (adv_bytes k) = 12"
  by (cases k) (simp add: adv_bytes_def)

text \<open>
  The routes that a receiver makes of them: two fields, next hop and origin, are what the fresh memory held.
\<close>

primrec advs_of :: "(nat \<Rightarrow> u32 \<times> int) \<Rightarrow> (u32 \<times> u32 \<times> u32) list \<Rightarrow> route list" where
  "advs_of junk [] = []"
| "advs_of junk (k # ks) =
     \<lparr>prefix = fst k, rmask = fst (snd k), rnext_hop = fst (junk (length ks)), r_id = snd (snd k),
      from_lsu = snd (junk (length ks))\<rparr> # advs_of junk ks"

lemma advs_of_keys: "map adv_key (advs_of junk ks) = ks"
  by (induction ks) (simp_all add: adv_key_def)

lemma read_advs_bytes:
  "read_advs junk (length ks) (concat (map adv_bytes ks) @ r) = Inr (advs_of junk ks)"
proof (induction ks)
  case (Cons k ks)
  obtain p m i where k: "k = (p, m, i)" by (cases k)
  let ?r = "concat (map adv_bytes ks) @ r"
  have f: "adv_bytes k @ ?r = store32 p @ store32 m @ store32 i @ ?r" by (simp add: k adv_bytes_def)
  have "field32 0 (adv_bytes k @ ?r) = Inr p" "field32 4 (adv_bytes k @ ?r) = Inr m"
    "field32 8 (adv_bytes k @ ?r) = Inr i" unfolding f
    by (rule field32_at[where r = "store32 m @ store32 i @ ?r"], simp)
      (rule field32_at[where r = "store32 i @ ?r"], simp, rule field32_at[where r = ?r], simp)
  moreover have "drop 12 (adv_bytes k @ ?r) = ?r" by simp
  ultimately show ?case using Cons.IH by (simp add: k)
qed simp

lemma length_concat_adv [simp]: "length (concat (map adv_bytes ks)) = 12 * length ks"
  by (induction ks) simp_all

text \<open>The update of a router, addressed to a neighbour.\<close>

definition lsu_header :: "u16 \<Rightarrow> u8 \<Rightarrow> nat \<Rightarrow> bytes" where
  "lsu_header seq unused n = store16 (htons seq) @ [unused, INIT_TTL] @ store32 (htonl (of_nat n))"

lemma length_lsu_header [simp]: "length (lsu_header seq unused n) = 8"
  by (simp add: lsu_header_def)

lemma build_lsu_eq:
  assumes "14 \<le> length blk"
  shows "\<exists>oh. fill_sum 12 16 (ospf_header OSPF_TYPE_LSU (32 + 12 * length (advertised_keys me rts)) (rid me) (os_area os)) = Inr oh \<and>
     length oh = 24 \<and>
     build_lsu blk rts os me seq = Inr (take 14 blk @ ip_header (52 + 12 * length (advertised_keys me rts)) 0 0 @ oh @
       lsu_header seq (blk ! 60) (length (advertised_keys me rts)) @ concat (map adv_bytes (advertised_keys me rts)))"
proof -
  define ks where "ks = advertised_keys me rts"
  have n: "length (subnets me) + length rts = length ks" by (simp add: ks_def advertised_keys_def)
  have len: "OSPF_HDR_LEN + LSU_HDR_LEN + length ks * LSU_ADV_LEN = 32 + 12 * length ks"
      "IP_HDR_LEN + (32 + 12 * length ks) = 52 + 12 * length ks"
    by (simp_all add: lsu_consts hdr_lens)
  obtain c where c: "fill_sum 12 16 (ospf_header OSPF_TYPE_LSU (32 + 12 * length ks) (rid me) (os_area os)) =
      Inr (take 12 (ospf_header OSPF_TYPE_LSU (32 + 12 * length ks) (rid me) (os_area os)) @
        store16 (htons c) @ replicate 10 0)"
    using ospf_header_sum by blast
  have g: "generate_adv me rts = concat (map adv_bytes ks)" by (simp add: generate_adv_bytes ks_def)
  show ?thesis
    unfolding ks_def[symmetric] build_lsu_def n len g Let_def c
    by (simp add: lsu_header_def hdr_lens)
qed

end
