(* ===== verification/Pwospf.thy ===== *)
theory Pwospf
  imports Lsu
begin

text \<open>
  The PWOSPF subsystem, \<^verbatim>\<open>sr_pwospf.c\<close>: its start, the dispatch of OSPF packets, and one round of
  the thread that sends HELLOs and updates. Each call that takes the subsystem's lock is atomic.
\<close>

section \<open>Start\<close>

definition IF_MASK :: u32 where "IF_MASK = 0xfffffffe"
definition DEF_NBR_BUF :: nat where "DEF_NBR_BUF = 5"
definition TOP_INITIALIZATION :: time where "TOP_INITIALIZATION = 90"

lemmas pwospf_consts = IF_MASK_def DEF_NBR_BUF_def TOP_INITIALIZATION_def

definition pwospf_iface :: "sr_if \<Rightarrow> pwospf_if" where
  "pwospf_iface w =
     \<lparr>pif_address = if_ip w, pif_mask = ntohl IF_MASK, pif_name = strncpy_name (if_name w),
      pif_helloint = of_int OSPF_DEFAULT_HELLOINT, pif_mac = take ETHER_ADDR_LEN (if_addr w),
      pif_neighbors = [], pif_nbr_buf_size = DEF_NBR_BUF, pif_nbr_bytes = ptr_bytes * DEF_NBR_BUF\<rparr>"

primrec create_pwospf_ifaces :: "sr_if list \<Rightarrow> pwospf_if list" where
  "create_pwospf_ifaces [] = []"
| "create_pwospf_ifaces (w # ws) = pwospf_iface w # create_pwospf_ifaces ws"

text \<open>
  The file holds one number a line; each is what \<^verbatim>\<open>sscanf\<close> finds on a line, if anything. Without
  a number the variable is never written.
\<close>

primrec config_lines :: "u32 option list \<Rightarrow> u32 \<Rightarrow> u32" where
  "config_lines [] aid = aid"
| "config_lines (l # ls) aid = config_lines ls (case l of Some v \<Rightarrow> v | None \<Rightarrow> aid)"

definition read_config :: "u32 \<Rightarrow> u32 option list option \<Rightarrow> u32" where
  "read_config junk file = (case file of None \<Rightarrow> 0 | Some ls \<Rightarrow> config_lines ls junk)"

text \<open>
  The route and the forwarding entry of one interface. \<^verbatim>\<open>from_lsu\<close> keeps what \<^verbatim>\<open>malloc\<close> left. The
  write into the array of subnets is not preceded by a check of its size.
\<close>

definition iface_route :: "int \<Rightarrow> pwospf_if \<Rightarrow> route" where
  "iface_route junk w =
     \<lparr>prefix = pif_address w AND pif_mask w, rmask = pif_mask w,
      rnext_hop = (if pif_address w AND pif_mask w = pif_address w
                   then ntohl (htonl (pif_address w) OR 1) else pif_address w AND pif_mask w),
      r_id = 0, from_lsu = junk\<rparr>"

definition iface_entry :: "pwospf_if \<Rightarrow> ftable_entry" where
  "iface_entry w =
     (let r = iface_route 0 w
      in \<lparr>ft_prefix = prefix r, ft_mask = rmask r, ft_next_hop = rnext_hop r,
          ft_interface = pif_name w, ft_num_hops = 0\<rparr>)"

definition init_subnet :: "int \<Rightarrow> pwospf_if \<Rightarrow> topo \<times> ftable_entry list \<Rightarrow> (topo \<times> ftable_entry list) result" where
  "init_subnet junk w = (\<lambda>(s, ft).
     rbind (deref s (this_router s)) (\<lambda>me.
       if ptr_bytes * (length (subnets me) + 1) \<le> subnet_bytes me
       then Inr (set_rt s (this_router s) (me\<lparr>subnets := subnets me @ [iface_route junk w]\<rparr>), ft @ [iface_entry w])
       else Inl Out_of_bounds))"

definition pwospf_init :: "sr_if list \<Rightarrow> int \<Rightarrow> u32 \<Rightarrow> u32 option list option \<Rightarrow> time \<Rightarrow> ospf result" where
  "pwospf_init ifs junk junk_aid file now =
     (let ws = create_pwospf_ifaces ifs
      in case sr_get_interface ifs ''eth0'' of
           None \<Rightarrow> Inl Null_pointer
         | Some zero \<Rightarrow>
             let (s, me) = add_new_router \<lparr>store = [], network = [], this_router = 0, init_time = 0\<rparr> now (if_ip zero)
             in rbind (foldr_res (init_subnet junk) ws (s\<lparr>this_router := me\<rparr>, [])) (\<lambda>(s', ft).
                  Inr \<lparr>os_topo = s'\<lparr>init_time := now + TOP_INITIALIZATION\<rparr>, os_ftable = ft, os_ifs = ws,
                       os_seq_sent = 0, os_area = read_config junk_aid file, os_autype = 0\<rparr>))"

section \<open>Receiving\<close>

text \<open>
  \<open>f\<close> is the whole frame, \<open>ps\<close> the packet state behind its Ethernet header. The checksum field
  is zeroed in the frame and stays so.
\<close>

definition handle_pwospf ::
  "sr_if list \<Rightarrow> (nat \<Rightarrow> u32 \<times> int) \<Rightarrow> time \<Rightarrow> 'p packet_state_scheme \<Rightarrow> bytes \<Rightarrow> ospf \<Rightarrow> arp_state \<Rightarrow>
   (ospf \<times> arp_state) result" where
  "handle_pwospf ifs junk now ps f os a =
     rbind (field8 34 f) (\<lambda>version.
       if version \<noteq> OSPF_V2 then Inr (os, a)
       else
         rbind (field16 46 f) (\<lambda>old_csum.
         rbind (put_bytes 46 (store16 0) f) (\<lambda>f'.
         rbind (cksum (drop 34 f') (OSPF_HDR_LEN - 8)) (\<lambda>c.
           if htons c \<noteq> old_csum then Inr (os, a)
           else
             rbind (field32 42 f') (\<lambda>aid.
               if aid \<noteq> ntohl (os_area os) then Inr (os, a)
               else
                 rbind (field16 48 f') (\<lambda>autype.
                   if autype \<noteq> os_autype os then Inr (os, a)
                   else
                     rbind (field8 35 f') (\<lambda>type.
                       if type = OSPF_TYPE_HELLO then
                         rbind (field32 26 f') (\<lambda>src.
                         rbind (handle_HELLO os (drop 34 f') (ps_len ps) (ps_interface ps) src now) (\<lambda>os'.
                           Inr (os', a)))
                       else if type = OSPF_TYPE_LSU then handle_lsu ifs junk now ps f' os a
                       else Inr (os, a))))))))"

section \<open>The thread\<close>

text \<open>What the thread does under the lock, between sleeps.\<close>

definition ospf_send_hello :: "sr_if list \<Rightarrow> ospf \<Rightarrow> arp_state \<Rightarrow> arp_state result" where
  "ospf_send_hello ifs os a = rbind (send_HELLO ifs os) (\<lambda>out. Inr (a\<lparr>st_sent := st_sent a @ out\<rparr>))"

definition ospf_check_top :: "time \<Rightarrow> ospf \<Rightarrow> ospf result" where
  "ospf_check_top now os =
     rbind (check_top_invalid (os_topo os) (os_ftable os) (os_ifs os) now) (\<lambda>(s, ft).
       Inr (os\<lparr>os_topo := s, os_ftable := ft\<rparr>))"

text \<open>
  One round of \<^verbatim>\<open>pwospf_run_thread\<close>: a HELLO for each of the interval's steps at the times \<open>ts\<close>,
  then the expiry and the update.
\<close>

definition hello_steps :: nat where
  "hello_steps = nat (OSPF_DEFAULT_LSUINT div OSPF_DEFAULT_HELLOINT)"

definition pwospf_round ::
  "sr_if list \<Rightarrow> sr_rt list \<Rightarrow> bytes \<Rightarrow> time \<Rightarrow> ospf \<Rightarrow> arp_state \<Rightarrow> (ospf \<times> arp_state) result" where
  "pwospf_round ifs rts blk now os a =
     rbind (foldr_res (\<lambda>_. ospf_send_hello ifs os) (replicate hello_steps ()) a) (\<lambda>a1.
     rbind (ospf_check_top now os) (\<lambda>os1. send_lsu ifs rts blk now os1 a1))"

section \<open>Accepting a packet\<close>

text \<open>
  A packet whose OSPF header the sender filled in passes all checks of a receiver in the same
  area, and is handed on with the checksum field zeroed.
\<close>

lemma handle_pwospf_accepts:
  fixes r :: bytes
  assumes pre: "length pre = 34"
    and oh: "fill_sum 12 16 (ospf_header type n ident (os_area os)) = Inr oh"
    and os: "os_autype os = 0"
  defines "f \<equiv> pre @ ospf_header type n ident (os_area os) @ r"
  shows "handle_pwospf ifs junk now ps (pre @ oh @ r) os a =
     (if type = OSPF_TYPE_HELLO then
        rbind (field32 26 f) (\<lambda>src.
        rbind (handle_HELLO os (ospf_header type n ident (os_area os) @ r) (ps_len ps) (ps_interface ps) src now) (\<lambda>os'.
          Inr (os', a)))
      else if type = OSPF_TYPE_LSU then handle_lsu ifs junk now ps f os a
      else Inr (os, a))"
proof -
  let ?h = "ospf_header type n ident (os_area os)"
  obtain c where c: "oh = take 12 ?h @ store16 (htons c) @ replicate 10 0" "cksum ?h 16 = Inr c"
    using ospf_header_sum[of type n ident "os_area os"] oh by auto
  have h: "?h = [OSPF_V2, type] @ store16 (htons (of_nat n)) @ store32 ident @ store32 (htonl (os_area os)) @
      replicate 12 0" by (simp add: ospf_header_def)
  have h12: "take 12 ?h = [OSPF_V2, type] @ store16 (htons (of_nat n)) @ store32 ident @ store32 (htonl (os_area os))"
    by (simp add: h)
  have r12: "[0, 0] @ replicate 10 0 = (replicate 12 0 :: bytes)" by (simp add: eval_nat_numeral)
  have r10: "replicate 10 0 = [0, 0] @ (replicate 8 0 :: bytes)" by (simp add: eval_nat_numeral)
  have z: "store16 0 = [0, 0]" "take 12 ?h @ [0, 0] @ replicate 10 0 = ?h"
    unfolding h12 r12 by (simp_all only: h append_assoc) (simp add: store16_def)
  have 1: "field8 34 (pre @ oh @ r) = Inr OSPF_V2"
    by (rule field8_at[where r = "drop 1 oh @ r"]) (use pre in \<open>simp add: c h12\<close>)
  have 2: "field16 46 (pre @ oh @ r) = Inr (htons c)"
    by (rule field16_at[where r = "replicate 10 0 @ r"]) (use pre in \<open>simp add: c\<close>)
  have 3: "put_bytes 46 (store16 0) (pre @ oh @ r) = Inr f"
    using pre z by (simp add: c f_def)
  have 4: "cksum (?h @ r) 16 = Inr c"
    using c(2) cksum_take[of 16 ?h] cksum_take[of 16 "?h @ r"] by simp
  have 5: "field32 42 f = Inr (htonl (os_area os))"
    by (rule field32_at[where r = "replicate 12 0 @ r"]) (use pre in \<open>simp add: f_def h\<close>)
  have 6: "field16 48 f = Inr 0"
    by (rule field16_at[where r = "replicate 8 0 @ r"]) (use pre z(1) r10 in \<open>simp add: f_def h\<close>)
  have 7: "field8 35 f = Inr type"
    by (rule field8_at[where r = "drop 2 ?h @ r"]) (use pre in \<open>simp add: f_def h\<close>)
  have d: "drop 34 f = ?h @ r" using pre by (simp add: f_def)
  show ?thesis
    using os d by (simp add: handle_pwospf_def 1 2 3 4 5 6 7 OSPF_HDR_LEN_def)
qed

section \<open>HELLOs between neighbours\<close>

lemma hello_packet_eq:
  assumes "length (pif_mac w) = 6"
  shows "\<exists>oh c. fill_sum 12 16 (ospf_header OSPF_TYPE_HELLO 32 ident (os_area os)) = Inr oh \<and> length oh = 24 \<and>
     hello_packet os ident w = Inr ((replicate 6 0xFF @ pif_mac w @ [8, 0] @
       take 10 (ip_header 52 0 0) @ store16 (htons c) @ store32 (pif_address w) @ store32 (htonl OSPF_AllSPFRouters)) @
       oh @ store32 (htonl (pif_mask w)) @ store16 (htons 5) @ [0, 0])"
proof -
  obtain c where c: "fill_sum 12 16 (ospf_header OSPF_TYPE_HELLO 32 ident (os_area os)) =
      Inr (take 12 (ospf_header OSPF_TYPE_HELLO 32 ident (os_area os)) @ store16 (htons c) @ replicate 10 0)"
    using ospf_header_sum by blast
  obtain d where d: "fill_sum 10 20 (ip_header 52 (pif_address w) (htonl OSPF_AllSPFRouters)) =
      Inr (take 10 (ip_header 52 (pif_address w) (htonl OSPF_AllSPFRouters)) @ store16 (htons d) @
        store32 (pif_address w) @ store32 (htonl OSPF_AllSPFRouters))"
    using ip_header_sum[of 52 "pif_address w" "htonl OSPF_AllSPFRouters"] by (auto simp: hdr_lens)
  have t: "take 10 (ip_header 52 src dst) = take 10 (ip_header 52 0 0)" for src dst
    by (simp add: ip_header_def)
  have s: "store16 (htons ETHERTYPE_IP) = [8, 0]" by (simp add: ETHERTYPE_IP_def) code_simp
  have n: "OSPF_HDR_LEN + HELLO_HDR_LEN = 32" by (simp add: hello_consts)
  show ?thesis
    using assms
    by (intro exI[of _ "take 12 (ospf_header OSPF_TYPE_HELLO 32 ident (os_area os)) @ store16 (htons c) @ replicate 10 0"]
        exI[of _ d]) (simp add: hello_packet_def n c hdr_lens d t[of "pif_address w"] s OSPF_DEFAULT_HELLOINT_def Let_def)
qed

text \<open>
  The HELLO that one router builds for an interface is accepted by every router
  in the same area that receives it over an interface with the same mask and the default interval:
  that interface then has the sender's address as a neighbour for the next 20 seconds, with the
  sender's identifier if it is new; every interface has lost exactly the neighbours that had timed
  out, and the topology stays well formed.
\<close>
lemma hello_exchange:
  assumes "wf_topo (os_topo osB)" and "os_ifs osB = us @ wB # vs"
    and "pif_name wB = ps_interface ps" and "ps_interface ps \<notin> pif_name ` (set us \<union> set vs)"
    and "wf_pif wB" and "length (filter (fresh now) (pif_neighbors wB)) < 5"
    and "pif_mask wB = pif_mask wA" and "pif_helloint wB = 5" and "length (pif_mac wA) = 6"
    and "os_area osB = os_area osA" and "os_autype osB = 0" and "ps_len ps = 52"
  shows "\<exists>f osB' us' w' vs'. hello_packet osA ident wA = Inr f \<and>
     handle_pwospf ifs junk now ps f osB a = Inr (osB', a) \<and>
     os_ifs osB' = us' @ w' # vs' \<and> list_all2 (pruned now) us us' \<and> list_all2 (pruned now) vs vs' \<and>
     pif_name w' = pif_name wB \<and> learnt now ident (pif_address wA) (pif_neighbors wB) (pif_neighbors w') \<and>
     wf_topo (os_topo osB')"
proof -
  obtain oh c where f: "fill_sum 12 16 (ospf_header OSPF_TYPE_HELLO 32 ident (os_area osB)) = Inr oh" "length oh = 24"
     "hello_packet osA ident wA = Inr ((replicate 6 0xFF @ pif_mac wA @ [8, 0] @
       take 10 (ip_header 52 0 0) @ store16 (htons c) @ store32 (pif_address wA) @ store32 (htonl OSPF_AllSPFRouters)) @
       oh @ store32 (htonl (pif_mask wA)) @ store16 (htons 5) @ [0, 0])"
    using hello_packet_eq[OF assms(9), of ident osA] assms(10) by auto
  define pre where "pre = replicate 6 0xFF @ pif_mac wA @ [8, 0] @
       take 10 (ip_header 52 0 0) @ store16 (htons c) @ store32 (pif_address wA) @ store32 (htonl OSPF_AllSPFRouters)"
  define r where "r = store32 (htonl (pif_mask wA)) @ store16 (htons 5) @ [0, 0 :: u8]"
  let ?p = "ospf_header OSPF_TYPE_HELLO 32 ident (os_area osB) @ r"
  have pre: "length pre = 34" using assms(9) by (simp add: pre_def)
  have src: "field32 26 (pre @ ?p) = Inr (pif_address wA)"
    by (rule field32_at[where r = "store32 (htonl OSPF_AllSPFRouters) @ ?p"]) (use assms(9) in \<open>simp add: pre_def\<close>)
  have m: "field32 24 ?p = Inr (htonl (pif_mask wA))"
    by (rule field32_at[where r = "store16 (htons 5) @ [0, 0]"]) (simp add: r_def)
  have i: "field16 28 ?p = Inr (htons 5)"
    by (rule field16_at[where r = "[0, 0]"]) (simp add: r_def)
  have d: "field32 4 ?p = Inr ident"
    by (rule field32_at[where r = "store32 (htonl (os_area osB)) @ replicate 12 0 @ r"]) (simp add: ospf_header_def)
  have ok: "hello_matches ?p wB = Inr True" using assms(7,8) by (simp add: hello_matches_def m i)
  have no: "ps_interface ps \<notin> pif_name ` set us" "ps_interface ps \<notin> pif_name ` set vs"
    using assms(4) by auto
  obtain us' w' vs' s' where h: "handle_HELLO osB ?p 52 (ps_interface ps) (pif_address wA) now =
      Inr (osB\<lparr>os_ifs := us' @ w' # vs', os_topo := s'\<rparr>)" "evolves (os_topo osB) s'"
      "list_all2 (pruned now) us us'" "list_all2 (pruned now) vs vs'" "same_if wB w'"
      "learnt now ident (pif_address wA) (pif_neighbors wB) (pif_neighbors w')"
    using handle_HELLO_learns[OF assms(1,2) no(1) assms(3) no(2) assms(5,6) _ d m ok, of 52 "pif_address wA"]
    by auto
  have "handle_pwospf ifs junk now ps (pre @ oh @ r) osB a =
      Inr (osB\<lparr>os_ifs := us' @ w' # vs', os_topo := s'\<rparr>, a)"
    using handle_pwospf_accepts[OF pre f(1) assms(11), of ifs junk now ps r a] src h(1) assms(12) by simp
  with f(3) h(2-6) same_ifD(1)[OF h(5)] show ?thesis
    by (intro exI[of _ "pre @ oh @ r"] exI[of _ "osB\<lparr>os_ifs := us' @ w' # vs', os_topo := s'\<rparr>"]
        exI[of _ us'] exI[of _ w'] exI[of _ vs']) (simp add: pre_def r_def evolves_def)
qed

text \<open>Two routers on one link, of which the second already has a neighbour that timed out.\<close>

definition link_if :: "string \<Rightarrow> u32 \<Rightarrow> neighbor list \<Rightarrow> pwospf_if" where
  "link_if nm ip ns = (pwospf_iface \<lparr>if_name = nm, if_addr = [2, 0, 0, 0, 0, 1], if_ip = ip, if_speed = 0\<rparr>)\<lparr>pif_neighbors := ns\<rparr>"

definition on_link :: "u32 \<Rightarrow> pwospf_if list \<Rightarrow> ospf" where
  "on_link ip ws = \<lparr>os_topo = alone 0 ip, os_ftable = [], os_ifs = ws, os_seq_sent = 0, os_area = 3, os_autype = 0\<rparr>"

lemma link_if_simps [simp]:
  "pif_name (link_if nm ip ns) = strncpy_name nm" "pif_address (link_if nm ip ns) = ip"
  "pif_mask (link_if nm ip ns) = ntohl IF_MASK" "pif_helloint (link_if nm ip ns) = 5"
  "pif_mac (link_if nm ip ns) = [2, 0, 0, 0, 0, 1]" "pif_neighbors (link_if nm ip ns) = ns"
  by (simp_all add: link_if_def pwospf_iface_def OSPF_DEFAULT_HELLOINT_def ETHER_ADDR_LEN_def)

lemma wf_link_if: "length ns \<le> 5 \<Longrightarrow> wf_pif (link_if nm ip ns)"
  by (simp add: wf_pif_def link_if_def pwospf_iface_def pwospf_consts ptr_bytes_def)

section \<open>Updates between routers\<close>

lemma get_sequence_ok:
  assumes "wf_topo s"
  shows "\<exists>q. get_sequence ident s = Inr q"
proof (cases "find (\<lambda>a. rid (rt s a) = ident) (network s)")
  case (Some n)
  then have "n \<in> set (network s)" by (auto dest: find_SomeD)
  with Some assms show ?thesis by (simp add: get_sequence_def adj_list_contains_wf)
qed (use assms in \<open>simp add: get_sequence_def adj_list_contains_wf\<close>)

lemma set_sequence_ok:
  assumes "wf_topo s"
  shows "\<exists>s'. set_sequence ident q s = Inr s' \<and> evolves s s'"
proof (cases "find (\<lambda>a. rid (rt s a) = ident) (network s)")
  case (Some n)
  then have n: "n \<in> set (network s)" by (auto dest: find_SomeD)
  have "evolves s (set_rt s n ((rt s n)\<lparr>last_seq := q\<rparr>))"
    using wf_lengths[OF assms n] by (intro evolves_update assms n) simp_all
  with Some n assms show ?thesis by (simp add: set_sequence_def adj_list_contains_wf)
qed (use assms in \<open>simp add: set_sequence_def adj_list_contains_wf evolves_refl\<close>)

lemma handle_lsu_fields:
  fixes r :: bytes
  assumes pre: "length pre = 34" and n: "n = length ks" "n < 2 ^ 32"
    and wf: "wf_topo (os_topo os)"
    and f_def: "f = pre @ ospf_header type m ident area @ lsu_header seq u n @ concat (map adv_bytes ks)"
  shows "handle_lsu ifs junk now ps f os a =
     (if ident = rid (rt (os_topo os) (this_router (os_topo os))) then Inr (os, a)
      else if get_sequence ident (os_topo os) = Inr (htons seq) then Inr (os, a)
      else rbind (get_sequence ident (os_topo os)) (\<lambda>_.
           rbind (add_to_top (os_topo os) (os_ifs os) now ident (advs_of junk ks)) (\<lambda>(s1, ft).
           rbind (set_sequence ident (htons seq) s1) (\<lambda>s2.
           rbind (forward_lsu ifs (os_ifs os) now ps f a) (\<lambda>a'.
             Inr (os\<lparr>os_topo := s2, os_ftable := ft\<rparr>, a'))))))"
proof -
  let ?L = "lsu_header seq u n" and ?A = "concat (map adv_bytes ks)"
  have 1: "field32 38 f = Inr ident"
    by (rule field32_at[where r = "store32 (htonl area) @ replicate 12 0 @ ?L @ ?A"])
      (use pre in \<open>simp add: f_def ospf_header_def\<close>)
  have 2: "field16 58 f = Inr (htons seq)"
    by (rule field16_at[where r = "[u, INIT_TTL] @ store32 (htonl (of_nat n)) @ ?A"])
      (use pre in \<open>simp add: f_def lsu_header_def\<close>)
  have 3: "field32 62 f = Inr (htonl (of_nat n))"
    by (rule field32_at[where r = ?A]) (use pre in \<open>simp add: f_def lsu_header_def\<close>)
  have "unat (ntohl (htonl (of_nat n))) = n" using n(2) by (simp add: unat_of_nat)
  moreover have "read_advs junk n ?A = Inr (advs_of junk ks)"
    using read_advs_bytes[of junk ks "[]"] n(1) by simp
  moreover have "drop 66 f = ?A" using pre by (simp add: f_def)
  moreover have me: "deref (os_topo os) (this_router (os_topo os)) = Inr (rt (os_topo os) (this_router (os_topo os)))"
    using wf wf_topoD(5)[OF wf] by simp
  ultimately show ?thesis
    by (cases "get_sequence ident (os_topo os)") (simp_all add: handle_lsu_def 1 2 3)
qed

text \<open>
  Updates arrive as they were sent. The update that one router builds and addresses to a neighbour is accepted
  by a router in the same area: it is dropped exactly when it is the receiver's own or carries
  the number of the last one from that sender, and otherwise its advertisements, the sender's
  subnets and static routes in order, are merged under the sender's identifier, its number is
  recorded, and it is passed on.
\<close>
theorem lsu_exchange:
  assumes "14 \<le> length blk" and "length mac = 6" and "length (advertised_keys me rts) < 2 ^ 32"
    and "os_area osB = os_area osA" and "os_autype osB = 0" and "wf_topo (os_topo osB)"
  shows "\<exists>f. rbind (build_lsu blk rts osA me seq) (address_frame src dst mac) = Inr f \<and>
     (if rid me = rid (rt (os_topo osB) (this_router (os_topo osB))) \<or>
         get_sequence (rid me) (os_topo osB) = Inr (htons seq)
      then handle_pwospf ifs junk now ps f osB a = Inr (osB, a)
      else \<exists>f'. 66 \<le> length f' \<and> field8 22 f' = Inr INIT_TTL \<and> field32 26 f' = Inr src \<and>
        handle_pwospf ifs junk now ps f osB a =
          rbind (add_to_top (os_topo osB) (os_ifs osB) now (rid me) (advs_of junk (advertised_keys me rts))) (\<lambda>(s1, ft).
          rbind (set_sequence (rid me) (htons seq) s1) (\<lambda>s2.
          rbind (forward_lsu ifs (os_ifs osB) now ps f' a) (\<lambda>a'.
            Inr (osB\<lparr>os_topo := s2, os_ftable := ft\<rparr>, a')))))"
proof -
  define ks where "ks = advertised_keys me rts"
  have n: "length ks < 2 ^ 32" using assms(3) by (simp add: ks_def)
  obtain oh where b: "fill_sum 12 16 (ospf_header OSPF_TYPE_LSU (32 + 12 * length ks) (rid me) (os_area osA)) = Inr oh"
     "length oh = 24" "build_lsu blk rts osA me seq = Inr (take 14 blk @ ip_header (52 + 12 * length ks) 0 0 @ oh @
       lsu_header seq (blk ! 60) (length ks) @ concat (map adv_bytes ks))"
    using build_lsu_eq[OF assms(1), of me rts osA seq] ks_def by blast
  let ?r = "lsu_header seq (blk ! 60) (length ks) @ concat (map adv_bytes ks)"
  have e: "length (take 14 blk) = 14" using assms(1) by simp
  obtain c where c: "address_frame src dst mac (take 14 blk @ ip_header (52 + 12 * length ks) 0 0 @ oh @ ?r) =
      Inr (take 6 (take 14 blk) @ mac @ [8, 0] @ take 10 (ip_header (52 + 12 * length ks) 0 0) @ store16 (htons c) @
        store32 src @ store32 dst @ oh @ ?r)"
    using address_frame_ok[OF e _ assms(2), of "ip_header (52 + 12 * length ks) 0 0" src dst "oh @ ?r"] by auto
  define pre where "pre = take 6 (take 14 blk) @ mac @ [8, 0] @ take 10 (ip_header (52 + 12 * length ks) 0 0) @
      store16 (htons c) @ store32 src @ store32 dst"
  have pre: "length pre = 34" using assms(1,2) by (simp add: pre_def)
  have f: "rbind (build_lsu blk rts osA me seq) (address_frame src dst mac) = Inr (pre @ oh @ ?r)"
    using b(3) c by (simp add: pre_def)
  let ?H = "ospf_header OSPF_TYPE_LSU (32 + 12 * length ks) (rid me) (os_area osB)"
  have "OSPF_TYPE_LSU \<noteq> OSPF_TYPE_HELLO" by (simp add: lsu_consts)
  then have p: "handle_pwospf ifs junk now ps (pre @ oh @ ?r) osB a =
      handle_lsu ifs junk now ps (pre @ ?H @ ?r) osB a"
    using handle_pwospf_accepts[OF pre b(1)[folded assms(4)] assms(5), of ifs junk now ps ?r a] by simp
  have advs: "handle_lsu ifs junk now ps (pre @ ?H @ ?r) osB a =
     (if rid me = rid (rt (os_topo osB) (this_router (os_topo osB))) then Inr (osB, a)
      else if get_sequence (rid me) (os_topo osB) = Inr (htons seq) then Inr (osB, a)
      else rbind (get_sequence (rid me) (os_topo osB)) (\<lambda>_.
           rbind (add_to_top (os_topo osB) (os_ifs osB) now (rid me) (advs_of junk ks)) (\<lambda>(s1, ft).
           rbind (set_sequence (rid me) (htons seq) s1) (\<lambda>s2.
           rbind (forward_lsu ifs (os_ifs osB) now ps (pre @ ?H @ ?r) a) (\<lambda>a'.
             Inr (osB\<lparr>os_topo := s2, os_ftable := ft\<rparr>, a'))))))"
    using handle_lsu_fields[OF pre refl n assms(6) refl, of ifs junk now ps OSPF_TYPE_LSU
        "32 + 12 * length ks" "rid me" "os_area osB" seq "blk ! 60" a] by blast
  obtain q where "get_sequence (rid me) (os_topo osB) = Inr q" using get_sequence_ok[OF assms(6)] by blast
  moreover have "field8 22 (pre @ ?H @ ?r) = Inr INIT_TTL"
    by (rule field8_at[where r = "drop 23 (pre @ ?H @ ?r)"]) (use assms(1,2) in \<open>simp add: pre_def ip_header_def\<close>)
  moreover have "field32 26 (pre @ ?H @ ?r) = Inr src"
    by (rule field32_at[where r = "store32 dst @ ?H @ ?r"]) (use assms(1,2) in \<open>simp add: pre_def\<close>)
  moreover have "66 \<le> length (pre @ ?H @ ?r)" using pre by (simp add: ospf_header_def)
  ultimately show ?thesis
    using advs p f by (intro exI[of _ "pre @ oh @ ?r"]) (auto simp: ks_def intro!: exI[of _ "pre @ ?H @ ?r"] simp del: append_assoc)
qed

theorem lsu_exchange_witness:
  "\<exists>f f'. rbind (build_lsu (replicate 90 7) [] (on_link 1 []) ((new_router 0 1)\<lparr>subnets := [stub 7]\<rparr>) 4)
       (address_frame 1 2 [2, 0, 0, 0, 0, 1]) = Inr f \<and>
     handle_pwospf [] (\<lambda>_. (0, 0)) 100 \<lparr>ps_packet = [], ps_len = 64, ps_interface = ''eth1'', ps_block = [],
         ps_response = 0, ps_res_len = 0\<rparr> f (on_link 2 []) arp_init =
       rbind (add_to_top (alone 0 2) [] 100 1
         [\<lparr>prefix = 7, rmask = 0x00FFFFFF, rnext_hop = 0, r_id = 0, from_lsu = 0\<rparr>]) (\<lambda>(s1, ft).
       rbind (set_sequence 1 (htons 4) s1) (\<lambda>s2.
       rbind (forward_lsu [] [] 100 \<lparr>ps_packet = [], ps_len = 64, ps_interface = ''eth1'', ps_block = [],
           ps_response = 0, ps_res_len = 0\<rparr> f' arp_init) (\<lambda>a'.
         Inr ((on_link 2 [])\<lparr>os_topo := s2, os_ftable := ft\<rparr>, a'))))"
proof -
  let ?me = "(new_router 0 1)\<lparr>subnets := [stub 7]\<rparr>"
  have keys: "advertised_keys ?me [] = [(7, 0x00FFFFFF, 0)]" "rid ?me = 1"
    by (simp_all add: advertised_keys_def adv_key_def stub_def new_router_def)
  have B: "os_topo (on_link 2 []) = alone 0 2" "os_ifs (on_link 2 []) = []" "os_autype (on_link 2 []) = 0"
    "os_area (on_link 2 []) = os_area (on_link 1 [])" by (simp_all add: on_link_def)
  have r: "rid (rt (alone 0 2) (this_router (alone 0 2))) = 2"
    by (simp add: alone_def add_new_router_def rt_def new_router_def)
  have "find (\<lambda>a. rid (rt (alone 0 2) a) = 1) (network (alone 0 2)) = None"
    by (simp add: alone_def add_new_router_def rt_def new_router_def)
  then have q: "get_sequence 1 (alone 0 2) = Inr 0" by (simp add: get_sequence_def adj_list_contains_wf wf_alone)
  have "htons 4 \<noteq> 0" by code_simp
  then show ?thesis
    using lsu_exchange[of "replicate 90 7" "[2, 0, 0, 0, 0, 1]" ?me "[]" "on_link 2 []" "on_link 1 []" 4 1 2 "[]"
        "\<lambda>_. (0, 0)" 100 "\<lparr>ps_packet = [], ps_len = 64, ps_interface = ''eth1'', ps_block = [],
         ps_response = 0, ps_res_len = 0\<rparr>" arp_init]
    by (auto simp: B keys r q wf_alone)
qed

section \<open>The state after the start\<close>

lemma clear_low_bit:
  fixes a :: u32
  shows "(if a AND NOT 1 = a then a OR 1 else a AND NOT 1) = a XOR 1"
proof (cases "bit a 0")
  case True
  have x: "a AND NOT 1 = a XOR 1" by (rule bit_word_eqI) (use True in \<open>auto simp: bit_simps\<close>)
  have "bit (a XOR 1) 0 \<noteq> bit a 0" by (simp add: bit_simps)
  then have "a XOR 1 \<noteq> a" by metis
  then show ?thesis unfolding x by simp
next
  case False
  have "a AND NOT 1 = a" by (rule bit_word_eqI) (use False in \<open>auto simp: bit_simps intro: gr0I\<close>)
  moreover have "a OR 1 = a XOR 1" by (rule bit_word_eqI) (use False in \<open>auto simp: bit_simps intro: gr0I\<close>)
  ultimately show ?thesis by simp
qed

text \<open>The next hop of an interface's own subnet is the other address of its two.\<close>

lemma peer_address:
  fixes a :: u32
  assumes "m = ntohl IF_MASK"
  shows "(if a AND m = a then ntohl (htonl a OR 1) else a AND m) = ntohl (htonl a XOR 1)"
proof -
  have m: "m = ntohl (NOT 1)" using assms by (simp add: IF_MASK_def)
  have "a AND m = ntohl (htonl a AND NOT 1)" by (simp add: ntohl_and m)
  then show ?thesis using clear_low_bit[of "htonl a"] by (metis ntohl_ntohl)
qed

lemma init_subnets:
  assumes "wf_topo s" "this_router s \<in> set (network s)" "rt s (this_router s) = r" "length (subnets r) + length ws \<le> 10"
  shows "\<exists>s'. foldr_res (init_subnet junk) ws (s, ft) = Inr (s', ft @ map iface_entry ws) \<and> evolves s s' \<and>
     network s' = network s \<and>
     rt s' (this_router s) = r\<lparr>subnets := subnets r @ map (iface_route junk) ws\<rparr>"
  using assms
proof (induction ws arbitrary: s r ft)
  case Nil
  then show ?case by (simp add: evolves_refl)
next
  case (Cons w ws)
  let ?me = "this_router s" and ?r = "r\<lparr>subnets := subnets r @ [iface_route junk w]\<rparr>"
  have al: "alive s ?me" using Cons.prems(1) wf_topoD(2,5) by blast
  have b: "ptr_bytes * (length (subnets r) + 1) \<le> subnet_bytes r"
    using wf_topoD(4)[OF Cons.prems(1,2)] Cons.prems(3,4) by (simp add: wf_router_def ptr_bytes_def)
  have ev: "evolves s (set_rt s ?me ?r)"
    using Cons.prems by (intro evolves_update) auto
  have "rt (set_rt s ?me ?r) (this_router (set_rt s ?me ?r)) = ?r" by (simp add: rt_set_rt[OF al])
  then obtain s' where s': "foldr_res (init_subnet junk) ws (set_rt s ?me ?r, ft @ [iface_entry w]) =
        Inr (s', (ft @ [iface_entry w]) @ map iface_entry ws)" "evolves (set_rt s ?me ?r) s'"
      "network s' = network s" "rt s' ?me = ?r\<lparr>subnets := subnets ?r @ map (iface_route junk) ws\<rparr>"
    using Cons.IH[of "set_rt s ?me ?r" ?r "ft @ [iface_entry w]"] ev Cons.prems(2,4) by (auto simp: evolves_def)
  have "init_subnet junk w (s, ft) = Inr (set_rt s ?me ?r, ft @ [iface_entry w])"
    using b Cons.prems(3) al by (simp add: init_subnet_def)
  with s' evolves_trans[OF ev s'(2)] show ?case by simp
qed

lemma init_subnets_overrun:
  assumes "wf_topo s" "rt s (this_router s) = r" "length (subnets r) \<le> 10" "10 < length (subnets r) + length ws"
  shows "foldr_res (init_subnet junk) ws (s, ft) = Inl Out_of_bounds"
proof -
  let ?k = "10 - length (subnets r)"
  have me: "this_router s \<in> set (network s)" by (rule wf_topoD(5)[OF assms(1)])
  define us where "us = take ?k ws"
  obtain v vs where v: "drop ?k ws = v # vs" using assms(3,4) by (cases "drop ?k ws") auto
  have ws: "ws = us @ v # vs" unfolding us_def v[symmetric] by simp
  have "length (subnets r) + length us = 10" using assms(3,4) by (simp add: us_def)
  then obtain s' where s': "foldr_res (init_subnet junk) us (s, ft) = Inr (s', ft @ map iface_entry us)" "evolves s s'"
      "rt s' (this_router s) = r\<lparr>subnets := subnets r @ map (iface_route junk) us\<rparr>"
    using init_subnets[OF assms(1) me assms(2), of us junk ft] by auto
  then have t: "this_router s' = this_router s" "wf_topo s'" "alive s' (this_router s')"
    using me wf_topoD(2) unfolding evolves_def by auto
  have "ptr_bytes * (length (subnets (rt s' (this_router s'))) + 1) > subnet_bytes (rt s' (this_router s'))"
    using wf_topoD(4)[OF t(2) wf_topoD(5)[OF t(2)]] s'(3) t(1) \<open>length (subnets r) + length us = 10\<close>
    by (simp add: wf_router_def ptr_bytes_def)
  then have "init_subnet junk v (s', ft @ map iface_entry us) = Inl Out_of_bounds"
    using t(3) by (simp add: init_subnet_def)
  then show ?thesis unfolding ws foldr_res_append using s'(1) by simp
qed

lemma create_pwospf_ifaces_map: "create_pwospf_ifaces ifs = map pwospf_iface ifs"
  by (induction ifs) simp_all

text \<open>What an entry for the interface's own two addresses says.\<close>

definition link_entry :: "sr_if \<Rightarrow> ftable_entry" where
  "link_entry w =
     \<lparr>ft_prefix = ntohl (ntohl (if_ip w) AND NOT 1), ft_mask = ntohl (NOT 1),
      ft_next_hop = ntohl (ntohl (if_ip w) XOR 1), ft_interface = strncpy_name (if_name w), ft_num_hops = 0\<rparr>"

lemma iface_route_link:
  "prefix (iface_route junk (pwospf_iface w)) = ft_prefix (link_entry w)"
  "rmask (iface_route junk (pwospf_iface w)) = ft_mask (link_entry w)"
  "rnext_hop (iface_route junk (pwospf_iface w)) = ft_next_hop (link_entry w)"
  "r_id (iface_route junk (pwospf_iface w)) = 0"
proof -
  have m: "ntohl IF_MASK = ntohl (NOT 1)" by (simp add: IF_MASK_def)
  show "prefix (iface_route junk (pwospf_iface w)) = ft_prefix (link_entry w)"
    "rmask (iface_route junk (pwospf_iface w)) = ft_mask (link_entry w)"
    "r_id (iface_route junk (pwospf_iface w)) = 0"
    unfolding iface_route_def pwospf_iface_def link_entry_def m by (simp_all add: ntohl_and)
  show "rnext_hop (iface_route junk (pwospf_iface w)) = ft_next_hop (link_entry w)"
    unfolding iface_route_def pwospf_iface_def link_entry_def route.select_convs pwospf_if.select_convs
      ftable_entry.select_convs by (rule peer_address[OF refl])
qed

lemma iface_entry_link: "iface_entry (pwospf_iface w) = link_entry w"
proof -
  have "ft_interface (link_entry w) = pif_name (pwospf_iface w)" "ft_num_hops (link_entry w) = 0"
    by (simp_all add: link_entry_def pwospf_iface_def)
  then show ?thesis by (simp add: iface_entry_def iface_route_link Let_def)
qed

lemma pwospf_init_ok:
  assumes "sr_get_interface ifs ''eth0'' = Some zero"
  shows "if length ifs \<le> 10 then
      \<exists>os s. pwospf_init ifs junk junk_aid file now = Inr os \<and> s = os_topo os \<and> wf_topo s \<and>
        network s = [this_router s] \<and> rid (rt s (this_router s)) = if_ip zero \<and>
        map (\<lambda>r. (prefix r, rmask r, rnext_hop r, r_id r)) (subnets (rt s (this_router s))) =
          map (\<lambda>w. (ft_prefix (link_entry w), ft_mask (link_entry w), ft_next_hop (link_entry w), 0)) ifs \<and>
        os_ftable os = map link_entry ifs \<and> os_ifs os = map pwospf_iface ifs \<and> list_all wf_pif (os_ifs os) \<and>
        os_seq_sent os = 0 \<and> os_autype os = 0
    else pwospf_init ifs junk junk_aid file now = Inl Out_of_bounds"
proof -
  define s where "s = (fst (add_new_router \<lparr>store = [], network = [], this_router = 0, init_time = 0\<rparr> now (if_ip zero)))"
  have a: "add_new_router \<lparr>store = [], network = [], this_router = 0, init_time = 0\<rparr> now (if_ip zero) = (s, 0)"
    by (simp add: s_def add_new_router_def)
  have n: "network s = [0]" "this_router s = 0" "rt s 0 = new_router now (if_ip zero)"
    by (simp_all add: s_def add_new_router_def rt_def)
  have wf: "wf_topo s"
    by (simp add: s_def wf_topo_def add_new_router_def alive_def rt_def wf_router_def new_router_def topo_consts)
  have s0: "s\<lparr>this_router := 0\<rparr> = s" using n(2) by simp
  let ?ws = "map pwospf_iface ifs"
  have pw: "pwospf_init ifs junk junk_aid file now =
     rbind (foldr_res (init_subnet junk) ?ws (s, [])) (\<lambda>(s', ft).
       Inr \<lparr>os_topo = s'\<lparr>init_time := now + TOP_INITIALIZATION\<rparr>, os_ftable = ft, os_ifs = ?ws,
            os_seq_sent = 0, os_area = read_config junk_aid file, os_autype = 0\<rparr>)"
    unfolding pwospf_init_def Let_def assms option.case a prod.case s0 create_pwospf_ifaces_map ..
  show ?thesis
  proof (cases "length ifs \<le> 10")
    case True
    obtain s' where s': "foldr_res (init_subnet junk) ?ws (s, []) = Inr (s', map iface_entry ?ws)" "evolves s s'"
       "network s' = [0]" "rt s' 0 = (new_router now (if_ip zero))\<lparr>subnets := map (iface_route junk) ?ws\<rparr>"
      using init_subnets[OF wf, of "new_router now (if_ip zero)" ?ws junk "[]"] True n by (auto simp: new_router_def)
    let ?t = "s'\<lparr>init_time := now + TOP_INITIALIZATION\<rparr>"
    have t: "rt ?t = rt s'" "alive ?t = alive s'" by (simp_all add: rt_def alive_def fun_eq_iff)
    have wft: "wf_topo ?t" using evolvesD(1)[OF s'(2)] by (simp add: wf_topo_def t)
    have sub: "map (\<lambda>r. (prefix r, rmask r, rnext_hop r, r_id r)) (map (iface_route junk) ?ws) =
       map (\<lambda>w. (ft_prefix (link_entry w), ft_mask (link_entry w), ft_next_hop (link_entry w), 0)) ifs"
      by (simp add: iface_route_link)
    have wp: "list_all wf_pif ?ws"
      by (simp add: list_all_iff wf_pif_def pwospf_iface_def pwospf_consts ptr_bytes_def)
    have "map iface_entry ?ws = map link_entry ifs" by (simp add: iface_entry_link)
    moreover have "this_router s' = 0" using s'(2) n(2) by (simp add: evolves_def)
    ultimately show ?thesis using True s' wft sub wp unfolding pw
      by (simp add: t new_router_def)
  next
    case False
    then have "foldr_res (init_subnet junk) ?ws (s, []) = Inl Out_of_bounds"
      using init_subnets_overrun[OF wf refl, of ?ws] n by (simp add: new_router_def)
    with False show ?thesis by (simp add: pw)
  qed
qed

text \<open>
  Start. With an interface \<^verbatim>\<open>eth0\<close> and at most ten interfaces, \<^verbatim>\<open>pwospf_init\<close> leaves a well-formed
  database with this router alone in it, under the address of \<^verbatim>\<open>eth0\<close>, one subnet and one forwarding entry
  for each interface, in order, whose next hop is the other address of the interface's two, and no
  neighbours; with more than ten, it writes past the array of subnets.
\<close>
theorem pwospf_init_state:
  assumes "sr_get_interface ifs ''eth0'' = Some zero"
  shows "if length ifs \<le> 10 then
      \<exists>os s. pwospf_init ifs junk junk_aid file now = Inr os \<and> s = os_topo os \<and> wf_topo s \<and>
        network s = [this_router s] \<and> rid (rt s (this_router s)) = if_ip zero \<and>
        map (\<lambda>r. (prefix r, rmask r, rnext_hop r, r_id r)) (subnets (rt s (this_router s))) =
          map (\<lambda>w. (ft_prefix (link_entry w), ft_mask (link_entry w), ft_next_hop (link_entry w), 0)) ifs \<and>
        os_ftable os = map link_entry ifs \<and> os_ifs os = map pwospf_iface ifs \<and> list_all wf_pif (os_ifs os) \<and>
        os_seq_sent os = 0 \<and> os_autype os = 0
    else pwospf_init ifs junk junk_aid file now = Inl Out_of_bounds"
  by (rule pwospf_init_ok[OF assms])

theorem pwospf_init_state_witness:
  "(\<exists>os. pwospf_init [sample_if, sample_if1] 0 0 None 100 = Inr os \<and>
      os_ftable os = [link_entry sample_if, link_entry sample_if1] \<and> wf_topo (os_topo os)) \<and>
   pwospf_init (replicate 11 sample_if) 0 0 None 100 = Inl Out_of_bounds"
proof
  have "sr_get_interface [sample_if, sample_if1] ''eth0'' = Some sample_if" by (simp add: sample_if_def)
  from pwospf_init_state[OF this, of 0 0 None 100]
  show "\<exists>os. pwospf_init [sample_if, sample_if1] 0 0 None 100 = Inr os \<and>
      os_ftable os = [link_entry sample_if, link_entry sample_if1] \<and> wf_topo (os_topo os)" by auto
  have "sr_get_interface (replicate 11 sample_if) ''eth0'' = Some sample_if"
    by (simp add: sample_if_def eval_nat_numeral)
  from pwospf_init_state[OF this, of 0 0 None 100]
  show "pwospf_init (replicate 11 sample_if) 0 0 None 100 = Inl Out_of_bounds" by simp
qed

end
