(* ===== verification/Firewall.thy ===== *)
theory Firewall
  imports Prelude
begin

text \<open>
  The stateful firewall of \<^verbatim>\<open>fw.c\<close>: the rule table, the flow table with expiry times and
  update counters, the interface categories. The linked lists are HOL lists in link order;
  the fields of \<^verbatim>\<open>struct sr_instance\<close> that this component owns are one record.
\<close>

section \<open>State\<close>

record conn =
  c_ip_s :: u32
  c_ip_d :: u32
  c_protocol :: u8
  c_port_s :: u16
  c_port_d :: u16

record ft_entry = conn +
  exp_time :: time
  ttl_updates :: u32

record firewall =
  rules :: "ft_entry list"
  flow_table :: "ft_entry list"
  ft_size :: int
  inter :: "string list"
  exter :: "string list"

definition TTL_INCREMENT :: time where "TTL_INCREMENT = 50"
definition MAX_TTL_UPDATES :: u32 where "MAX_TTL_UPDATES = 80"
definition MAX_FT_SIZE :: int where "MAX_FT_SIZE = 30"

lemmas fw_limits = TTL_INCREMENT_def MAX_TTL_UPDATES_def MAX_FT_SIZE_def

text \<open>The five arguments \<^verbatim>\<open>(ip_s, ip_d, protocol, port_s, port_d)\<close> as one value.\<close>

definition new_entry :: "conn \<Rightarrow> time \<Rightarrow> ft_entry" where
  "new_entry c t = \<lparr>c_ip_s = c_ip_s c, c_ip_d = c_ip_d c, c_protocol = c_protocol c,
     c_port_s = c_port_s c, c_port_d = c_port_d c, exp_time = t, ttl_updates = 0\<rparr>"

definition same_conn :: "conn \<Rightarrow> ft_entry \<Rightarrow> bool" where
  "same_conn c e \<longleftrightarrow> c_ip_s e = c_ip_s c \<and> c_ip_d e = c_ip_d c \<and> c_protocol e = c_protocol c \<and>
     c_port_s e = c_port_s c \<and> c_port_d e = c_port_d c"

section \<open>Rules and interface categories\<close>

definition add_rule :: "firewall \<Rightarrow> conn \<Rightarrow> firewall" where
  "add_rule fw c = fw\<lparr>rules := rules fw @ [new_entry c 0]\<rparr>"

text \<open>
  \<^verbatim>\<open>rule_contains\<close>: zero fields of a rule are wildcards. The protocol of the rule is
  compared with the destination address, as the code does (\<^verbatim>\<open>walker->protocol == ip_d\<close>).
\<close>

definition rule_hit :: "conn \<Rightarrow> ft_entry \<Rightarrow> bool" where
  "rule_hit c w \<longleftrightarrow>
     (c_ip_s w = c_ip_s c \<or> c_ip_s w = 0) \<and>
     (c_ip_d w = c_ip_d c \<or> c_ip_d w = 0) \<and>
     (ucast (c_protocol w) = c_ip_d c \<or> c_protocol w = 0) \<and>
     (c_port_s w = c_port_s c \<or> c_port_s w = 0) \<and>
     (c_port_d w = c_port_d c \<or> c_port_d w = 0)"

primrec rule_walk :: "ft_entry list \<Rightarrow> conn \<Rightarrow> bool" where
  "rule_walk [] c = False"
| "rule_walk (w # ws) c = (if rule_hit c w then True else rule_walk ws c)"

definition rule_contains :: "firewall \<Rightarrow> conn \<Rightarrow> bool" where
  "rule_contains fw c = rule_walk (rules fw) c"

primrec name_walk :: "string list \<Rightarrow> string \<Rightarrow> bool" where
  "name_walk [] iface = False"
| "name_walk (w # ws) iface = (if w = iface then True else name_walk ws iface)"

definition is_external :: "firewall \<Rightarrow> string \<Rightarrow> bool" where
  "is_external fw iface = name_walk (exter fw) iface"

definition is_internal :: "firewall \<Rightarrow> string \<Rightarrow> bool" where
  "is_internal fw iface = name_walk (inter fw) iface"

text \<open>
  \<^verbatim>\<open>init_if_config\<close> on the lines of the file, each a name and a category as \<^verbatim>\<open>sscanf\<close>
  leaves them. The walkers are positions: a new node is linked behind the walker, which cuts
  off what followed it, and the walker moves to it.
\<close>

definition link_after :: "string list \<Rightarrow> nat \<Rightarrow> string \<Rightarrow> string list \<times> nat" where
  "link_after xs walker x =
     (if xs = [] then ([x], 0) else (take (Suc walker) xs @ [x], Suc walker))"

fun if_config_loop ::
  "(string \<times> string) list \<Rightarrow> string list \<times> nat \<Rightarrow> string list \<times> nat \<Rightarrow> string list \<times> string list" where
  "if_config_loop [] (el, ew) (il, iw) = (el, il)"
| "if_config_loop ((nm, category) # ls) (el, ew) (il, iw) =
     (if category = ''external''
      then if_config_loop ls (link_after el ew (strncpy_name nm)) (il, iw)
      else if category = ''internal''
      then if_config_loop ls (el, ew) (link_after il iw (strncpy_name nm))
      else if_config_loop ls (el, ew) (il, iw))"

definition init_if_config :: "(string \<times> string) list \<Rightarrow> firewall \<Rightarrow> firewall" where
  "init_if_config ls fw =
     (case if_config_loop ls (exter fw, 0) (inter fw, 0) of (el, il) \<Rightarrow>
        fw\<lparr>exter := el, inter := il\<rparr>)"

section \<open>The flow table\<close>

text \<open>An entry that \<^verbatim>\<open>ft_contains\<close> accepts, and one that \<^verbatim>\<open>remove_stale_entries\<close> removes.\<close>

definition live :: "time \<Rightarrow> ft_entry \<Rightarrow> bool" where
  "live now e \<longleftrightarrow> now \<le> exp_time e \<and> ttl_updates e \<le> MAX_TTL_UPDATES"

definition stale :: "time \<Rightarrow> ft_entry \<Rightarrow> bool" where
  "stale now e \<longleftrightarrow> MAX_TTL_UPDATES < ttl_updates e \<or> exp_time e < now"

text \<open>The pointer that \<^verbatim>\<open>ft_contains\<close> returns is the position of the node.\<close>

primrec ft_contains :: "ft_entry list \<Rightarrow> conn \<Rightarrow> time \<Rightarrow> nat option" where
  "ft_contains [] c now = None"
| "ft_contains (w # ws) c now =
     (if same_conn c w \<and> live now w then Some 0 else map_option Suc (ft_contains ws c now))"

definition refresh :: "ft_entry \<Rightarrow> ft_entry" where
  "refresh e = e\<lparr>exp_time := exp_time e + TTL_INCREMENT, ttl_updates := ttl_updates e + 1\<rparr>"

definition touch :: "firewall \<Rightarrow> nat \<Rightarrow> firewall" where
  "touch fw i = fw\<lparr>flow_table := (flow_table fw)[i := refresh (flow_table fw ! i)]\<rparr>"

definition check_connection :: "firewall \<Rightarrow> conn \<Rightarrow> time \<Rightarrow> bool \<times> firewall" where
  "check_connection fw c now =
     (if rule_contains fw c then (True, fw)
      else case ft_contains (flow_table fw) c now of
             Some i \<Rightarrow> (True, touch fw i)
           | None \<Rightarrow> (False, fw))"

definition add_connect :: "firewall \<Rightarrow> conn \<Rightarrow> time \<Rightarrow> firewall" where
  "add_connect fw c now =
     fw\<lparr>flow_table := flow_table fw @ [new_entry c (now + TTL_INCREMENT)],
        ft_size := ft_size fw + 1\<rparr>"

text \<open>
  \<^verbatim>\<open>remove_stale_entries\<close>: the list head, the list from the walker on, \<^verbatim>\<open>prev\<close> and the size.
  With \<^verbatim>\<open>prev\<close> set the code frees the walker and reads it again in the next round; but no
  statement sets \<^verbatim>\<open>prev\<close>, so a stale walker always unlinks the head of the list.
\<close>

fun remove_stale_loop ::
  "time \<Rightarrow> nat option \<Rightarrow> ft_entry list \<Rightarrow> ft_entry list \<Rightarrow> int \<Rightarrow> (ft_entry list \<times> int) result" where
  "remove_stale_loop now prev head [] sz = Inr (head, sz)"
| "remove_stale_loop now prev head (w # ws) sz =
     (if stale now w then
        (case prev of
           None \<Rightarrow> (case head of
                      [] \<Rightarrow> Inl Null_pointer
                    | h # hs \<Rightarrow> remove_stale_loop now prev hs hs (sz - 1))
         | Some p \<Rightarrow> Inl Use_after_free)
      else remove_stale_loop now prev head ws sz)"

definition remove_stale_entries :: "firewall \<Rightarrow> time \<Rightarrow> firewall result" where
  "remove_stale_entries fw now =
     rbind (remove_stale_loop now None (flow_table fw) (flow_table fw) (ft_size fw))
       (\<lambda>(fl, n). Inr (fw\<lparr>flow_table := fl, ft_size := n\<rparr>))"

definition tell_valid :: "firewall \<Rightarrow> conn \<Rightarrow> time \<Rightarrow> (bool \<times> firewall) result" where
  "tell_valid fw c now =
     (case ft_contains (flow_table fw) c now of
        Some i \<Rightarrow> Inr (True, touch fw i)
      | None \<Rightarrow>
          if ft_size fw < MAX_FT_SIZE then Inr (True, add_connect fw c now)
          else rbind (remove_stale_entries fw now) (\<lambda>fw'.
                 if ft_size fw' < MAX_FT_SIZE then Inr (True, add_connect fw' c now)
                 else Inr (False, fw')))"

section \<open>Lemmas on the lookups\<close>

lemma stale_iff: "stale now e \<longleftrightarrow> \<not> live now e"
  by (auto simp: stale_def live_def)

lemma rule_walk_iff: "rule_walk ws c \<longleftrightarrow> (\<exists>w \<in> set ws. rule_hit c w)"
  by (induction ws) auto

lemma name_walk_iff: "name_walk ws iface \<longleftrightarrow> iface \<in> set ws"
  by (induction ws) auto

lemma ft_contains_None:
  "ft_contains ws c now = None \<longleftrightarrow> (\<forall>w \<in> set ws. \<not> (same_conn c w \<and> live now w))"
  by (induction ws) auto

lemma ft_contains_Some:
  "ft_contains ws c now = Some i \<Longrightarrow> i < length ws \<and> same_conn c (ws ! i) \<and> live now (ws ! i)"
proof (induction ws arbitrary: i)
  case (Cons w ws)
  then show ?case by (cases i) (auto split: if_splits)
qed simp

lemma same_conn_new [simp]: "same_conn c (new_entry c t)"
  by (simp add: same_conn_def new_entry_def)

lemma same_conn_refresh [simp]: "same_conn c (refresh e) = same_conn c e"
  by (simp add: same_conn_def refresh_def)

lemma refresh_updates: "ttl_updates e \<le> 80 \<Longrightarrow> ttl_updates (refresh e) \<le> 81"
  by (simp add: refresh_def) (unat_arith; simp)

section \<open>Removal of stale entries\<close>

text \<open>The part of a list behind its last element with a property.\<close>

definition after_last :: "('a \<Rightarrow> bool) \<Rightarrow> 'a list \<Rightarrow> 'a list" where
  "after_last P xs = rev (takeWhile (\<lambda>x. \<not> P x) (rev xs))"

lemma takeWhile_rev_all: "\<forall>x \<in> set xs. \<not> P x \<Longrightarrow> takeWhile (\<lambda>x. \<not> P x) (rev xs) = rev xs"
  by (metis takeWhile_eq_all_conv set_rev)

lemma after_last_none: "\<forall>x \<in> set xs. \<not> P x \<Longrightarrow> after_last P xs = xs"
  by (simp only: after_last_def takeWhile_rev_all rev_rev_ident)

lemma after_last_Cons: "\<exists>x \<in> set (h # hs). P x \<Longrightarrow> after_last P (h # hs) = after_last P hs"
proof (cases "\<exists>x \<in> set hs. P x")
  case True
  then show ?thesis by (auto simp: after_last_def takeWhile_append1)
next
  case False
  moreover assume "\<exists>x \<in> set (h # hs). P x"
  ultimately have h: "P h" and hs: "\<forall>x \<in> set hs. \<not> P x" by auto
  have "takeWhile (\<lambda>x. \<not> P x) (rev hs @ [h]) = rev hs @ takeWhile (\<lambda>x. \<not> P x) [h]"
    using hs by (intro takeWhile_append2) auto
  with h have "after_last P (h # hs) = hs" by (simp add: after_last_def)
  then show ?thesis by (simp only: after_last_none[OF hs])
qed

lemma after_last_suffix: "\<exists>us. xs = us @ after_last P xs"
  by (metis after_last_def rev_append rev_rev_ident takeWhile_dropWhile_id)

lemma remove_stale_loop_spec:
  assumes "head = pre @ ws" and "\<forall>e \<in> set pre. \<not> stale now e"
  shows "remove_stale_loop now None head ws sz =
    Inr (after_last (stale now) head,
         sz - int (length head - length (after_last (stale now) head)))"
  using assms
proof (induction now "None :: nat option" head ws sz arbitrary: pre rule: remove_stale_loop.induct)
  case (1 now head sz)
  then show ?case by (simp add: after_last_none)
next
  case (2 now head w ws sz)
  show ?case
  proof (cases "stale now w")
    case True
    obtain h hs where head: "head = h # hs" using 2(3) by (metis append_is_Nil_conv list.exhaust list.simps(3))
    have hs: "\<exists>us. hs = us @ after_last (stale now) hs" by (rule after_last_suffix)
    have "\<exists>x \<in> set (h # hs). stale now x"
      using 2(3) True unfolding head by (metis in_set_conv_decomp)
    then have "after_last (stale now) head = after_last (stale now) hs"
      unfolding head by (rule after_last_Cons)
    moreover have "remove_stale_loop now None hs hs (sz - 1) =
       Inr (after_last (stale now) hs, sz - 1 - int (length hs - length (after_last (stale now) hs)))"
      using 2(1)[OF True refl head, of "[]"] by simp
    moreover have "length (after_last (stale now) hs) \<le> length hs"
      using hs by (metis length_append le_add2)
    ultimately show ?thesis using True head by (simp add: of_nat_diff)
  next
    case False
    with 2 show ?thesis by simp
  qed
qed

lemma remove_stale_entries_eq:
  "remove_stale_entries fw now = Inr (fw\<lparr>flow_table := after_last (stale now) (flow_table fw),
     ft_size := ft_size fw -
       int (length (flow_table fw) - length (after_last (stale now) (flow_table fw)))\<rparr>)"
  using remove_stale_loop_spec[of "flow_table fw" "[]"] by (simp add: remove_stale_entries_def)

lemma set_after_last: "set (after_last P xs) \<subseteq> set xs" "\<forall>x \<in> set (after_last P xs). \<not> P x"
  by (auto simp: after_last_def dest: set_takeWhileD)

lemma after_last_id_iff: "after_last P xs = xs \<longleftrightarrow> (\<forall>x \<in> set xs. \<not> P x)"
  using after_last_none[of xs P] set_after_last(2)[of P xs] by metis

lemma length_after_last: "length (after_last P xs) \<le> length xs"
  by (metis after_last_suffix length_append le_add2)

lemma length_after_last_less: "\<not> (\<forall>x \<in> set xs. \<not> P x) \<Longrightarrow> length (after_last P xs) < length xs"
  using after_last_suffix[of xs P] after_last_id_iff[of P xs] by (metis append_Nil append_eq_append_conv
      le_neq_implies_less length_after_last self_append_conv2 append_self_conv2)

section \<open>The invariant\<close>

text \<open>
  The size field counts the list, the table stays within its bound, and no update counter
  passes 81, so the 32-bit counter never wraps.
\<close>

definition fw_ok :: "firewall \<Rightarrow> bool" where
  "fw_ok fw \<longleftrightarrow> ft_size fw = int (length (flow_table fw)) \<and> ft_size fw \<le> MAX_FT_SIZE \<and>
     (\<forall>e \<in> set (flow_table fw). ttl_updates e \<le> 81)"

lemma touch_ok: "fw_ok fw \<Longrightarrow> ft_contains (flow_table fw) c now = Some i \<Longrightarrow> fw_ok (touch fw i)"
proof -
  assume ok: "fw_ok fw" and some: "ft_contains (flow_table fw) c now = Some i"
  from ft_contains_Some[OF some] have "ttl_updates (refresh (flow_table fw ! i)) \<le> 81"
    by (intro refresh_updates) (simp add: live_def fw_limits)
  with ok show ?thesis
    by (auto simp: fw_ok_def touch_def dest!: set_update_subset_insert[THEN subsetD])
qed

lemma add_connect_ok: "fw_ok fw \<Longrightarrow> ft_size fw < MAX_FT_SIZE \<Longrightarrow> fw_ok (add_connect fw c now)"
  by (auto simp: fw_ok_def add_connect_def new_entry_def)

lemma remove_stale_entries_ok:
  assumes "fw_ok fw" and "remove_stale_entries fw now = Inr fw'"
  shows "fw_ok fw'"
proof -
  let ?l = "after_last (stale now) (flow_table fw)"
  have "fw' = fw\<lparr>flow_table := ?l,
     ft_size := ft_size fw - int (length (flow_table fw) - length ?l)\<rparr>"
    using assms(2) by (simp add: remove_stale_entries_eq)
  then show ?thesis
    using assms(1) length_after_last[of "stale now" "flow_table fw"] set_after_last(1)[of "stale now" "flow_table fw"]
    by (auto simp: fw_ok_def of_nat_diff)
qed

lemma check_connection_ok: "fw_ok fw \<Longrightarrow> fw_ok (snd (check_connection fw c now))"
  by (auto simp: check_connection_def touch_ok split: option.split)

lemma tell_valid_ok:
  assumes "fw_ok fw" and "tell_valid fw c now = Inr (b, fw')"
  shows "fw_ok fw'"
  using assms touch_ok add_connect_ok remove_stale_entries_ok
  by (auto simp: tell_valid_def rbind_eq_Inr split: option.splits if_splits)

text \<open>The runs of the firewall, with the connections that \<^verbatim>\<open>tell_valid\<close> has accepted.\<close>

inductive fw_run :: "firewall \<Rightarrow> conn set \<Rightarrow> bool" where
  start: "flow_table fw = [] \<Longrightarrow> ft_size fw = 0 \<Longrightarrow> fw_run fw {}"
| checked: "fw_run fw opened \<Longrightarrow> fw_run (snd (check_connection fw c now)) opened"
| told: "fw_run fw opened \<Longrightarrow> tell_valid fw c now = Inr (b, fw') \<Longrightarrow>
         fw_run fw' (if b then insert c opened else opened)"
| swept: "fw_run fw opened \<Longrightarrow> remove_stale_entries fw now = Inr fw' \<Longrightarrow> fw_run fw' opened"

lemma fw_run_ok: "fw_run fw opened \<Longrightarrow> fw_ok fw"
proof (induction rule: fw_run.induct)
  case (start fw)
  then show ?case by (simp add: fw_ok_def fw_limits)
qed (auto intro: check_connection_ok tell_valid_ok remove_stale_entries_ok)

lemma touch_conns:
  "e \<in> set (flow_table (touch fw i)) \<Longrightarrow> i < length (flow_table fw) \<Longrightarrow>
   \<exists>d \<in> set (flow_table fw). \<forall>c. same_conn c e = same_conn c d"
  by (auto simp: touch_def dest!: set_update_subset_insert[THEN subsetD])

lemma fw_run_opened: "fw_run fw opened \<Longrightarrow> e \<in> set (flow_table fw) \<Longrightarrow> \<exists>c \<in> opened. same_conn c e"
proof (induction arbitrary: e rule: fw_run.induct)
  case (checked fw opened c now)
  show ?case
  proof (cases "rule_contains fw c \<or> ft_contains (flow_table fw) c now = None")
    case True
    with checked show ?thesis by (auto simp: check_connection_def split: if_splits)
  next
    case False
    then obtain i where i: "ft_contains (flow_table fw) c now = Some i"
      "snd (check_connection fw c now) = touch fw i" by (auto simp: check_connection_def)
    with checked touch_conns[of e fw i] ft_contains_Some[OF i(1)] show ?thesis by metis
  qed
next
  case (told fw opened c now b fw')
  show ?case
  proof (cases "ft_contains (flow_table fw) c now")
    case (Some i)
    with told have "fw' = touch fw i" "b" by (auto simp: tell_valid_def)
    with told touch_conns[of e fw i] ft_contains_Some[OF Some] show ?thesis by (metis insertCI)
  next
    case None
    have "e \<in> set (flow_table fw) \<or> (b \<and> e = new_entry c (now + TTL_INCREMENT))"
      using told None set_after_last(1)[of "stale now" "flow_table fw"]
      by (auto simp: tell_valid_def add_connect_def remove_stale_entries_eq split: if_splits)
    with told show ?thesis by auto
  qed
next
  case (swept fw opened now fw')
  with set_after_last(1)[of "stale now" "flow_table fw"] show ?case
    by (auto simp: remove_stale_entries_eq)
qed simp

section \<open>Properties\<close>

text \<open>
  In every run of the firewall the recorded size is the number of flow entries, it never
  exceeds \<^verbatim>\<open>MAX_FT_SIZE\<close>, and every update counter is at most 81, so none wraps.
\<close>
theorem fw_run_bounds:
  assumes "fw_run fw opened"
  shows "ft_size fw = int (length (flow_table fw)) \<and> length (flow_table fw) \<le> 30 \<and>
         (\<forall>e \<in> set (flow_table fw). ttl_updates e \<le> 81)"
  using fw_run_ok[OF assms] by (auto simp: fw_ok_def fw_limits)

definition empty_fw :: firewall where
  "empty_fw = \<lparr>rules = [], flow_table = [], ft_size = 0, inter = [''eth1''], exter = [''eth0'']\<rparr>"

definition sample_conn :: conn where
  "sample_conn = \<lparr>c_ip_s = 1, c_ip_d = 2, c_protocol = 6, c_port_s = 80, c_port_d = 1024\<rparr>"

lemma sample_run: "fw_run (add_connect empty_fw sample_conn 100) {sample_conn}"
proof -
  have "fw_run empty_fw {}" by (rule fw_run.start) (simp_all add: empty_fw_def)
  moreover have "tell_valid empty_fw sample_conn 100 = Inr (True, add_connect empty_fw sample_conn 100)"
    by (simp add: tell_valid_def empty_fw_def fw_limits)
  ultimately show ?thesis using fw_run.told by fastforce
qed

theorem fw_run_bounds_witness:
  "length (flow_table (add_connect empty_fw sample_conn 100)) = 1 \<and>
   ft_size (add_connect empty_fw sample_conn 100) = 1"
  using fw_run_bounds[OF sample_run] by (simp add: add_connect_def empty_fw_def)

text \<open>
  C25. Admission is justified: when \<^verbatim>\<open>check_connection\<close> admits a connection, a rule matches
  it or \<^verbatim>\<open>tell_valid\<close> accepted the same connection earlier in the run.
\<close>
theorem check_connection_justified:
  assumes "fw_run fw opened" and "check_connection fw c now = (True, fw')"
  shows "rule_contains fw c \<or> c \<in> opened"
proof (cases "rule_contains fw c")
  case False
  with assms(2) obtain i where "ft_contains (flow_table fw) c now = Some i"
    by (auto simp: check_connection_def split: option.splits)
  then have i: "i < length (flow_table fw)" "same_conn c (flow_table fw ! i)"
    by (auto dest: ft_contains_Some)
  with fw_run_opened[OF assms(1)] obtain d where "d \<in> opened" "same_conn d (flow_table fw ! i)"
    by (meson nth_mem)
  with i have "d = c" by (intro conn.equality) (auto simp: same_conn_def)
  with \<open>d \<in> opened\<close> show ?thesis by simp
qed simp

theorem check_connection_justified_witness:
  "fst (check_connection (add_connect empty_fw sample_conn 100) sample_conn 120) \<and>
   sample_conn \<in> {sample_conn}"
proof -
  let ?fw = "add_connect empty_fw sample_conn 100"
  obtain fw' where *: "check_connection ?fw sample_conn 120 = (True, fw')"
    by (simp add: check_connection_def add_connect_def empty_fw_def rule_contains_def
        sample_conn_def new_entry_def same_conn_def live_def fw_limits)
  have "\<not> rule_contains ?fw sample_conn" by (simp add: rule_contains_def add_connect_def empty_fw_def)
  with check_connection_justified[OF sample_run *] * show ?thesis by simp
qed

text \<open>
  The verdict of \<^verbatim>\<open>check_connection\<close>: it admits exactly the connections that some rule
  hits or for which the flow table holds an unexpired entry below its update limit. A
  connection admitted by a rule leaves the tables unchanged.
\<close>
theorem check_connection_verdict:
  "fst (check_connection fw c now) \<longleftrightarrow>
     (\<exists>r \<in> set (rules fw). rule_hit c r) \<or> (\<exists>e \<in> set (flow_table fw). same_conn c e \<and> live now e)"
  using ft_contains_None[of "flow_table fw" c now]
  by (auto simp: check_connection_def rule_contains_def rule_walk_iff split: option.splits)

text \<open>
  \<^verbatim>\<open>remove_stale_entries\<close> never faults, and what it keeps is the part of the flow table
  behind the last stale entry: every stale entry goes, but so does every entry, live or not,
  that stands before one. The size field follows the list.
\<close>
theorem remove_stale_entries_spec:
  "\<exists>fw'. remove_stale_entries fw now = Inr fw' \<and>
     flow_table fw' = after_last (stale now) (flow_table fw) \<and>
     ft_size fw' - int (length (flow_table fw')) = ft_size fw - int (length (flow_table fw)) \<and>
     (\<forall>e \<in> set (flow_table fw'). live now e)"
  using length_after_last[of "stale now" "flow_table fw"] set_after_last(2)[of "stale now" "flow_table fw"]
  by (simp add: remove_stale_entries_eq of_nat_diff stale_iff)

definition mixed_fw :: firewall where
  "mixed_fw = empty_fw\<lparr>flow_table := [new_entry sample_conn 500, new_entry sample_conn 10,
     new_entry sample_conn 400], ft_size := 3\<rparr>"

text \<open>
  A live entry that stands before a stale one is lost, which the comment of
  \<^verbatim>\<open>remove_stale_entries\<close> (it removes entries that are no longer valid) does not say.
\<close>
theorem remove_stale_entries_drops_live:
  assumes "flow_table fw = us @ e # vs @ s # ws" and "live now e" and "stale now s"
    and "e \<notin> set ws"
  shows "\<exists>fw'. remove_stale_entries fw now = Inr fw' \<and> e \<notin> set (flow_table fw')"
proof -
  have "after_last (stale now) (xs @ s # ws) = after_last (stale now) ws" for xs
    using assms(3) by (induction xs) (simp_all add: after_last_Cons)
  from this[of "us @ e # vs"] have "after_last (stale now) (flow_table fw) = after_last (stale now) ws"
    by (simp add: assms(1))
  with set_after_last(1)[of "stale now" ws] assms(4) show ?thesis
    by (auto simp: remove_stale_entries_eq)
qed

text \<open>
  The protocol of a rule is compared with the destination address: the verdict of the
  rule table does not depend on the packet's protocol, and a rule that names a protocol can
  hit only the destination address with that number.
\<close>
theorem rule_protocol_not_checked:
  "rule_contains fw (c\<lparr>c_protocol := p\<rparr>) = rule_contains fw c \<and>
   (\<forall>w. rule_hit c w \<and> c_protocol w \<noteq> 0 \<longrightarrow> c_ip_d c = ucast (c_protocol w))"
  by (auto simp: rule_contains_def rule_walk_iff rule_hit_def)

text \<open>
  \<^verbatim>\<open>tell_valid\<close> never faults, and it refuses a connection exactly when the table holds
  \<^verbatim>\<open>MAX_FT_SIZE\<close> entries, all of them live and none of them this connection.
\<close>
theorem tell_valid_refuses_iff:
  assumes "fw_ok fw"
  shows "\<exists>b fw'. tell_valid fw c now = Inr (b, fw') \<and>
    (\<not> b \<longleftrightarrow> length (flow_table fw) = 30 \<and>
       (\<forall>e \<in> set (flow_table fw). live now e \<and> \<not> same_conn c e))"
proof (cases "ft_contains (flow_table fw) c now")
  case (Some i)
  then have "tell_valid fw c now = Inr (True, touch fw i)" by (simp add: tell_valid_def)
  moreover have "\<not> (\<forall>e \<in> set (flow_table fw). live now e \<and> \<not> same_conn c e)"
    using ft_contains_Some[OF Some] nth_mem by blast
  ultimately show ?thesis by blast
next
  case None
  note full = assms[unfolded fw_ok_def fw_limits]
  show ?thesis
  proof (cases "\<forall>e \<in> set (flow_table fw). live now e")
    case True
    then have "after_last (stale now) (flow_table fw) = flow_table fw"
      by (simp add: after_last_id_iff stale_iff)
    with None True full ft_contains_None[of "flow_table fw" c now] show ?thesis
      by (auto simp: tell_valid_def remove_stale_entries_eq fw_limits)
  next
    case False
    then have "length (after_last (stale now) (flow_table fw)) < length (flow_table fw)"
      by (intro length_after_last_less) (auto simp: stale_iff)
    with None False full show ?thesis
      by (auto simp: tell_valid_def remove_stale_entries_eq fw_limits of_nat_diff)
  qed
qed

text \<open>
  An accepted connection is let back in: after \<^verbatim>\<open>tell_valid\<close> accepts at time \<open>now\<close>, the
  reverse check at any time up to \<open>now + TTL_INCREMENT\<close> succeeds, unless this very call was
  the update that took the entry past its limit.
\<close>
theorem tell_valid_opens:
  assumes "tell_valid fw c now = Inr (True, fw')" and "now \<le> t" and "t \<le> now + TTL_INCREMENT"
    and "\<And>e. e \<in> set (flow_table fw) \<Longrightarrow> same_conn c e \<Longrightarrow> ttl_updates e < MAX_TTL_UPDATES"
  shows "fst (check_connection fw' c t)"
proof -
  have "\<exists>e \<in> set (flow_table fw'). same_conn c e \<and> live t e"
  proof (cases "ft_contains (flow_table fw) c now")
    case (Some i)
    note i = ft_contains_Some[OF Some]
    with assms(4) have "ttl_updates (flow_table fw ! i) < 80" by (simp add: fw_limits)
    then have "ttl_updates (refresh (flow_table fw ! i)) \<le> 80"
      by (simp add: refresh_def) (unat_arith; simp)
    then have "live t (refresh (flow_table fw ! i))"
      using i assms(2,3) by (simp add: live_def refresh_def fw_limits)
    moreover have "refresh (flow_table fw ! i) \<in> set (flow_table fw')"
      using assms(1) Some i by (auto simp: tell_valid_def touch_def set_update_memI)
    ultimately show ?thesis using i by (metis same_conn_refresh)
  next
    case None
    then have "new_entry c (now + TTL_INCREMENT) \<in> set (flow_table fw')"
      using assms(1)
      by (auto simp: tell_valid_def add_connect_def remove_stale_entries_eq split: if_splits)
    moreover have "live t (new_entry c (now + TTL_INCREMENT))"
      using assms(3) by (simp add: live_def new_entry_def fw_limits)
    ultimately show ?thesis by (metis same_conn_new)
  qed
  then show ?thesis
    using ft_contains_None[of "flow_table fw'" c t]
    by (auto simp: check_connection_def split: option.splits)
qed

theorem tell_valid_opens_witness:
  "fst (check_connection (add_connect empty_fw sample_conn 100) sample_conn 140)"
proof (rule tell_valid_opens)
  show "tell_valid empty_fw sample_conn 100 = Inr (True, add_connect empty_fw sample_conn 100)"
    by (simp add: tell_valid_def empty_fw_def fw_limits)
qed (simp_all add: empty_fw_def fw_limits)

end
