(* ===== verification/Router.thy ===== *)
theory Router
  imports Pwospf Firewall
begin

text \<open>
  The packet handler of \<^verbatim>\<open>sr_router.c\<close>: \<^verbatim>\<open>sr_handlepacket\<close>, \<^verbatim>\<open>handle_ip\<close> and
  \<^verbatim>\<open>create_eth_hdr\<close>, over the state of the whole router.
\<close>

section \<open>State\<close>

record router_state =
  ri_ifs :: "sr_if list"
  ri_rt :: "sr_rt list"
  ri_fw :: firewall
  ri_arp :: arp_state
  ri_ospf :: ospf

record ip_state = packet_state +
  ps_rt_entry :: "sr_rt option"
  ps_dyn_entry :: "ftable_entry option"
  ps_forward :: bool
  ps_ok_to_send :: bool

definition IPPROTO_TCP :: u8 where "IPPROTO_TCP = 6"
definition IPPROTO_UDP :: u8 where "IPPROTO_UDP = 17"

lemmas ip_consts = IPPROTO_TCP_def IPPROTO_UDP_def hello_consts icmp_types arp_consts

text \<open>
  The fields of an IP header. \<^verbatim>\<open>ip_hl\<close> is the high half of the first byte, as the little-endian
  branch of \<^verbatim>\<open>struct ip\<close> has it.
\<close>

definition ip_hl :: "bytes \<Rightarrow> u8" where "ip_hl h = drop_bit 4 (h ! 0)"
definition ip_ttl :: "bytes \<Rightarrow> u8" where "ip_ttl h = h ! 8"
definition ip_p :: "bytes \<Rightarrow> u8" where "ip_p h = h ! 9"
definition ip_src :: "bytes \<Rightarrow> u32" where "ip_src h = load32 (h ! 12) (h ! 13) (h ! 14) (h ! 15)"
definition ip_dst :: "bytes \<Rightarrow> u32" where "ip_dst h = load32 (h ! 16) (h ! 17) (h ! 18) (h ! 19)"

section \<open>The firewall's part\<close>

text \<open>
  The ports are read at \<^verbatim>\<open>ps->packet\<close>, which is the IP header itself unless
  \<^verbatim>\<open>leave_hdr_room\<close> has stepped over it.
\<close>

definition ports :: "'p packet_state_scheme \<Rightarrow> (u16 \<times> u16) option" where
  "ports ps =
     (let p = ps_packet ps
      in if 4 \<le> ps_len ps then Some (load16 (p ! 0) (p ! 1), load16 (p ! 2) (p ! 3)) else None)"

abbreviation has_ports :: "u8 \<Rightarrow> bool" where
  "has_ports p \<equiv> p = IPPROTO_TCP \<or> p = IPPROTO_UDP"

text \<open>
  A packet from outside to an inside interface. (The test for OSPF that \<^verbatim>\<open>handle_ip\<close> makes when
  it forwards stands in the branch of TCP and UDP, where it is never true.)
\<close>

definition fw_admits :: "firewall \<Rightarrow> 'p packet_state_scheme \<Rightarrow> bytes \<Rightarrow> time \<Rightarrow> bool \<times> firewall" where
  "fw_admits fw ps h now =
     (let c = (\<lambda>s d. \<lparr>c_ip_s = ip_src h, c_ip_d = ip_dst h, c_protocol = ip_p h, c_port_s = s, c_port_d = d\<rparr>)
      in if ip_p h = IPPROTO_ICMP then check_connection fw (c 0 0) now
         else if has_ports (ip_p h) then
           (case ports ps of
              Some (src_port, dst_port) \<Rightarrow> check_connection fw (c src_port dst_port) now
            | None \<Rightarrow> (False, fw))
         else (False, fw))"

text \<open>A packet from inside opens the way back.\<close>

definition fw_tells :: "firewall \<Rightarrow> 'p packet_state_scheme \<Rightarrow> bytes \<Rightarrow> time \<Rightarrow> (bool \<times> firewall) result" where
  "fw_tells fw ps h now =
     (let c = (\<lambda>s d. \<lparr>c_ip_s = ip_dst h, c_ip_d = ip_src h, c_protocol = ip_p h, c_port_s = s, c_port_d = d\<rparr>)
      in if ip_p h = IPPROTO_ICMP then tell_valid fw (c 0 0) now
         else if has_ports (ip_p h) then
           (case ports ps of
              Some (src_port, dst_port) \<Rightarrow> tell_valid fw (c dst_port src_port) now
            | None \<Rightarrow> Inr (False, fw))
         else Inr (False, fw))"

section \<open>Packets for this router\<close>

text \<open>How the walk over the interfaces ends.\<close>

datatype ip_dest = Local sr_if | Multicast | Elsewhere

primrec find_dest :: "sr_if list \<Rightarrow> u32 \<Rightarrow> ip_dest" where
  "find_dest [] dst = Elsewhere"
| "find_dest (w # ws) dst =
     (if if_ip w = dst then Local w
      else if dst = ntohl OSPF_AllSPFRouters then Multicast
      else find_dest ws dst)"

text \<open>The IP header of an answer, written at \<open>iph\<close> when the ICMP message is complete.\<close>

definition reply_header :: "nat \<Rightarrow> bytes \<Rightarrow> bytes result" where
  "reply_header len h =
     fill_sum 10 IP_HDR_LEN
       (take 2 h @ store16 (htons (of_nat len)) @ take 4 (drop 4 h) @ [INIT_TTL, IPPROTO_ICMP, 0, 0] @
        take 4 (drop 16 h) @ take 4 (drop 12 h))"

definition answer_locally :: "ip_state \<Rightarrow> bytes \<Rightarrow> bytes \<Rightarrow> ip_state result" where
  "answer_locally ps ip h =
     (let iph = ps_response ps; ps1 = leave_hdr_room ps IP_HDR_LEN
      in rbind (if ip_p h = IPPROTO_ICMP then handle_icmp ps1 ip
                else icmp_response ps1 ip ICMPT_DESTUN ICMPC_PORTUN) (\<lambda>ps2.
         rbind (reply_header (ps_res_len ps2 - ETHER_HDR_LEN) h) (\<lambda>h'.
         rbind (put_bytes iph h' (ps_block ps2)) (\<lambda>b.
           Inr (ps2\<lparr>ps_block := b, ps_ok_to_send := True\<rparr>)))))"

definition run_pwospf ::
  "(nat \<Rightarrow> u32 \<times> int) \<Rightarrow> time \<Rightarrow> ip_state \<Rightarrow> bytes \<Rightarrow> router_state \<Rightarrow> router_state result" where
  "run_pwospf junk now ps f rs =
     rbind (handle_pwospf (ri_ifs rs) junk now ps f (ri_ospf rs) (ri_arp rs)) (\<lambda>(os, a).
       Inr (rs\<lparr>ri_ospf := os, ri_arp := a\<rparr>))"

text \<open>The result of a handler: its return value, the packet state and the router.\<close>

type_synonym handled = "bool \<times> ip_state \<times> router_state"

definition handle_local ::
  "(nat \<Rightarrow> u32 \<times> int) \<Rightarrow> time \<Rightarrow> router_state \<Rightarrow> ip_state \<Rightarrow> bytes \<Rightarrow> bytes \<Rightarrow> sr_if \<Rightarrow> handled result" where
  "handle_local junk now rs ps f h iface =
     (let outside = is_external (ri_fw rs) (ps_interface ps) \<and> is_internal (ri_fw rs) (if_name iface);
          (ok, fw) = (if outside \<and> ip_p h \<noteq> OSPFV2_TYPE then fw_admits (ri_fw rs) ps h now
                      else (True, ri_fw rs));
          rs1 = rs\<lparr>ri_fw := fw\<rparr>
      in if \<not> ok then Inr (False, ps, rs1)
         else if ip_p h = OSPFV2_TYPE then
           rbind (run_pwospf junk now ps f rs1) (\<lambda>rs2. Inr (False, ps, rs2))
         else rbind (answer_locally ps (drop ETHER_HDR_LEN f) h) (\<lambda>ps'. Inr (True, ps', rs1)))"

section \<open>Packets to forward\<close>

definition route_packet :: "router_state \<Rightarrow> ip_state \<Rightarrow> u32 \<Rightarrow> ip_state" where
  "route_packet rs ps dst =
     (case get_dyn_routing_if (os_ftable (ri_ospf rs)) dst of
        Some e \<Rightarrow> ps\<lparr>ps_dyn_entry := Some e\<rparr>
      | None \<Rightarrow> ps\<lparr>ps_dyn_entry := None, ps_rt_entry := get_static_routing_if (ri_rt rs) dst\<rparr>)"

definition out_interface :: "ip_state \<Rightarrow> string option" where
  "out_interface ps =
     (case ps_dyn_entry ps of
        Some e \<Rightarrow> Some (ft_interface e)
      | None \<Rightarrow> map_option rt_interface (ps_rt_entry ps))"

text \<open>
  The copy into the response takes \<^verbatim>\<open>ps->len\<close> and another IP header's length, also where
  \<^verbatim>\<open>ps->len\<close> still counts the header.
\<close>

definition copy_forward :: "ip_state \<Rightarrow> nat \<Rightarrow> bytes \<Rightarrow> ip_state result" where
  "copy_forward ps iph ip =
     rbind (get_bytes 0 IP_HDR_LEN ip) (\<lambda>h.
     rbind (update_ip_hdr h) (\<lambda>h'.
     rbind (get_bytes 0 (ps_len ps + IP_HDR_LEN) (h' @ drop IP_HDR_LEN ip)) (\<lambda>d.
     rbind (put_bytes iph d (ps_block ps)) (\<lambda>b.
       Inr (ps\<lparr>ps_block := b, ps_forward := True, ps_res_len := ps_res_len ps + ps_len ps\<rparr>)))))"

definition handle_forward ::
  "time \<Rightarrow> router_state \<Rightarrow> ip_state \<Rightarrow> bytes \<Rightarrow> bytes \<Rightarrow> handled result" where
  "handle_forward now rs ps ip h =
     (let iph = ps_response ps; ps1 = route_packet rs ps (ip_dst h)
      in case out_interface ps1 of
           None \<Rightarrow> Inr (False, ps1, rs)
         | Some temp_if \<Rightarrow>
             let outside = is_external (ri_fw rs) (ps_interface ps);
                 inside = is_internal (ri_fw rs) temp_if;
                 ps2 = (if outside \<and> inside then leave_hdr_room ps1 IP_HDR_LEN else ps1)
             in rbind (if outside then Inr (if inside then fw_admits (ri_fw rs) ps2 h now else (True, ri_fw rs))
                       else fw_tells (ri_fw rs) ps2 h now) (\<lambda>(ok, fw).
                let rs1 = rs\<lparr>ri_fw := fw\<rparr>
                in if \<not> ok then Inr (False, ps2, rs1)
                   else if ip_ttl h < 1 then
                     rbind (icmp_response ps2 ip ICMPT_TIMEEX ICMPC_INTRANSIT) (\<lambda>ps3. Inr (True, ps3, rs1))
                   else rbind (copy_forward ps2 iph ip) (\<lambda>ps3. Inr (True, ps3, rs1))))"

section \<open>The handlers\<close>

definition handle_ip ::
  "(nat \<Rightarrow> u32 \<times> int) \<Rightarrow> time \<Rightarrow> router_state \<Rightarrow> ip_state \<Rightarrow> bytes \<Rightarrow> handled result" where
  "handle_ip junk now rs ps f =
     (let ps0 = ps\<lparr>ps_ok_to_send := False\<rparr>; ip = drop ETHER_HDR_LEN f
      in if ps_len ps < IP_HDR_LEN then Inr (False, ps0, rs)
         else rbind (get_bytes 0 IP_HDR_LEN ip) (\<lambda>h.
           if IP_HDR_LEN < unat (ip_hl h) * 4 then Inr (False, ps0, rs)
           else (case find_dest (ri_ifs rs) (ip_dst h) of
                   Local iface \<Rightarrow> handle_local junk now rs ps0 f h iface
                 | Multicast \<Rightarrow> rbind (run_pwospf junk now ps0 f rs) (\<lambda>rs'. Inr (False, ps0, rs'))
                 | Elsewhere \<Rightarrow> handle_forward now rs ps0 ip h)))"

text \<open>The Ethernet header at the head of the response, or the packet queued for its next hop.\<close>

definition put_eth :: "mac option \<Rightarrow> mac \<Rightarrow> bytes \<Rightarrow> bytes result" where
  "put_eth dst src b =
     rbind (case dst of Some d \<Rightarrow> put_bytes 0 (take ETHER_ADDR_LEN d) b | None \<Rightarrow> Inr b) (\<lambda>b1.
       put_bytes 6 (take ETHER_ADDR_LEN src @ store16 (htons ETHERTYPE_IP)) b1)"

definition next_hop :: "ip_state \<Rightarrow> u32 option" where
  "next_hop ps =
     (case ps_dyn_entry ps of
        Some e \<Rightarrow> Some (ft_next_hop e)
      | None \<Rightarrow> map_option rt_gw (ps_rt_entry ps))"

definition create_eth_hdr :: "time \<Rightarrow> router_state \<Rightarrow> ip_state \<Rightarrow> bytes \<Rightarrow> handled result" where
  "create_eth_hdr now rs ps eth_rec =
     (if \<not> ps_forward ps then
        (case sr_get_interface (ri_ifs rs) (ps_interface ps) of
           None \<Rightarrow> Inl Null_pointer
         | Some sif \<Rightarrow>
             rbind (put_eth (Some (ether_shost eth_rec)) (if_addr sif) (ps_block ps)) (\<lambda>b.
               Inr (True, ps\<lparr>ps_block := b\<rparr>, rs)))
      else case (out_interface ps, next_hop ps) of
        (Some nm, Some nhop) \<Rightarrow>
          (let (c, mac) = search_cache (st_cache (ri_arp rs)) now nhop; a = (ri_arp rs)\<lparr>st_cache := c\<rparr>
           in case sr_get_interface (ri_ifs rs) nm of
                None \<Rightarrow> Inl Null_pointer
              | Some sif \<Rightarrow>
                  rbind (put_eth mac (if_addr sif) (ps_block ps)) (\<lambda>b.
                    case mac of
                      Some _ \<Rightarrow> Inr (True, ps\<lparr>ps_block := b\<rparr>, rs\<lparr>ri_arp := a\<rparr>)
                    | None \<Rightarrow>
                        rbind (get_mac_address (ri_ifs rs) a nhop b (of_nat (ps_res_len ps)) (if_name sif) 0 eth_rec)
                          (\<lambda>a'. Inr (False, ps\<lparr>ps_block := b\<rparr>, rs\<lparr>ri_arp := a'\<rparr>))))
      | _ \<Rightarrow> Inr (False, ps, rs))"

definition send_response :: "router_state \<Rightarrow> ip_state \<Rightarrow> string \<Rightarrow> router_state result" where
  "send_response rs ps nm =
     rbind (sr_send_packet (ri_ifs rs) (ps_block ps) (ps_res_len ps) nm) (\<lambda>out.
       Inr (rs\<lparr>ri_arp := (ri_arp rs)\<lparr>st_sent := st_sent (ri_arp rs) @ out\<rparr>\<rparr>))"

text \<open>
  \<open>f\<close> is the block the frame lies in, from the frame on, and \<open>len\<close> the frame's length; \<open>blk\<close> is the
  block that \<^verbatim>\<open>malloc(MAX_PAC_LENGTH)\<close> returned.
\<close>

definition sr_handlepacket ::
  "(nat \<Rightarrow> u32 \<times> int) \<Rightarrow> bytes \<Rightarrow> time \<Rightarrow> router_state \<Rightarrow> bytes \<Rightarrow> nat \<Rightarrow> string \<Rightarrow> router_state result" where
  "sr_handlepacket junk blk now rs f len iface =
     (if len < ETHER_HDR_LEN then Inr rs
      else
        let ps = leave_hdr_room \<lparr>ps_packet = f, ps_len = len, ps_interface = iface, ps_block = blk,
                   ps_response = 0, ps_res_len = 0, ps_rt_entry = None, ps_dyn_entry = None,
                   ps_forward = False, ps_ok_to_send = False\<rparr> ETHER_HDR_LEN;
            perm_eth = take ETHER_HDR_LEN f
        in if ether_type f = htons ETHERTYPE_IP then
             rbind (handle_ip junk now rs ps f) (\<lambda>(ok, ps1, rs1).
               if \<not> ok then Inr rs1
               else rbind (create_eth_hdr now rs1 ps1 perm_eth) (\<lambda>(ok2, ps2, rs2).
                 if \<not> ok2 then Inr rs2
                 else case out_interface ps2 of
                        Some nm \<Rightarrow> send_response rs2 ps2 nm
                      | None \<Rightarrow> if ps_ok_to_send ps2 then send_response rs2 ps2 iface else Inr rs2))
           else if ether_type f = htons ETHERTYPE_ARP then
             rbind (handle_arp_frame (ri_ifs rs) (st_cache (ri_arp rs)) now blk (take len f) iface) (\<lambda>(c, out).
               Inr (rs\<lparr>ri_arp := (ri_arp rs)\<lparr>st_cache := c, st_sent := st_sent (ri_arp rs) @ out\<rparr>\<rparr>))
           else Inr rs)"

section \<open>Answers\<close>

text \<open>The address fields of a header in three parts.\<close>

definition word_at :: "bytes \<Rightarrow> u32" where "word_at b = load32 (b ! 0) (b ! 1) (b ! 2) (b ! 3)"

lemma ip_addresses:
  assumes "length a = 12" "length s = 4"
  shows "ip_src (a @ s @ d) = word_at s" "ip_dst (a @ s @ d) = word_at d"
  using assms by (simp_all add: ip_src_def ip_dst_def word_at_def nth_append)

lemma split_header:
  assumes "length h = 20"
  obtains a s d where "h = a @ s @ d" "length a = 12" "length s = 4" "length d = 4"
    "ip_src h = word_at s" "ip_dst h = word_at d"
proof -
  let ?a = "take 12 h" and ?s = "take 4 (drop 12 h)" and ?d = "drop 16 h"
  have "drop 16 h = drop 4 (drop 12 h)" by simp
  then have "drop 12 h = ?s @ ?d" by (metis append_take_drop_id)
  then have h: "h = ?a @ ?s @ ?d" by (metis append_take_drop_id)
  have l: "length ?a = 12" "length ?s = 4" "length ?d = 4" using assms by simp_all
  show thesis using that[OF h l] ip_addresses[OF l(1,2), of ?d, folded h] by blast
qed

lemma reply_header_ok:
  assumes "length h = 20"
  shows "\<exists>h'. reply_header n h = Inr h' \<and> length h' = 20 \<and> cksum h' 20 = Inr 0 \<and>
     ip_src h' = ip_dst h \<and> ip_dst h' = ip_src h \<and> ip_ttl h' = INIT_TTL \<and> ip_p h' = IPPROTO_ICMP"
proof -
  obtain a s d where h: "h = a @ s @ d" "length a = 12" "length s = 4" "length d = 4"
    "ip_src h = word_at s" "ip_dst h = word_at d" using split_header[OF assms] .
  define u where "u = take 2 a @ store16 (htons (of_nat n)) @ take 4 (drop 4 a)"
  have u: "length u = 8" using h(2) by (simp add: u_def)
  let ?b = "u @ [INIT_TTL, IPPROTO_ICMP]"
  let ?z = "?b @ [0, 0] @ d @ s"
  have z: "take 2 h @ store16 (htons (of_nat n)) @ take 4 (drop 4 h) @ [INIT_TTL, IPPROTO_ICMP, 0, 0] @
        take 4 (drop 16 h) @ take 4 (drop 12 h) = ?z"
    using h(2-4) by (simp add: h(1) u_def)
  have "?z ! 10 = 0" "?z ! 11 = 0" "take 10 ?z = ?b" "drop 12 ?z = d @ s" using u by (simp_all add: nth_append)
  then obtain c where c: "fill_sum 10 20 ?z = Inr (?b @ store16 (htons c) @ d @ s)"
      "cksum (?b @ store16 (htons c) @ d @ s) 20 = Inr 0"
    using fill_sum_ok[of 20 10 ?z] u h(3,4) by auto
  let ?h = "?b @ store16 (htons c) @ d @ s"
  have "ip_src ?h = word_at d" "ip_dst ?h = word_at s"
    using ip_addresses[of "?b @ store16 (htons c)" d s] u h(4) by simp_all
  moreover have "ip_ttl ?h = INIT_TTL" "ip_p ?h = IPPROTO_ICMP"
    using u by (simp_all add: ip_ttl_def ip_p_def nth_append)
  ultimately show ?thesis using c h(3-6) u z by (intro exI[of _ ?h]) (simp add: reply_header_def hdr_lens)
qed

lemma answer_echo:
  assumes ps: "ps_packet ps = h @ req @ rest" "ps_len ps = 20 + length req" "ps_response ps = 14" "ps_res_len ps = 14"
    and h: "length h = 20" "ip_p h = IPPROTO_ICMP"
    and req: "8 \<le> length req" "req ! 0 = 8" "even (length req)" "length req \<le> 65534"
    and blk: "34 + length req \<le> length (ps_block ps)"
  shows "\<exists>ps' h' c. answer_locally ps ip h = Inr ps' \<and>
     ps_block ps' = take 14 (ps_block ps) @ h' @ summed c ([0, 0, 0, 0] @ drop 4 req) @ drop (34 + length req) (ps_block ps) \<and>
     ps_res_len ps' = 34 + length req \<and> ps_ok_to_send ps' \<and> ps_forward ps' = ps_forward ps \<and>
     ps_interface ps' = ps_interface ps \<and> ps_dyn_entry ps' = ps_dyn_entry ps \<and> ps_rt_entry ps' = ps_rt_entry ps \<and>
     length h' = 20 \<and> cksum h' 20 = Inr 0 \<and> ip_src h' = ip_dst h \<and> ip_dst h' = ip_src h \<and>
     ip_ttl h' = INIT_TTL \<and> ip_p h' = IPPROTO_ICMP \<and>
     cksum (summed c ([0, 0, 0, 0] @ drop 4 req)) (length req) = Inr 0"
proof -
  let ?b = "ps_block ps" and ?ps1 = "leave_hdr_room ps IP_HDR_LEN"
  have 1: "ps_block ?ps1 = take 34 ?b @ drop 34 ?b" "length (take 34 ?b) = ps_response ?ps1" "ps_res_len ?ps1 = 34"
      "ps_len ?ps1 = length req" "ps_packet ?ps1 = req @ rest"
    using ps h(1) blk by (simp_all add: leave_hdr_room_def hdr_lens)
  have "length req \<le> length (drop 34 ?b)" using blk by simp
  from echo_reply_ok[OF 1 req(1,2) this req(3,4), of ip]
  obtain c where c: "handle_icmp ?ps1 ip = Inr (?ps1\<lparr>ps_packet := drop 8 (req @ rest), ps_len := length req - 8,
       ps_block := take 34 ?b @ summed c ([0, 0, 0, 0] @ drop 4 req) @ drop (length req) (drop 34 ?b),
       ps_response := ps_response ?ps1 + 8, ps_res_len := 34 + length req\<rparr>)" (is "_ = Inr ?ps2")
     "cksum (summed c ([0, 0, 0, 0] @ drop 4 req)) (length req) = Inr 0" by blast
  obtain h' where h': "reply_header (20 + length req) h = Inr h'" "length h' = 20" "cksum h' 20 = Inr 0"
     "ip_src h' = ip_dst h" "ip_dst h' = ip_src h" "ip_ttl h' = INIT_TTL" "ip_p h' = IPPROTO_ICMP"
    using reply_header_ok[OF h(1)] by blast
  let ?m = "summed c ([0, 0, 0, 0] @ drop 4 req)"
  have m: "length ?m = length req" using req(1) by simp
  have "put_bytes 14 h' (take 34 ?b @ ?m @ drop (34 + length req) ?b) =
      Inr (take 14 ?b @ h' @ ?m @ drop (34 + length req) ?b)"
    using blk h'(2) m by simp
  with c h(2) h' ps(3) have "answer_locally ps ip h = Inr (?ps2\<lparr>ps_block := take 14 ?b @ h' @ ?m @ drop (34 + length req) ?b,
      ps_ok_to_send := True\<rparr>)"
    by (simp add: answer_locally_def Let_def hdr_lens add.commute)
  with c(2) h' show ?thesis
    by (intro exI[of _ "?ps2\<lparr>ps_block := take 14 ?b @ h' @ ?m @ drop (34 + length req) ?b, ps_ok_to_send := True\<rparr>"]
        exI[of _ h'] exI[of _ c]) (simp add: leave_hdr_room_def)
qed

lemma put_eth_ok:
  assumes "length d = 6" "length src = 6" "14 \<le> length b"
  shows "put_eth (Some d) src b = Inr (d @ src @ [8, 0] @ drop 14 b)"
proof -
  have "store16 (htons ETHERTYPE_IP) = [8, 0]" by (simp add: ETHERTYPE_IP_def) code_simp
  then show ?thesis using assms by (simp add: put_eth_def hdr_lens)
qed

lemma send_frame:
  assumes "sr_get_interface ifs nm = Some w" "length d = 6" "length (if_addr w) = 6"
    and "f = d @ if_addr w @ r" "2 \<le> length r" "n = length f"
  shows "sr_send_packet ifs (f @ rest) n nm = Inr [(nm, f)]"
proof -
  have "ether_shost (f @ rest) = if_addr w" using assms by (simp add: ether_shost_def)
  then show ?thesis
    using assms by (simp add: sr_send_packet_def hdr_lens sr_ether_addrs_match_interface_def)
qed

text \<open>The packet state in which \<^verbatim>\<open>sr_handlepacket\<close> calls a handler.\<close>

definition received :: "bytes \<Rightarrow> nat \<Rightarrow> string \<Rightarrow> bytes \<Rightarrow> ip_state" where
  "received f len iface blk =
     \<lparr>ps_packet = drop 14 f, ps_len = len - 14, ps_interface = iface, ps_block = blk,
      ps_response = 14, ps_res_len = 14, ps_rt_entry = None, ps_dyn_entry = None,
      ps_forward = False, ps_ok_to_send = False\<rparr>"

lemma received_simps [simp]:
  "ps_packet (received f len iface blk) = drop 14 f" "ps_len (received f len iface blk) = len - 14"
  "ps_interface (received f len iface blk) = iface" "ps_block (received f len iface blk) = blk"
  "ps_response (received f len iface blk) = 14" "ps_res_len (received f len iface blk) = 14"
  "ps_rt_entry (received f len iface blk) = None" "ps_dyn_entry (received f len iface blk) = None"
  "\<not> ps_forward (received f len iface blk)"
  "received f len iface blk\<lparr>ps_ok_to_send := False\<rparr> = received f len iface blk"
  by (simp_all add: received_def)

lemma handlepacket_ip:
  assumes "14 \<le> len" "ether_type f = htons ETHERTYPE_IP"
  shows "sr_handlepacket junk blk now rs f len iface =
     rbind (handle_ip junk now rs (received f len iface blk) f) (\<lambda>(ok, ps1, rs1).
       if \<not> ok then Inr rs1
       else rbind (create_eth_hdr now rs1 ps1 (take 14 f)) (\<lambda>(ok2, ps2, rs2).
         if \<not> ok2 then Inr rs2
         else case out_interface ps2 of
                Some nm \<Rightarrow> send_response rs2 ps2 nm
              | None \<Rightarrow> if ps_ok_to_send ps2 then send_response rs2 ps2 iface else Inr rs2))"
  using assms by (simp add: sr_handlepacket_def hdr_lens leave_hdr_room_def received_def Let_def)

lemma handle_ip_packet:
  assumes "drop 14 f = h @ r" "length h = 20" "34 \<le> len" "unat (ip_hl h) * 4 \<le> 20"
  shows "handle_ip junk now rs (received f len iface blk) f =
     (case find_dest (ri_ifs rs) (ip_dst h) of
        Local w \<Rightarrow> handle_local junk now rs (received f len iface blk) f h w
      | Multicast \<Rightarrow> rbind (run_pwospf junk now (received f len iface blk) f rs)
          (\<lambda>rs'. Inr (False, received f len iface blk, rs'))
      | Elsewhere \<Rightarrow> handle_forward now rs (received f len iface blk) (h @ r) h)"
proof -
  have "\<not> len - 14 < 20" using assms(3) by simp
  then show ?thesis using assms by (simp add: handle_ip_def hdr_lens Let_def)
qed

text \<open>The verdict on a packet from \<open>src_if\<close> for \<open>dst_if\<close>, without ports.\<close>

definition admits_icmp :: "firewall \<Rightarrow> string \<Rightarrow> string \<Rightarrow> bytes \<Rightarrow> time \<Rightarrow> bool \<times> firewall" where
  "admits_icmp fw src_if dst_if h now =
     (if is_external fw src_if \<and> is_internal fw dst_if
      then check_connection fw \<lparr>c_ip_s = ip_src h, c_ip_d = ip_dst h, c_protocol = IPPROTO_ICMP,
                                c_port_s = 0, c_port_d = 0\<rparr> now
      else (True, fw))"


definition sample_router :: router_state where
  "sample_router =
     \<lparr>ri_ifs = [sample_if, sample_if1], ri_rt = [],
      ri_fw = \<lparr>rules = [], flow_table = [], ft_size = 0, inter = [''eth1''], exter = [''eth0'']\<rparr>, ri_arp = arp_init, ri_ospf = on_link 1 []\<rparr>"

definition ping :: bytes where
  "ping = [0x45, 0, 0, 30, 0, 1, 0, 0, 64, 1, 0, 0, 10, 0, 0, 9, 10, 0, 0, 1]"


section \<open>Forwarding\<close>

text \<open>
  What the forwarding branch does once a route is known: the firewall's verdict on a packet that came in
  over \<open>ps_interface\<close> and leaves over \<open>nm\<close>, and whether the handler has stepped over the IP header.
\<close>

definition crosses_in :: "firewall \<Rightarrow> string \<Rightarrow> string \<Rightarrow> bool" where
  "crosses_in fw src_if dst_if \<longleftrightarrow> is_external fw src_if \<and> is_internal fw dst_if"

definition forward_verdict ::
  "firewall \<Rightarrow> ip_state \<Rightarrow> string \<Rightarrow> bytes \<Rightarrow> time \<Rightarrow> (bool \<times> firewall) result" where
  "forward_verdict fw ps nm h now =
     (if crosses_in fw (ps_interface ps) nm then Inr (fw_admits fw (leave_hdr_room ps IP_HDR_LEN) h now)
      else if is_external fw (ps_interface ps) then Inr (True, fw)
      else fw_tells fw ps h now)"

lemma routes_block [simp]:
  "out_interface (ps\<lparr>ps_block := b\<rparr>) = out_interface ps" "next_hop (ps\<lparr>ps_block := b\<rparr>) = next_hop ps"
  by (simp_all add: out_interface_def next_hop_def split: option.split)

lemma ports_cong: "ps_packet p = ps_packet q \<Longrightarrow> ps_len p = ps_len q \<Longrightarrow> ports p = ports q"
  by (simp add: ports_def)

lemma fw_cong:
  assumes "ps_packet p = ps_packet q" "ps_len p = ps_len q"
  shows "fw_admits fw p h now = fw_admits fw q h now" "fw_tells fw p h now = fw_tells fw q h now"
  using ports_cong[OF assms] by (simp_all add: fw_admits_def fw_tells_def)

lemma route_packet_fields [simp]:
  "ps_packet (route_packet rs ps d) = ps_packet ps" "ps_len (route_packet rs ps d) = ps_len ps"
  "ps_interface (route_packet rs ps d) = ps_interface ps" "ps_block (route_packet rs ps d) = ps_block ps"
  "ps_response (route_packet rs ps d) = ps_response ps" "ps_res_len (route_packet rs ps d) = ps_res_len ps"
  "ps_forward (route_packet rs ps d) = ps_forward ps" "ps_ok_to_send (route_packet rs ps d) = ps_ok_to_send ps"
  by (simp_all add: route_packet_def split: option.split)

lemma leave_hdr_room_fields [simp]:
  "ps_packet (leave_hdr_room ps n) = drop n (ps_packet ps)" "ps_len (leave_hdr_room ps n) = ps_len ps - n"
  "ps_interface (leave_hdr_room ps n) = ps_interface ps" "ps_block (leave_hdr_room ps n) = ps_block ps"
  "ps_response (leave_hdr_room ps n) = ps_response ps + n" "ps_res_len (leave_hdr_room ps n) = ps_res_len ps + n"
  by (simp_all add: leave_hdr_room_def)

lemma leave_hdr_room_routes [simp]:
  fixes ps :: ip_state
  shows "ps_dyn_entry (leave_hdr_room ps n) = ps_dyn_entry ps" "ps_rt_entry (leave_hdr_room ps n) = ps_rt_entry ps"
    "ps_forward (leave_hdr_room ps n) = ps_forward ps" "ps_ok_to_send (leave_hdr_room ps n) = ps_ok_to_send ps"
  by (simp_all add: leave_hdr_room_def)

definition forward_state :: "router_state \<Rightarrow> ip_state \<Rightarrow> string \<Rightarrow> u32 \<Rightarrow> ip_state" where
  "forward_state rs ps nm d =
     (if crosses_in (ri_fw rs) (ps_interface ps) nm then leave_hdr_room (route_packet rs ps d) IP_HDR_LEN
      else route_packet rs ps d)"

lemma handle_forward_verdict:
  assumes "out_interface (route_packet rs ps (ip_dst h)) = Some nm"
  shows "handle_forward now rs ps ip h =
     rbind (forward_verdict (ri_fw rs) ps nm h now) (\<lambda>(ok, fw).
       if \<not> ok then Inr (False, forward_state rs ps nm (ip_dst h), rs\<lparr>ri_fw := fw\<rparr>)
       else if ip_ttl h < 1 then
         rbind (icmp_response (forward_state rs ps nm (ip_dst h)) ip ICMPT_TIMEEX ICMPC_INTRANSIT)
           (\<lambda>ps3. Inr (True, ps3, rs\<lparr>ri_fw := fw\<rparr>))
       else rbind (copy_forward (forward_state rs ps nm (ip_dst h)) (ps_response ps) ip)
           (\<lambda>ps3. Inr (True, ps3, rs\<lparr>ri_fw := fw\<rparr>)))"
proof -
  have "fw_admits fw (leave_hdr_room (route_packet rs ps d) n) h now = fw_admits fw (leave_hdr_room ps n) h now"
    "fw_tells fw (route_packet rs ps d) h now = fw_tells fw ps h now" for fw d n
    by (rule fw_cong; simp)+
  note c = this
  show ?thesis
  proof (cases "crosses_in (ri_fw rs) (ps_interface ps) nm")
    case True
    then have fs: "forward_state rs ps nm (ip_dst h) = leave_hdr_room (route_packet rs ps (ip_dst h)) IP_HDR_LEN"
      by (simp add: forward_state_def)
    show ?thesis unfolding fs using True assms c
      by (simp add: handle_forward_def forward_verdict_def crosses_in_def Let_def)
  next
    case False
    then have fs: "forward_state rs ps nm (ip_dst h) = route_packet rs ps (ip_dst h)"
      by (simp add: forward_state_def)
    show ?thesis unfolding fs using False assms c
      by (auto simp: handle_forward_def forward_verdict_def crosses_in_def Let_def)
  qed
qed

lemma forward_state_fields:
  "ps_block (forward_state rs ps nm d) = ps_block ps"
  "ps_interface (forward_state rs ps nm d) = ps_interface ps"
  "ps_len (forward_state rs ps nm d) = (if crosses_in (ri_fw rs) (ps_interface ps) nm then ps_len ps - 20 else ps_len ps)"
  "ps_packet (forward_state rs ps nm d) = (if crosses_in (ri_fw rs) (ps_interface ps) nm then drop 20 (ps_packet ps) else ps_packet ps)"
  "ps_res_len (forward_state rs ps nm d) = (if crosses_in (ri_fw rs) (ps_interface ps) nm then ps_res_len ps + 20 else ps_res_len ps)"
  "ps_response (forward_state rs ps nm d) = (if crosses_in (ri_fw rs) (ps_interface ps) nm then ps_response ps + 20 else ps_response ps)"
  "ps_dyn_entry (forward_state rs ps nm d) = ps_dyn_entry (route_packet rs ps d)"
  "ps_rt_entry (forward_state rs ps nm d) = ps_rt_entry (route_packet rs ps d)"
  "ps_forward (forward_state rs ps nm d) = ps_forward ps"
  "ps_ok_to_send (forward_state rs ps nm d) = ps_ok_to_send ps"
  by (simp_all add: forward_state_def hdr_lens)

text \<open>Interface and next hop of the route: the forwarding table first, then the static routes.\<close>

definition route_of :: "router_state \<Rightarrow> u32 \<Rightarrow> (string \<times> u32) option" where
  "route_of rs d =
     (case get_dyn_routing_if (os_ftable (ri_ospf rs)) d of
        Some e \<Rightarrow> Some (ft_interface e, ft_next_hop e)
      | None \<Rightarrow> map_option (\<lambda>r. (rt_interface r, rt_gw r)) (get_static_routing_if (ri_rt rs) d))"

lemma route_of_packet:
  assumes "route_of rs d = Some (nm, nh)" "ps_dyn_entry p = ps_dyn_entry (route_packet rs ps d)"
    "ps_rt_entry p = ps_rt_entry (route_packet rs ps d)"
  shows "out_interface p = Some nm" "next_hop p = Some nh"
  using assms
  by (auto simp: route_of_def out_interface_def next_hop_def route_packet_def split: option.splits)

lemma update_ip_hdr_length: "update_ip_hdr h = Inr h' \<Longrightarrow> length h' = length h"
  by (auto simp: update_ip_hdr_def put16_def rbind_eq_Inr Let_def)

lemma copy_forward_eq:
  assumes "update_ip_hdr h = Inr h'" "length h = 20" "iph + (20 + ps_len ps) \<le> length (ps_block ps)"
  shows "copy_forward ps iph (h @ r) =
     (if ps_len ps \<le> length r
      then Inr (ps\<lparr>ps_block := take iph (ps_block ps) @ h' @ take (ps_len ps) r @
                    drop (iph + (20 + ps_len ps)) (ps_block ps),
                   ps_forward := True, ps_res_len := ps_res_len ps + ps_len ps\<rparr>)
      else Inl Out_of_bounds)"
proof -
  have l: "length h' = 20" using update_ip_hdr_length[OF assms(1)] assms(2) by simp
  have g: "get_bytes 0 (ps_len ps + 20) (h' @ r) =
      (if ps_len ps \<le> length r then Inr (h' @ take (ps_len ps) r) else Inl Out_of_bounds)"
    using l by (simp add: get_bytes_def)
  show ?thesis using assms l by (simp add: copy_forward_def hdr_lens g)
qed

text \<open>The header behind which \<open>n\<close> bytes of the response stand: from the cache, or queued for it.\<close>

lemma create_eth_hdr_forward:
  assumes "ps_forward ps" "out_interface ps = Some nm" "next_hop ps = Some nh"
    and "sr_get_interface (ri_ifs rs) nm = Some w" "length (if_addr w) = 6" "14 \<le> length (ps_block ps)"
    and c: "search_cache (st_cache (ri_arp rs)) now nh = (c, m)" "\<forall>mac. m = Some mac \<longrightarrow> length mac = 6"
  shows "create_eth_hdr now rs ps e =
     (case m of
        Some mac \<Rightarrow> Inr (True, ps\<lparr>ps_block := mac @ if_addr w @ [8, 0] @ drop 14 (ps_block ps)\<rparr>,
                       rs\<lparr>ri_arp := (ri_arp rs)\<lparr>st_cache := c\<rparr>\<rparr>)
      | None \<Rightarrow>
          let b = take 6 (ps_block ps) @ if_addr w @ [8, 0] @ drop 14 (ps_block ps)
          in rbind (get_mac_address (ri_ifs rs) ((ri_arp rs)\<lparr>st_cache := c\<rparr>) nh b (of_nat (ps_res_len ps)) (if_name w) 0 e)
               (\<lambda>a. Inr (False, ps\<lparr>ps_block := b\<rparr>, rs\<lparr>ri_arp := a\<rparr>)))"
proof -
  have "store16 (htons ETHERTYPE_IP) = [8, 0]" by (simp add: ETHERTYPE_IP_def) code_simp
  then have "put_eth None (if_addr w) (ps_block ps) = Inr (take 6 (ps_block ps) @ if_addr w @ [8, 0] @ drop 14 (ps_block ps))"
    using assms(5,6) by (simp add: put_eth_def hdr_lens)
  moreover have "put_eth (Some mac) (if_addr w) (ps_block ps) = Inr (mac @ if_addr w @ [8, 0] @ drop 14 (ps_block ps))"
    if "m = Some mac" for mac
    using put_eth_ok[OF _ assms(5,6), of mac] that c(2) by simp
  ultimately show ?thesis
    using assms(1-4) c(1) by (cases m) (simp_all add: create_eth_hdr_def Let_def)
qed

text \<open>A packet to forward, as \<^verbatim>\<open>handle_ip\<close> leaves it in the response block, and as it leaves the router.\<close>

lemma handle_ip_forwards:
  assumes f: "f = e @ h @ data @ rest" "length e = 14"
    and h: "length h = 20" "unat (ip_hl h) * 4 \<le> 20" "ip_ttl h \<noteq> 0" "update_ip_hdr h = Inr h'"
    and dst: "find_dest (ri_ifs rs) (ip_dst h) = Elsewhere" "route_of rs (ip_dst h) = Some (nm, nh)"
    and fw: "forward_verdict (ri_fw rs) (received f (34 + length data) iface blk) nm h now = Inr (True, fw')"
    and room: "54 + length data \<le> length blk" "crosses_in (ri_fw rs) iface nm \<or> 20 \<le> length rest"
  shows "\<exists>ps tail. handle_ip junk now rs (received f (34 + length data) iface blk) f = Inr (True, ps, rs\<lparr>ri_fw := fw'\<rparr>) \<and>
     out_interface ps = Some nm \<and> next_hop ps = Some nh \<and> ps_forward ps \<and> ps_res_len ps = 34 + length data \<and>
     ps_block ps = take 14 blk @ h' @ data @ tail"
proof -
  let ?n = "length data" let ?ps = "received f (34 + ?n) iface blk" and ?x = "crosses_in (ri_fw rs) iface nm"
  have d: "drop 14 f = h @ data @ rest" using f by simp
  define ps2 where "ps2 = forward_state rs ?ps nm (ip_dst h)"
  define tail where "tail = (if ?x then drop (34 + ?n) blk else take 20 rest @ drop (54 + ?n) blk)"
  define ps3 where "ps3 = ps2\<lparr>ps_block := take 14 blk @ h' @ data @ tail, ps_forward := True, ps_res_len := 34 + ?n\<rparr>"
  have r1: "out_interface (route_packet rs ?ps (ip_dst h)) = Some nm"
    using route_of_packet[OF dst(2)] by blast
  have p2: "ps_block ps2 = blk" "ps_len ps2 = (if ?x then ?n else 20 + ?n)" "ps_res_len ps2 + ps_len ps2 = 34 + ?n"
    by (simp_all add: ps2_def forward_state_fields)
  have "take (ps_len ps2) (data @ rest) @ drop (14 + (20 + ps_len ps2)) blk = data @ tail"
    unfolding p2(2) tail_def by (cases ?x) (simp_all add: add.assoc)
  then have "copy_forward ps2 14 (h @ data @ rest) = Inr ps3"
    using copy_forward_eq[OF h(4,1), of 14 ps2 "data @ rest"] room p2 unfolding ps3_def
    by (cases ?x) simp_all
  then have "handle_forward now rs ?ps (h @ data @ rest) h = Inr (True, ps3, rs\<lparr>ri_fw := fw'\<rparr>)"
    using handle_forward_verdict[OF r1, of now "h @ data @ rest"] fw h(3)
    by (simp add: ps2_def word_less_1)
  then have "handle_ip junk now rs ?ps f = Inr (True, ps3, rs\<lparr>ri_fw := fw'\<rparr>)"
    using handle_ip_packet[OF d h(1) _ h(2)] dst(1) by simp
  moreover have "out_interface ps3 = Some nm" "next_hop ps3 = Some nh"
    using route_of_packet[OF dst(2), of ps3 ?ps] by (simp_all add: ps3_def ps2_def forward_state_fields)
  ultimately show ?thesis by (intro exI[of _ ps3] exI[of _ tail]) (simp add: ps3_def)
qed

lemma forwarded_leaves:
  assumes ip: "handle_ip junk now rs (received f (34 + length data) iface blk) f = Inr (True, ps, rs1)"
    and ps: "out_interface ps = Some nm" "next_hop ps = Some nh" "ps_forward ps" "ps_res_len ps = 34 + length data"
      "ps_block ps = take 14 blk @ h' @ data @ tail"
    and f: "ether_type f = htons ETHERTYPE_IP" "14 \<le> length blk" "length h' = 20" "ri_ifs rs1 = ri_ifs rs"
    and out: "sr_get_interface (ri_ifs rs) nm = Some w" "length (if_addr w) = 6"
    and cache: "search_cache (st_cache (ri_arp rs1)) now nh = (c, m)" "\<forall>mac. m = Some mac \<longrightarrow> length mac = 6"
  shows "sr_handlepacket junk blk now rs f (34 + length data) iface =
     (case m of
        Some mac \<Rightarrow> Inr (rs1\<lparr>ri_arp := (ri_arp rs1)\<lparr>st_cache := c, st_sent := st_sent (ri_arp rs1) @
            [(nm, mac @ if_addr w @ [8, 0] @ h' @ data)]\<rparr>\<rparr>)
      | None \<Rightarrow>
          rbind (get_mac_address (ri_ifs rs) ((ri_arp rs1)\<lparr>st_cache := c\<rparr>) nh
             (take 6 blk @ if_addr w @ [8, 0] @ h' @ data @ tail) (of_nat (34 + length data)) (if_name w) 0 (take 14 f))
            (\<lambda>a. Inr (rs1\<lparr>ri_arp := a\<rparr>)))"
proof -
  have b: "14 \<le> length (ps_block ps)" using f(2) by (simp add: ps(5))
  have dr: "drop 14 (ps_block ps) = h' @ data @ tail" "take 6 (ps_block ps) = take 6 blk" using f(2) by (simp_all add: ps(5))
  note cr = create_eth_hdr_forward[OF ps(3,1,2), of rs1 w now c m "take 14 f"]
  show ?thesis
  proof (cases m)
    case None
    then show ?thesis using ip cr out cache b dr f
      by (cases "get_mac_address (ri_ifs rs) ((ri_arp rs1)\<lparr>st_cache := c\<rparr>) nh
             (take 6 blk @ if_addr w @ [8, 0] @ h' @ data @ tail) (of_nat (34 + length data)) (if_name w) 0 (take 14 f)")
        (simp_all add: handlepacket_ip Let_def ps(4))
  next
    case (Some mac)
    have "sr_send_packet (ri_ifs rs) ((mac @ if_addr w @ [8, 0] @ h' @ data) @ tail) (34 + length data) nm =
        Inr [(nm, mac @ if_addr w @ [8, 0] @ h' @ data)]"
      by (rule send_frame[OF out(1) _ out(2) refl]) (use Some cache(2) out(2) f(3) in simp_all)
    then show ?thesis using Some ip cr out cache b dr f ps(1) by (simp add: handlepacket_ip send_response_def ps(4))
  qed
qed


text \<open>
  C40. The copy over-reads. In every direction but from outside to inside, a forwarded packet is copied
  with twenty bytes more than it has: when fewer follow it in its block (none do, in the block that
  \<^verbatim>\<open>sr_read_from_server_expect\<close> allocates), memory behind the block is read.
\<close>
theorem forward_overread:
  assumes f: "f = e @ h @ data @ rest" "length e = 14" "ether_type f = htons ETHERTYPE_IP"
    and h: "length h = 20" "unat (ip_hl h) * 4 \<le> 20" "ip_ttl h \<noteq> 0"
    and dst: "find_dest (ri_ifs rs) (ip_dst h) = Elsewhere" "route_of rs (ip_dst h) = Some (nm, nh)"
    and fw: "forward_verdict (ri_fw rs) (received f (34 + length data) iface blk) nm h now = Inr (True, fw')"
    and room: "54 + length data \<le> length blk"
    and short: "\<not> crosses_in (ri_fw rs) iface nm" "length rest < 20"
  shows "sr_handlepacket junk blk now rs f (34 + length data) iface = Inl Out_of_bounds"
proof -
  let ?ps = "received f (34 + length data) iface blk"
  have d: "drop 14 f = h @ data @ rest" using f(1,2) by simp
  obtain h' where h': "update_ip_hdr h = Inr h'" using update_ip_hdr_ok[OF h(1)] by blast
  have r1: "out_interface (route_packet rs ?ps (ip_dst h)) = Some nm"
    using route_of_packet[OF dst(2)] by blast
  have "copy_forward (forward_state rs ?ps nm (ip_dst h)) 14 (h @ data @ rest) = Inl Out_of_bounds"
    using copy_forward_eq[OF h' h(1), of 14 "forward_state rs ?ps nm (ip_dst h)" "data @ rest"] room short
    by (simp add: forward_state_fields)
  then have "handle_forward now rs ?ps (h @ data @ rest) h = Inl Out_of_bounds"
    using handle_forward_verdict[OF r1, of now "h @ data @ rest"] fw h(3) by (simp add: word_less_1)
  then show ?thesis
    using handle_ip_packet[OF d h(1) _ h(2)] dst(1) handlepacket_ip[OF _ f(3)] by simp
qed

section \<open>A HELLO arrives\<close>

text \<open>The header of a HELLO, as the packet handler reads it.\<close>

lemma hello_frame:
  assumes "hello_packet os ident w = Inr f" "length (pif_mac w) = 6"
  shows "\<exists>h r. drop 14 f = h @ r \<and> length h = 20 \<and> unat (ip_hl h) * 4 \<le> 20 \<and> ip_dst h = htonl OSPF_AllSPFRouters \<and>
     ether_type f = htons ETHERTYPE_IP \<and> length f = 66"
proof -
  obtain oh c where "length oh = 24" and f: "f = (replicate 6 0xFF @ pif_mac w @ [8, 0] @
       take 10 (ip_header 52 0 0) @ store16 (htons c) @ store32 (pif_address w) @ store32 (htonl OSPF_AllSPFRouters)) @
       oh @ store32 (htonl (pif_mask w)) @ store16 (htons 5) @ [0, 0]"
    using hello_packet_eq[OF assms(2), of ident os] assms(1) by auto
  let ?h = "take 10 (ip_header 52 0 0) @ store16 (htons c) @ store32 (pif_address w) @ store32 (htonl OSPF_AllSPFRouters)"
  have h: "length (take 10 (ip_header 52 0 0)) = 10" "take 10 (ip_header 52 0 0) ! 0 = 0x54"
    by (simp_all add: ip_header_def)
  have d: "ip_dst (xs @ ys @ zs @ store32 v) = v" if "length xs = 10" "length ys = 2" "length zs = 4" for xs ys zs :: bytes and v
    using that by (simp add: ip_dst_def nth_append load_store_nth[unfolded One_nat_def])
  have "(ether_type f, f) = (htons ETHERTYPE_IP, f)"
  proof -
    have "f ! 12 = 8" "f ! 13 = 0" using assms(2) by (simp_all add: f nth_append)
    moreover have "load16 8 0 = htons ETHERTYPE_IP" by (simp add: ETHERTYPE_IP_def) code_simp
    ultimately show ?thesis by (simp add: ether_type_def)
  qed
  moreover have "unat (ip_hl ?h) * 4 \<le> 20"
    using h by (simp add: ip_hl_def nth_append)
  ultimately show ?thesis
    using d[of "take 10 (ip_header 52 0 0)" "store16 (htons c)" "store32 (pif_address w)" "htonl OSPF_AllSPFRouters"] h assms(2) \<open>length oh = 24\<close>
    by (intro exI[of _ ?h] exI[of _ "oh @ store32 (htonl (pif_mask w)) @ store16 (htons 5) @ [0, 0]"]) (simp add: f)
qed


text \<open>The second router already has a neighbour on the link, which timed out.\<close>

definition linked :: router_state where
  "linked = sample_router\<lparr>ri_ospf := on_link 2 [link_if ''eth1'' 2 [\<lparr>nb_id = 9, nb_ip = 8, nb_timenotvalid = 50\<rparr>]]\<rparr>"


section \<open>Updates that arrive\<close>

lemma ip_bytes:
  assumes "length xs = 10" "length ys = 2" "length zs = 4"
  shows "ip_dst (xs @ ys @ zs @ store32 v) = v" "ip_p (xs @ ys @ zs @ store32 v) = xs ! 9"
    "ip_hl (xs @ ys @ zs @ store32 v) = drop_bit 4 (xs ! 0)"
  using assms by (simp_all add: ip_dst_def ip_p_def ip_hl_def nth_append load_store_nth[unfolded One_nat_def])

lemma lsu_frame:
  assumes "rbind (build_lsu blk rts os me seq) (address_frame src dst mac) = Inr f" "14 \<le> length blk" "length mac = 6"
  shows "\<exists>h r. drop 14 f = h @ r \<and> length h = 20 \<and> unat (ip_hl h) * 4 \<le> 20 \<and> ip_dst h = dst \<and>
     ip_p h = OSPFV2_TYPE \<and> ether_type f = htons ETHERTYPE_IP \<and> 34 \<le> length f"
proof -
  let ?n = "52 + 12 * length (advertised_keys me rts)"
  obtain r where b: "build_lsu blk rts os me seq = Inr (take 14 blk @ ip_header ?n 0 0 @ r)"
    using build_lsu_eq[OF assms(2), of me rts os seq] by auto
  have e: "length (take 14 blk) = 14" using assms(2) by simp
  obtain c where "f = take 6 (take 14 blk) @ mac @ [8, 0] @ take 10 (ip_header ?n 0 0) @ store16 (htons c) @ store32 src @
      store32 dst @ r"
    using address_frame_ok[OF e _ assms(3), of "ip_header ?n 0 0" src dst r] assms(1) b by auto
  note f = this
  let ?h = "take 10 (ip_header ?n 0 0) @ store16 (htons c) @ store32 src @ store32 dst"
  have d: "drop 14 f = ?h @ r" "34 \<le> length f" using e assms(3) by (simp_all add: f)
  have "f ! 12 = 8" "f ! 13 = 0" using e assms(3) by (simp_all add: f nth_append)
  moreover have "load16 8 0 = htons ETHERTYPE_IP" by (simp add: ETHERTYPE_IP_def) code_simp
  ultimately have t: "ether_type f = htons ETHERTYPE_IP" by (simp add: ether_type_def)
  have k: "take 10 (ip_header ?n 0 0) ! 0 = 0x54" "take 10 (ip_header ?n 0 0) ! 9 = OSPFV2_TYPE"
    by (simp_all add: ip_header_def nth_append)
  have "ip_dst ?h = dst" "ip_p ?h = OSPFV2_TYPE" "ip_hl ?h = drop_bit 4 0x54"
    using ip_bytes[of "take 10 (ip_header ?n 0 0)" "store16 (htons c)" "store32 src" dst] k by simp_all
  then show ?thesis using d t by (intro exI[of _ ?h] exI[of _ r]) simp
qed

text \<open>Such a frame for an address of the receiver gets to its PWOSPF subsystem.\<close>

lemma lsu_to_pwospf:
  assumes f: "rbind (build_lsu blkA rts osA me seq) (address_frame src dst mac) = Inr f" "14 \<le> length blkA" "length mac = 6"
    and "find_dest (ri_ifs rs) dst = Local w"
  shows "sr_handlepacket junk blk now rs f (length f) iface = run_pwospf junk now (received f (length f) iface blk) f rs"
proof -
  let ?ps = "received f (length f) iface blk"
  obtain h r where h: "drop 14 f = h @ r" "length h = 20" "unat (ip_hl h) * 4 \<le> 20" "ip_dst h = dst" "ip_p h = OSPFV2_TYPE"
      "ether_type f = htons ETHERTYPE_IP" "34 \<le> length f"
    using lsu_frame[OF f] by blast
  have u: "rs\<lparr>ri_fw := ri_fw rs\<rparr> = rs" by simp
  have l: "handle_local junk now rs ?ps f h w = rbind (run_pwospf junk now ?ps f rs) (\<lambda>rs2. Inr (False, ?ps, rs2))"
    using h(5) by (simp add: handle_local_def u)
  show ?thesis
    using handlepacket_ip[OF _ h(6), of "length f" junk blk now rs iface]
      handle_ip_packet[OF h(1,2,7,3), of junk now rs iface blk] h(4,7) assms(4) l
    by (cases "run_pwospf junk now ?ps f rs") simp_all
qed



section \<open>What the firewall keeps out\<close>

text \<open>The connection a packet belongs to, as the firewall should see it.\<close>

definition packet_conn :: "bytes \<Rightarrow> bytes \<Rightarrow> conn" where
  "packet_conn h data =
     \<lparr>c_ip_s = ip_src h, c_ip_d = ip_dst h, c_protocol = ip_p h,
      c_port_s = (if has_ports (ip_p h) then load16 (data ! 0) (data ! 1) else 0),
      c_port_d = (if has_ports (ip_p h) then load16 (data ! 2) (data ! 3) else 0)\<rparr>"

lemma fw_admits_conn:
  assumes "ps_packet ps = data @ r" "ps_len ps = length data"
  shows "fw_admits fw ps h now =
     (if ip_p h = IPPROTO_ICMP \<or> has_ports (ip_p h) \<and> 4 \<le> length data
      then check_connection fw (packet_conn h data) now else (False, fw))"
  using assms by (auto simp: fw_admits_def ports_def packet_conn_def nth_append ip_consts Let_def)

lemma check_connection_refused: "\<not> fst (check_connection fw c now) \<Longrightarrow> check_connection fw c now = (False, fw)"
  by (simp add: check_connection_def split: if_splits option.splits)

text \<open>
  C8. The firewall keeps out what it refuses. A packet from an outside interface whose route leads
  to an inside one, and whose connection (addresses, protocol, and for TCP and UDP the ports behind
  the IP header) \<^verbatim>\<open>check_connection\<close> does not admit, changes nothing: nothing is sent or queued, and
  firewall, caches and topology stay as they are.
\<close>
theorem firewall_blocks:
  assumes f: "f = e @ h @ data @ rest" "length e = 14" "ether_type f = htons ETHERTYPE_IP"
    and h: "length h = 20"
    and dst: "find_dest (ri_ifs rs) (ip_dst h) = Elsewhere" "route_of rs (ip_dst h) = Some (nm, nh)"
    and crosses: "is_external (ri_fw rs) iface" "is_internal (ri_fw rs) nm"
    and refused: "\<not> fst (check_connection (ri_fw rs) (packet_conn h data) now)"
  shows "sr_handlepacket junk blk now rs f (34 + length data) iface = Inr rs"
proof -
  let ?ps = "received f (34 + length data) iface blk"
  have d: "drop 14 f = h @ data @ rest" using f(1,2) by simp
  have r1: "out_interface (route_packet rs ?ps (ip_dst h)) = Some nm"
    using route_of_packet[OF dst(2)] by blast
  have x: "crosses_in (ri_fw rs) iface nm" using crosses by (simp add: crosses_in_def)
  have "forward_verdict (ri_fw rs) ?ps nm h now = Inr (False, ri_fw rs)"
    using x fw_admits_conn[of "leave_hdr_room ?ps IP_HDR_LEN" data rest "ri_fw rs" h now] d h(1)
      check_connection_refused[OF refused]
    by (simp add: forward_verdict_def hdr_lens flip: drop_drop)
  then have "handle_forward now rs ?ps (h @ data @ rest) h = Inr (False, forward_state rs ?ps nm (ip_dst h), rs)"
    using handle_forward_verdict[OF r1, of now "h @ data @ rest"] by simp
  then show ?thesis
    using dst(1) handlepacket_ip[OF _ f(3)] d h(1)
    by (simp add: handle_ip_def hdr_lens Let_def)
qed

section \<open>Expired packets\<close>

lemma time_exceeded_written:
  assumes "ps_response ps + 36 \<le> length (ps_block ps)" "8 \<le> ps_len ps" "8 \<le> length (ps_packet ps)" "20 \<le> length ip"
    and "ps_res_len ps = 14 \<or> ps_res_len ps = 34"
  shows "\<exists>b. icmp_response ps ip ICMPT_TIMEEX code =
      Inr (ps\<lparr>ps_block := b, ps_response := ps_response ps + 36, ps_res_len := ps_res_len ps + 36\<rparr>) \<and>
     length b = length (ps_block ps)"
proof -
  let ?k = "ps_response ps"
  define pre where "pre = take ?k (ps_block ps)"
  define room where "room = drop ?k (ps_block ps)"
  have b: "ps_block ps = pre @ room" "length pre = ?k" "36 \<le> length room"
    using assms(1) by (simp_all add: pre_def room_def)
  let ?m = "icmp_error ICMPT_TIMEEX code ip (ps_packet ps)"
  have m: "length ?m = 36" using assms(3,4) by (simp add: icmp_error_def)
  define ps2 where "ps2 = ps\<lparr>ps_block := pre @ ?m @ drop 36 room, ps_response := ?k + 36, ps_res_len := ps_res_len ps + 36\<rparr>"
  have "create_icmp_hdr ps ICMPT_TIMEEX code = Inr (ps\<lparr>ps_block := pre @ [ICMPT_TIMEEX, code, 0, 0, 0, 0, 0, 0] @ drop 8 room,
      ps_response := ?k + 8, ps_res_len := ps_res_len ps + 8\<rparr>)" (is "_ = Inr ?ps1")
    using create_icmp_hdr_ok[OF b(1,2)] b(3) by simp
  moreover have "create_icmp_data ?ps1 ip = Inr ps2"
    using b(2,3) assms(2-4)
    by (simp add: create_icmp_data_def emit_def hdr_lens icmp_types ps2_def icmp_error_def Let_def)
  ultimately have eq: "icmp_response ps ip ICMPT_TIMEEX code = fill_icmp_sum ?k ps2"
    by (simp add: icmp_response_def icmp_types Let_def)
  define n where "n = ps_res_len ps2 - 34"
  have n: "even n" "n \<le> 36" "n \<le> 65534" using assms(5) by (auto simp: n_def ps2_def)
  define b1 where "b1 = take (?k + 2) (ps_block ps2) @ store16 0 @ drop (?k + 2 + 2) (ps_block ps2)"
  have l2: "length (ps_block ps2) = length (ps_block ps)" "?k + 36 \<le> length (ps_block ps2)"
    using b m by (simp_all add: ps2_def)
  then have l1: "length b1 = length (ps_block ps)" "?k + 36 \<le> length b1" by (simp_all add: b1_def)
  then have "n \<le> length (drop ?k b1)" using n(2) by simp
  then obtain c where "cksum (drop ?k b1) n = Inr c" using cksum_total[OF n(1) _ n(3)] by blast
  moreover have "put_bytes (?k + 2) (store16 0) (ps_block ps2) = Inr b1" using l2 by (simp add: b1_def)
  moreover have "ps_res_len ps2 - ETHER_HDR_LEN - IP_HDR_LEN = n" by (simp add: n_def hdr_lens)
  ultimately have "fill_icmp_sum ?k ps2 =
      Inr (ps2\<lparr>ps_block := take (?k + 2) b1 @ store16 (ntohs c) @ drop (?k + 2 + 2) b1\<rparr>)"
    using l1 by (simp add: fill_icmp_sum_def Let_def)
  with eq l1 show ?thesis
    by (intro exI[of _ "take (?k + 2) b1 @ store16 (ntohs c) @ drop (?k + 2 + 2) b1"]) (simp add: ps2_def)
qed

text \<open>
  Nobody hears of an expired packet. A packet to forward whose time to live is 0 is not
  forwarded, but the ICMP message about it is never sent either: it is handed to the interface of
  the route with the MAC of the interface the packet came in on, and dropped there.
\<close>
theorem expired_lost:
  assumes f: "f = e @ h @ data @ rest" "length e = 14" "ether_type f = htons ETHERTYPE_IP"
    and h: "length h = 20" "unat (ip_hl h) * 4 \<le> 20" "ip_ttl h = 0" "8 \<le> length data"
    and dst: "find_dest (ri_ifs rs) (ip_dst h) = Elsewhere" "route_of rs (ip_dst h) = Some (nm, nh)"
    and fw: "forward_verdict (ri_fw rs) (received f (34 + length data) iface blk) nm h now = Inr (True, fw')"
    and blk: "length blk = MAX_PAC_LENGTH"
    and ifs: "sr_get_interface (ri_ifs rs) iface = Some v" "length (if_addr v) = 6"
      "sr_get_interface (ri_ifs rs) nm = Some w" "if_addr v \<noteq> if_addr w"
  shows "sr_handlepacket junk blk now rs f (34 + length data) iface = Inr (rs\<lparr>ri_fw := fw'\<rparr>)"
proof -
  let ?ps = "received f (34 + length data) iface blk" and ?rs1 = "rs\<lparr>ri_fw := fw'\<rparr>"
  have d: "drop 14 f = h @ data @ rest" using f(1,2) by simp
  have r1: "out_interface (route_packet rs ?ps (ip_dst h)) = Some nm"
    using route_of_packet[OF dst(2)] by blast
  define ps2 where "ps2 = forward_state rs ?ps nm (ip_dst h)"
  have "ps_response ps2 + 36 \<le> length (ps_block ps2)" "8 \<le> ps_len ps2" "8 \<le> length (ps_packet ps2)"
     "20 \<le> length (h @ data @ rest)" "ps_res_len ps2 = 14 \<or> ps_res_len ps2 = 34"
    using d h(1,4) blk by (simp_all add: ps2_def forward_state_fields arp_consts)
  then obtain b where b: "icmp_response ps2 (h @ data @ rest) ICMPT_TIMEEX ICMPC_INTRANSIT =
      Inr (ps2\<lparr>ps_block := b, ps_response := ps_response ps2 + 36, ps_res_len := ps_res_len ps2 + 36\<rparr>)"
      "length b = length (ps_block ps2)"
    using time_exceeded_written by blast
  define ps3 where "ps3 = ps2\<lparr>ps_block := b, ps_response := ps_response ps2 + 36, ps_res_len := ps_res_len ps2 + 36\<rparr>"
  have "handle_forward now rs ?ps (h @ data @ rest) h = Inr (True, ps3, ?rs1)"
    using handle_forward_verdict[OF r1, of now "h @ data @ rest"] fw h(3) b(1)
    by (simp add: ps2_def ps3_def)
  then have 1: "handle_ip junk now rs ?ps f = Inr (True, ps3, ?rs1)"
    using handle_ip_packet[OF d h(1) _ h(2)] dst(1) by simp
  have p3: "\<not> ps_forward ps3" "ps_interface ps3 = iface" "length (ps_block ps3) = 10000" "ps_block ps3 = b"
    "out_interface ps3 = Some nm" "ps_res_len ps3 \<le> 70"
    using b(2) blk route_of_packet[OF dst(2), of ps3 ?ps]
    by (auto simp: ps3_def ps2_def forward_state_fields arp_consts)
  have sh: "length (ether_shost f) = 6" "ether_shost (take 14 f) = ether_shost f"
    using f(1,2) by (simp_all add: ether_shost_def drop_take)
  let ?b = "ether_shost f @ if_addr v @ [8, 0] @ drop 14 b"
  have "put_eth (Some (ether_shost f)) (if_addr v) b = Inr ?b"
    using put_eth_ok[OF sh(1) ifs(2), of b] p3(3,4) by simp
  then have 2: "create_eth_hdr now ?rs1 ps3 (take 14 f) = Inr (True, ps3\<lparr>ps_block := ?b\<rparr>, ?rs1)"
    using p3(1,2,4) ifs(1) sh(2) by (simp add: create_eth_hdr_def)
  have "ether_shost ?b = if_addr v" using sh(1) ifs(2) by (simp add: ether_shost_def[of "_ @ _"])
  then have "sr_send_packet (ri_ifs rs) ?b (ps_res_len ps3) nm = Inr []"
    using ifs(3,4) p3(3,4,6) sh(1) ifs(2)
    by (simp add: sr_send_packet_def sr_ether_addrs_match_interface_def)
  with 1 2 f(3) p3(5) show ?thesis by (simp add: handlepacket_ip send_response_def)
qed

section \<open>Examples\<close>

text \<open>A router with an outside and an inside network, a host known on each, and the given rules.\<close>

definition border :: "ft_entry list \<Rightarrow> router_state" where
  "border rls = sample_router
     \<lparr>ri_rt := [\<lparr>rt_dest = load32 10 0 0 0, rt_gw = load32 10 0 0 9, rt_mask = load32 255 255 255 0, rt_interface = ''eth0''\<rparr>,
               \<lparr>rt_dest = load32 10 0 1 0, rt_gw = load32 10 0 1 9, rt_mask = load32 255 255 255 0, rt_interface = ''eth1''\<rparr>],
      ri_fw := \<lparr>rules = rls, flow_table = [], ft_size = 0, inter = [''eth1''], exter = [''eth0'']\<rparr>,
      ri_arp := arp_init\<lparr>st_cache := [\<lparr>ip_add = load32 10 0 1 9, ac_mac = [7, 7, 7, 7, 7, 7], timenotvalid = 200\<rparr>]\<rparr>\<rparr>"

definition any_rule :: ft_entry where
  "any_rule = new_entry \<lparr>c_ip_s = 0, c_ip_d = 0, c_protocol = 0, c_port_s = 0, c_port_d = 0\<rparr> 0"

definition header :: "u8 \<Rightarrow> u8 \<Rightarrow> u8 \<Rightarrow> bytes" where
  "header ttl src dst = [0x45, 0, 0, 30, 0, 1, 0, 0, ttl, 1, 0, 0, 10, 0, src, 8, 10, 0, dst, 8]"

lemma header_simps:
  "length (header ttl s d) = 20" "unat (ip_hl (header ttl s d)) * 4 \<le> 20" "ip_ttl (header ttl s d) = ttl"
  "ip_p (header ttl s d) = IPPROTO_ICMP" "ip_src (header ttl s d) = load32 10 0 s 8"
  "ip_dst (header ttl s d) = load32 10 0 d 8"
  by (simp_all add: header_def ip_hl_def ip_ttl_def ip_p_def ip_src_def ip_dst_def ip_consts)

lemma border_routes:
  "find_dest (ri_ifs (border rls)) (load32 10 0 1 8) = Elsewhere"
  "find_dest (ri_ifs (border rls)) (load32 10 0 0 8) = Elsewhere"
  "route_of (border rls) (load32 10 0 1 8) = Some (''eth1'', load32 10 0 1 9)"
  "route_of (border rls) (load32 10 0 0 8) = Some (''eth0'', load32 10 0 0 9)"
proof -
  have l: "load32 10 0 1 8 \<noteq> load32 10 0 0 1" "load32 10 0 1 8 \<noteq> load32 10 0 1 1" "load32 10 0 0 8 \<noteq> load32 10 0 0 1"
    "load32 10 0 0 8 \<noteq> load32 10 0 1 1" "load32 10 0 1 8 \<noteq> ntohl 0xe0000005" "load32 10 0 0 8 \<noteq> ntohl 0xe0000005"
    by code_simp+
  then show "find_dest (ri_ifs (border rls)) (load32 10 0 1 8) = Elsewhere"
    "find_dest (ri_ifs (border rls)) (load32 10 0 0 8) = Elsewhere"
    by (auto simp: border_def sample_router_def sample_if_def sample_if1_def OSPF_AllSPFRouters_def)
  have o: "os_ftable (ri_ospf (border rls)) = []" by (simp add: border_def sample_router_def on_link_def)
  have d: "get_dyn_routing_if [] x = None" for x by (simp add: get_dyn_routing_if_def)
  have "map_option rt_interface (get_static_routing_if (ri_rt (border [])) (load32 10 0 1 8)) = Some ''eth1''"
    "map_option rt_gw (get_static_routing_if (ri_rt (border [])) (load32 10 0 1 8)) = Some (load32 10 0 1 9)"
    "map_option rt_interface (get_static_routing_if (ri_rt (border [])) (load32 10 0 0 8)) = Some ''eth0''"
    "map_option rt_gw (get_static_routing_if (ri_rt (border [])) (load32 10 0 0 8)) = Some (load32 10 0 0 9)"
    unfolding border_def by code_simp+
  moreover have "ri_rt (border rls) = ri_rt (border [])" by (simp add: border_def)
  ultimately show "route_of (border rls) (load32 10 0 1 8) = Some (''eth1'', load32 10 0 1 9)"
    "route_of (border rls) (load32 10 0 0 8) = Some (''eth0'', load32 10 0 0 9)"
    by (auto simp: route_of_def o d)
qed

text \<open>The frames of the examples: from the outside host to the inside one, and back.\<close>

definition eth :: bytes where "eth = [1, 2, 3, 4, 5, 6, 9, 9, 9, 9, 9, 9, 8, 0]"
definition text10 :: bytes where "text10 = [8, 0, 5, 5, 0, 1, 0, 2, 42, 43]"

lemma example_simps:
  "length eth = 14" "length text10 = 10" "ether_type (eth @ r) = htons ETHERTYPE_IP"
  "sr_get_interface (ri_ifs (border rls)) ''eth0'' = Some sample_if"
  "sr_get_interface (ri_ifs (border rls)) ''eth1'' = Some sample_if1"
  "length (if_addr sample_if) = 6" "length (if_addr sample_if1) = 6" "if_addr sample_if1 \<noteq> if_addr sample_if"
  "is_external (ri_fw (border rls)) ''eth0''" "is_internal (ri_fw (border rls)) ''eth1''"
  "\<not> is_external (ri_fw (border rls)) ''eth1''" "\<not> is_internal (ri_fw (border rls)) ''eth0''"
proof -
  show "ether_type (eth @ r) = htons ETHERTYPE_IP" by (simp add: eth_def ether_type_def ETHERTYPE_IP_def) code_simp
qed (simp_all add: eth_def text10_def border_def sample_router_def sample_if_def sample_if1_def
      is_external_def is_internal_def strncmp_name_def sr_IFACE_NAMELEN_def)

lemma blk_simps: "length (replicate 10000 (0 :: u8)) = MAX_PAC_LENGTH" "54 + length text10 \<le> length (replicate 10000 (0 :: u8))"
  by (simp_all add: arp_consts text10_def)


lemma border_inside_out:
  "\<exists>fw'. forward_verdict (ri_fw (border [])) (received f n ''eth1'' blk) ''eth0'' (header ttl 1 0) 100 = Inr (True, fw')"
proof -
  have "\<not> crosses_in (ri_fw (border [])) ''eth1'' ''eth0''" by (simp add: crosses_in_def example_simps)
  moreover have "flow_table (ri_fw (border [])) = []" "ft_size (ri_fw (border [])) = 0" by (simp_all add: border_def)
  ultimately show ?thesis
    by (simp add: forward_verdict_def example_simps fw_tells_def header_simps tell_valid_def ft_contains_def MAX_FT_SIZE_def)
qed

theorem forward_overread_witness:
  "sr_handlepacket (\<lambda>_. (0, 0)) (replicate 10000 0) 100 (border []) (eth @ header 64 1 0 @ text10 @ [])
     (34 + length text10) ''eth1'' = Inl Out_of_bounds"
proof -
  let ?rs = "border []" and ?h = "header 64 1 0" and ?f = "eth @ header 64 1 0 @ text10 @ []"
  have x: "\<not> crosses_in (ri_fw ?rs) ''eth1'' ''eth0''" by (simp add: crosses_in_def example_simps)
  obtain fw' where v: "forward_verdict (ri_fw ?rs) (received ?f (34 + length text10) ''eth1'' (replicate 10000 0)) ''eth0'' ?h 100 =
      Inr (True, fw')" using border_inside_out by blast
  show ?thesis
    by (rule forward_overread[OF refl example_simps(1,3) header_simps(1,2) _ _ _ v blk_simps(2) x])
      (simp_all add: header_simps border_routes)
qed

lemma no_rules: "check_connection (ri_fw (border [])) c now = (False, ri_fw (border []))"
  by (simp add: check_connection_def rule_contains_def border_def)

theorem firewall_blocks_witness:
  "sr_handlepacket (\<lambda>_. (0, 0)) [] 100 (border []) (eth @ header 64 0 1 @ text10 @ []) (34 + length text10) ''eth0'' =
   Inr (border [])"
  by (rule firewall_blocks[OF refl example_simps(1,3) header_simps(1) _ _ example_simps(9,10), where nh = "load32 10 0 1 9"])
    (simp_all add: header_simps border_routes no_rules)

theorem expired_lost_witness:
  "\<exists>fw'. sr_handlepacket (\<lambda>_. (0, 0)) (replicate 10000 0) 100 (border []) (eth @ header 0 1 0 @ text10 @ [])
     (34 + length text10) ''eth1'' = Inr ((border [])\<lparr>ri_fw := fw'\<rparr>)"
proof -
  let ?rs = "border []" and ?h = "header 0 1 0" and ?f = "eth @ header 0 1 0 @ text10 @ []"
  have x: "\<not> crosses_in (ri_fw ?rs) ''eth1'' ''eth0''" by (simp add: crosses_in_def example_simps)
  obtain fw' where v: "forward_verdict (ri_fw ?rs) (received ?f (34 + length text10) ''eth1'' (replicate 10000 0)) ''eth0'' ?h 100 =
      Inr (True, fw')" using border_inside_out by blast
  show ?thesis
    by (rule exI, rule expired_lost[OF refl example_simps(1,3) header_simps(1,2) _ _ _ _ v blk_simps(1) example_simps(5,7,4,8)])
      (simp_all add: header_simps border_routes text10_def)
qed

end
