(* ===== verification/System.thy ===== *)
theory System
  imports Router
begin

text \<open>
  The running router: packets, the ARP threads and the PWOSPF thread, in any order. The subsystems
  share the interface list, the ARP queue and the topology; each locked operation is one step.
  The invariants of the components are kept together, and every frame that is ever sent carries the
  MAC of the interface it leaves by.
\<close>

section \<open>Partial correctness\<close>

text \<open>What holds of the result if there is one.\<close>

definition post :: "('a \<Rightarrow> bool) \<Rightarrow> 'a result \<Rightarrow> bool" where
  "post P m \<longleftrightarrow> (\<forall>x. m = Inr x \<longrightarrow> P x)"

lemma post_simps [simp]: "post P (Inr x) = P x" "post P (Inl e)"
  by (simp_all add: post_def)

lemma post_rbind: "post Q m \<Longrightarrow> (\<And>x. Q x \<Longrightarrow> post P (k x)) \<Longrightarrow> post P (rbind m k)"
  by (cases m) (simp_all add: post_def)

lemma post_any: "(\<And>x. post P (k x)) \<Longrightarrow> post P (rbind m k)"
  by (cases m) (simp_all add: post_def)

lemma post_if: "(b \<Longrightarrow> post P m) \<Longrightarrow> (\<not> b \<Longrightarrow> post P n) \<Longrightarrow> post P (if b then m else n)"
  by simp

lemma post_mono: "post Q m \<Longrightarrow> (\<And>x. Q x \<Longrightarrow> P x) \<Longrightarrow> post P m"
  by (simp add: post_def)

lemma post_conj: "post P m \<Longrightarrow> post Q m \<Longrightarrow> post (\<lambda>x. P x \<and> Q x) m"
  by (simp add: post_def)

lemma post_foldr: "P s \<Longrightarrow> (\<And>x s. P s \<Longrightarrow> post P (f x s)) \<Longrightarrow> post P (foldr_res f xs s)"
  by (induction xs arbitrary: s) (auto intro: post_rbind)

lemma post_safe: "safe P m \<Longrightarrow> post P m"
  by (cases m) simp_all

section \<open>Sources of frames\<close>

text \<open>A frame as \<^verbatim>\<open>sr_send_packet\<close> lets it pass.\<close>

definition frames_ok :: "sr_if list \<Rightarrow> frame list \<Rightarrow> bool" where
  "frames_ok ifs fs \<longleftrightarrow> (\<forall>(nm, f) \<in> set fs. 14 \<le> length f \<and>
     (\<exists>w. sr_get_interface ifs nm = Some w \<and> ether_shost f = if_addr w))"

lemma frames_ok_simps [simp]:
  "frames_ok ifs []" "frames_ok ifs (xs @ ys) \<longleftrightarrow> frames_ok ifs xs \<and> frames_ok ifs ys"
  by (simp_all add: frames_ok_def ball_Un)

lemma send_frames: "post (frames_ok ifs) (sr_send_packet ifs buf len nm)"
proof -
  have "frames_ok ifs [(nm, take len buf)]"
    if "14 \<le> len" "len \<le> length buf" "sr_ether_addrs_match_interface ifs buf nm"
    using that by (auto simp: frames_ok_def sr_ether_addrs_match_interface_def ether_shost_def drop_take
        split: option.splits)
  then show ?thesis by (simp add: sr_send_packet_def hdr_lens)
qed

lemma send_to_mac_frames: "post (frames_ok ifs) (send_to_mac ifs mac iface p n)"
  by (auto simp: send_to_mac_def intro!: post_any send_frames)

lemma send_all_frames:
  "post (frames_ok ifs) (send_all_packs ps mac iface ifs)" "post (frames_ok ifs) (send_all_lsus ls mac iface ifs)"
proof -
  show "post (frames_ok ifs) (send_all_packs ps mac iface ifs)"
    by (induction ps) (auto intro!: post_rbind[OF send_to_mac_frames] elim: post_rbind)
  show "post (frames_ok ifs) (send_all_lsus ls mac iface ifs)"
    by (induction ls) (auto intro!: post_rbind[OF send_to_mac_frames] elim: post_rbind)
qed

lemma send_icmp_frames: "post (frames_ok ifs) (send_icmp ifs blk p n e)"
  by (auto simp: send_icmp_def Let_def split: option.split intro!: post_any send_frames)

lemma send_all_icmps_frames: "post (frames_ok ifs) (send_all_icmps ps blk ifs)"
  by (induction ps) (auto intro!: post_rbind[OF send_icmp_frames] elim: post_rbind)

section \<open>The ARP subsystem\<close>

definition arp_good :: "sr_if list \<Rightarrow> arp_state \<Rightarrow> bool" where
  "arp_good ifs a \<longleftrightarrow> arp_ok a \<and> frames_ok ifs (st_sent a)"

lemma arp_good_cache [simp]: "arp_good ifs (a\<lparr>st_cache := c\<rparr>) = arp_good ifs a"
  by (simp add: arp_good_def arp_ok_def running_def)

lemma arp_good_sent [simp]:
  "arp_good ifs (a\<lparr>st_sent := st_sent a @ out\<rparr>) \<longleftrightarrow> arp_good ifs a \<and> frames_ok ifs out"
  by (auto simp: arp_good_def arp_ok_def running_def)

lemma get_mac_address_good:
  assumes "arp_good ifs a"
  shows "post (arp_good ifs) (get_mac_address ifs a ip p n iface ty e)"
proof -
  have "st_sent a' = st_sent a" if "get_mac_address ifs a ip p n iface ty e = Inr a'" for a'
    using that by (auto simp: get_mac_address_def rbind_eq_Inr Let_def split: option.splits if_splits)
  then show ?thesis using assms get_mac_address_ok by (auto simp: post_def arp_good_def)
qed

lemma thread_step_good:
  assumes "arp_good ifs a" "t < length (st_threads a)"
  shows "post (arp_good ifs) (thread_step ifs blk now a t)"
proof -
  have r: "post (frames_ok ifs) (send_request ifs x)" for x by (simp add: send_request_def send_frames)
  have b: "post (frames_ok ifs) (send_buffered ifs x m)" for x m
    unfolding send_buffered_def by (intro post_any post_rbind[OF send_all_frames(1)] post_rbind[OF send_all_frames(2)]) simp
  have g: "post (frames_ok ifs) (give_up ifs blk x)" for x
    unfolding give_up_def by (intro post_any post_rbind[OF send_all_icmps_frames]) (auto intro: post_any)
  have s: "frames_ok ifs (st_sent a)" using assms(1) by (simp add: arp_good_def)
  obtain k pc where kp: "st_threads a ! t = (k, pc)" by force
  have "post (\<lambda>a'. frames_ok ifs (st_sent a')) (thread_step ifs blk now a t)"
    using s by (cases pc)
      (auto simp: thread_step_def kp set_pc_def Let_def split: prod.split option.split
        intro!: post_rbind[OF r] post_rbind[OF b] post_rbind[OF g])
  then show ?thesis using thread_step_ok[OF _ assms(2)] assms(1) by (auto simp: post_def arp_good_def)
qed

section \<open>The PWOSPF subsystem\<close>

text \<open>
  The database is well formed and this router's own record in it carries the address of \<^verbatim>\<open>eth0\<close>; the
  interfaces are those of the interface list, with arrays as the code believes them to be.
\<close>

definition own_id :: "topo \<Rightarrow> u32" where
  "own_id s = rid (rt s (this_router s))"

definition ospf_good :: "sr_if list \<Rightarrow> ospf \<Rightarrow> bool" where
  "ospf_good ifs os \<longleftrightarrow> wf_topo (os_topo os) \<and>
     (\<exists>w. sr_get_interface ifs ''eth0'' = Some w \<and> own_id (os_topo os) = if_ip w) \<and>
     (\<forall>w \<in> set (os_ifs os). wf_pif w) \<and>
     list_all2 same_if (map pwospf_iface ifs) (os_ifs os)"

definition keeps_id :: "topo \<Rightarrow> topo \<Rightarrow> bool" where
  "keeps_id s s' \<longleftrightarrow> wf_topo s' \<and> own_id s' = own_id s"

lemma keeps_evolves: "wf_topo s \<Longrightarrow> evolves s s' \<Longrightarrow> keeps_id s s'"
  using wf_topoD(5)[of s] by (simp add: keeps_id_def evolves_def own_id_def)

lemma keeps_trans: "keeps_id s t \<Longrightarrow> keeps_id t u \<Longrightarrow> keeps_id s u"
  by (simp add: keeps_id_def)

lemma ospf_good_topo: "ospf_good ifs os \<Longrightarrow> keeps_id (os_topo os) s \<Longrightarrow> ospf_good ifs (os\<lparr>os_topo := s, os_ftable := ft\<rparr>)"
  by (auto simp: ospf_good_def keeps_id_def)

lemma lsu_to_nbr_good:
  assumes "arp_good ifs (snd x)"
  shows "post (arp_good ifs \<circ> snd) (lsu_to_nbr ifs now n iface dst x)"
proof -
  obtain f a where x: "x = (f, a)" by force
  have g: "post (arp_good ifs) (get_mac_address ifs (a\<lparr>st_cache := c\<rparr>) dst f n iface LSU_TYPE [])" for c
    using assms by (intro get_mac_address_good) (simp add: x)
  have s: "arp_good ifs (a\<lparr>st_cache := c, st_sent := st_sent a @ out\<rparr>)" if "frames_ok ifs out" for c out
    using that assms arp_good_sent[of ifs "a\<lparr>st_cache := c\<rparr>" out] by (simp add: x)
  obtain c r where c: "search_cache (st_cache a) now dst = (c, r)" by force
  show ?thesis
  proof (cases r)
    case None
    show ?thesis unfolding lsu_to_nbr_def x prod.case c None option.case
      by (rule post_rbind[OF g]) simp
  next
    case (Some mac)
    show ?thesis unfolding lsu_to_nbr_def x prod.case c Some option.case
      by (rule post_any, rule post_rbind[OF send_frames]) (simp add: s)
  qed
qed

lemma forward_on_if_good:
  assumes "arp_good ifs (snd x)"
  shows "post (arp_good ifs \<circ> snd) (forward_on_if ifs now n from w x)"
  unfolding forward_on_if_def
proof (rule post_foldr)
  fix y :: "bytes \<times> arp_state" and m assume "(arp_good ifs \<circ> snd) y"
  then show "post (arp_good ifs \<circ> snd) (case y of (f, a) \<Rightarrow>
      if nb_ip m = from then Inr (f, a)
      else rbind (address_frame (pif_address w) (nb_ip m) (pif_mac w) f) (\<lambda>f'.
         lsu_to_nbr ifs now n (pif_name w) (nb_ip m) (f', a)))"
    by (auto split: prod.split intro!: post_any lsu_to_nbr_good)
qed (use assms in simp)

lemma send_on_if_good:
  assumes "arp_good ifs (snd x)"
  shows "post (arp_good ifs \<circ> snd) (send_on_if ifs now n w x)"
  unfolding send_on_if_def
proof (rule post_foldr)
  fix y :: "bytes \<times> arp_state" and m assume "(arp_good ifs \<circ> snd) y"
  then show "post (arp_good ifs \<circ> snd) (case y of (f, a) \<Rightarrow>
      (case sr_get_interface ifs (pif_name w) of
         None \<Rightarrow> Inl Null_pointer
       | Some src_if \<Rightarrow>
           rbind (address_frame (pif_address w) (nb_ip m) (if_addr src_if) f) (\<lambda>f'.
             lsu_to_nbr ifs now n (pif_name w) (nb_ip m) (f', a))))"
    by (auto split: prod.split option.split intro!: post_any lsu_to_nbr_good)
qed (use assms in simp)

lemma forward_lsu_good:
  assumes "arp_good ifs a"
  shows "post (arp_good ifs) (forward_lsu ifs wifs now ps f a)"
proof -
  have l: "post (arp_good ifs \<circ> snd) (foldr_res (forward_on_if ifs now n src) wifs (g, a))" for n src g
    by (rule post_foldr) (use assms in \<open>auto intro: forward_on_if_good\<close>)
  show ?thesis unfolding forward_lsu_def Let_def
    by (intro post_any) (auto intro!: post_any post_rbind[OF l] simp: assms)
qed

lemma send_lsu_good:
  assumes "arp_good ifs a" "ospf_good ifs os"
  shows "post (\<lambda>(os', a'). ospf_good ifs os' \<and> os_topo os' = os_topo os \<and> arp_good ifs a') (send_lsu ifs rts blk now os a)"
proof -
  have l: "post (arp_good ifs \<circ> snd) (foldr_res (send_on_if ifs now n) ws (g, a))" for n ws g
    by (rule post_foldr) (use assms in \<open>auto intro: send_on_if_good\<close>)
  show ?thesis unfolding send_lsu_def Let_def
    using assms(2) by (intro post_any post_rbind[OF l]) (auto simp: ospf_good_def)
qed

lemma recompute_good:
  assumes "wf_topo s"
  shows "post (\<lambda>(s', ft). keeps_id s s') (recompute s ifs)"
proof -
  obtain s' where "dijkstra s = Inr s'" "same_links s s'" using dijkstra_ok[OF assms] by blast
  then show ?thesis using same_links_wf[OF assms] same_links_fields[of s s']
    by (auto simp: recompute_def keeps_id_def own_id_def intro!: post_any)
qed

lemma add_to_top_good:
  assumes "wf_topo s"
  shows "post (\<lambda>(s', ft). keeps_id s s') (add_to_top s ws now host advs)"
proof -
  have "post (keeps_id s) (merge_lsu s now host advs)"
    using merge_lsu_ok[OF assms, of now host advs] keeps_evolves[OF assms] by auto
  moreover have "post (\<lambda>(s', ft). keeps_id s s') (recompute s1 ws)" if "keeps_id s s1" for s1
    by (rule post_mono[OF recompute_good]) (use that keeps_trans in \<open>auto simp: keeps_id_def\<close>)
  ultimately show ?thesis unfolding add_to_top_def by (rule post_rbind)
qed

lemma check_top_good:
  assumes "wf_topo s"
  shows "post (\<lambda>(s', ft). keeps_id s s') (check_top_invalid s ft ws now)"
proof -
  obtain b s1 where s1: "top_walk now (network s) [] False s = Inr (b, s1)" "wf_topo s1" "this_router s1 = this_router s"
      "\<forall>a \<in> set (network s1). rid (rt s1 a) = rid (rt s a)"
    using top_walk_ok[OF assms, of "[]" "network s" now False] by auto
  then have k: "keeps_id s s1" using wf_topoD(5)[OF s1(2)] by (simp add: keeps_id_def own_id_def)
  have "post (\<lambda>(s', ft). keeps_id s s') (recompute s1 ws)"
    by (rule post_mono[OF recompute_good[OF s1(2)]]) (use k keeps_trans in auto)
  with s1(1) k show ?thesis by (simp add: check_top_invalid_def)
qed

lemma handle_lsu_good:
  assumes "arp_good ifs a" "ospf_good ifs os"
  shows "post (\<lambda>(os', a'). ospf_good ifs os' \<and> arp_good ifs a') (handle_lsu ifs junk now ps f os a)"
proof -
  have wf: "wf_topo (os_topo os)" using assms(2) by (simp add: ospf_good_def)
  have set: "post (keeps_id (os_topo os)) (set_sequence ident q s)" if "keeps_id (os_topo os) s" for ident q s
  proof -
    have "wf_topo s" using that by (simp add: keeps_id_def)
    then obtain s' where "set_sequence ident q s = Inr s'" "evolves s s'" using set_sequence_ok by blast
    with keeps_evolves[OF \<open>wf_topo s\<close>] keeps_trans[OF that] show ?thesis by simp
  qed
  have tail: "post (\<lambda>(os', a'). ospf_good ifs os' \<and> arp_good ifs a')
     (rbind (add_to_top (os_topo os) (os_ifs os) now ident advs) (\<lambda>(s1, ft).
      rbind (set_sequence ident q s1) (\<lambda>s2.
      rbind (forward_lsu ifs (os_ifs os) now ps f a) (\<lambda>a'. Inr (os\<lparr>os_topo := s2, os_ftable := ft\<rparr>, a')))))"
    for ident q advs
  proof (rule post_rbind[OF add_to_top_good[OF wf]])
    fix x :: "topo \<times> ftable_entry list" assume "case x of (s', ft) \<Rightarrow> keeps_id (os_topo os) s'"
    then show "post (\<lambda>(os', a'). ospf_good ifs os' \<and> arp_good ifs a') (case x of (s1, ft) \<Rightarrow>
      rbind (set_sequence ident q s1) (\<lambda>s2.
      rbind (forward_lsu ifs (os_ifs os) now ps f a) (\<lambda>a'. Inr (os\<lparr>os_topo := s2, os_ftable := ft\<rparr>, a'))))"
      by (cases x) (auto intro!: post_rbind[OF set] post_rbind[OF forward_lsu_good[OF assms(1)]] ospf_good_topo[OF assms(2)])
  qed
  show ?thesis unfolding handle_lsu_def
    by (rule tail post_if post_any | simp add: assms)+
qed

lemma handle_HELLO_good:
  assumes "ospf_good ifs os"
  shows "post (ospf_good ifs) (handle_HELLO os p n iface src now)"
proof -
  have wf: "wf_topo (os_topo os)" "\<forall>w \<in> set (os_ifs os). wf_pif w" using assms by (simp_all add: ospf_good_def)
  have tr: "list_all2 same_if us ws" if "list_all2 same_if us vs" "list_all2 same_if vs ws" for us vs ws
    by (rule list_all2_trans[OF _ that]) (rule same_if_trans)
  have "post (\<lambda>(ws, s). ospf_good ifs (os\<lparr>os_ifs := ws, os_topo := s\<rparr>))
      (hello_walk p iface src now (os_ifs os) False (os_topo os))"
    by (rule post_mono[OF post_safe[OF safe_hello_walk[OF wf]]])
      (use assms keeps_evolves[OF wf(1)] tr in \<open>auto simp: ospf_good_def keeps_id_def\<close>)
  then show ?thesis using assms unfolding handle_HELLO_def by (auto elim!: post_rbind)
qed

lemma handle_pwospf_good:
  assumes "arp_good ifs a" "ospf_good ifs os"
  shows "post (\<lambda>(os', a'). ospf_good ifs os' \<and> arp_good ifs a') (handle_pwospf ifs junk now ps f os a)"
proof -
  have h: "post (\<lambda>(os', a'). ospf_good ifs os' \<and> arp_good ifs a')
      (rbind (handle_HELLO os p n iface src now) (\<lambda>os'. Inr (os', a)))" for p n iface src
    by (rule post_rbind[OF handle_HELLO_good[OF assms(2)]]) (simp add: assms(1))
  show ?thesis unfolding handle_pwospf_def
    by (rule h handle_lsu_good[OF assms] post_if post_any | simp add: assms)+
qed

lemma send_HELLO_frames: "post (frames_ok ifs) (send_HELLO ifs os)"
proof -
  have "post (frames_ok ifs) (hello_out ifs os ident ws)" for ident ws
  proof (induction ws)
    case (Cons w ws)
    then show ?case by (auto intro!: post_any[where m = "hello_packet _ _ _"] post_rbind[OF send_frames] elim: post_rbind)
  qed simp
  then show ?thesis unfolding send_HELLO_def by (intro post_any) blast
qed

section \<open>The firewall\<close>

text \<open>Rules and interface categories are never changed.\<close>

definition fw_config :: "firewall \<Rightarrow> ft_entry list \<times> string list \<times> string list" where
  "fw_config fw = (rules fw, inter fw, exter fw)"

definition fw_good :: "firewall \<Rightarrow> firewall \<Rightarrow> bool" where
  "fw_good fw0 fw \<longleftrightarrow> fw_ok fw \<and> fw_config fw = fw_config fw0"

lemma check_connection_good: "fw_good fw0 fw \<Longrightarrow> fw_good fw0 (snd (check_connection fw c now))"
  using check_connection_ok[of fw c now]
  by (auto simp: fw_good_def fw_config_def check_connection_def touch_def split: option.splits)

lemma tell_valid_good:
  assumes "fw_good fw0 fw"
  shows "post (\<lambda>(b, fw'). fw_good fw0 fw') (tell_valid fw c now)"
proof -
  have "fw_config fw' = fw_config fw" if "tell_valid fw c now = Inr (b, fw')" for b fw'
    using that by (auto simp: tell_valid_def fw_config_def touch_def add_connect_def remove_stale_entries_def
        rbind_eq_Inr split: option.splits if_splits)
  with assms tell_valid_ok show ?thesis by (auto simp: post_def fw_good_def)
qed

lemma fw_admits_good: "fw_good fw0 fw \<Longrightarrow> fw_good fw0 (snd (fw_admits fw ps h now))"
  by (auto simp: fw_admits_def Let_def check_connection_good split: option.split)

lemma fw_tells_good: "fw_good fw0 fw \<Longrightarrow> post (\<lambda>(b, fw'). fw_good fw0 fw') (fw_tells fw ps h now)"
  by (auto simp: fw_tells_def Let_def tell_valid_good split: option.split)

section \<open>The packet handler\<close>

definition router_good :: "router_state \<Rightarrow> router_state \<Rightarrow> bool" where
  "router_good rs0 rs \<longleftrightarrow> ri_ifs rs = ri_ifs rs0 \<and> ri_rt rs = ri_rt rs0 \<and>
     fw_good (ri_fw rs0) (ri_fw rs) \<and> arp_good (ri_ifs rs0) (ri_arp rs) \<and> ospf_good (ri_ifs rs0) (ri_ospf rs)"

lemma router_good_fw [simp]:
  "router_good rs0 rs \<Longrightarrow> router_good rs0 (rs\<lparr>ri_fw := fw\<rparr>) \<longleftrightarrow> fw_good (ri_fw rs0) fw"
  by (auto simp: router_good_def)

lemma router_good_arp [simp]:
  "router_good rs0 rs \<Longrightarrow> router_good rs0 (rs\<lparr>ri_arp := a\<rparr>) \<longleftrightarrow> arp_good (ri_ifs rs0) a"
  by (auto simp: router_good_def)

lemma router_goodD:
  assumes "router_good rs0 rs"
  shows "ri_ifs rs = ri_ifs rs0" "ri_rt rs = ri_rt rs0" "fw_good (ri_fw rs0) (ri_fw rs)"
    "arp_good (ri_ifs rs0) (ri_arp rs)" "ospf_good (ri_ifs rs0) (ri_ospf rs)"
  using assms by (simp_all add: router_good_def)

abbreviation handled_good :: "router_state \<Rightarrow> handled \<Rightarrow> bool" where
  "handled_good rs0 \<equiv> \<lambda>(ok, ps, rs). router_good rs0 rs"

lemma run_pwospf_good:
  assumes "router_good rs0 rs"
  shows "post (router_good rs0) (run_pwospf junk now ps f rs)"
  unfolding run_pwospf_def
proof (rule post_rbind)
  show "post (\<lambda>(os', a'). ospf_good (ri_ifs rs0) os' \<and> arp_good (ri_ifs rs0) a')
      (handle_pwospf (ri_ifs rs) junk now ps f (ri_ospf rs) (ri_arp rs))"
    using handle_pwospf_good[OF router_goodD(4,5)[OF assms]] router_goodD(1)[OF assms] by simp
qed (use assms in \<open>auto simp: router_good_def\<close>)

lemma handle_local_good:
  assumes "router_good rs0 rs"
  shows "post (handled_good rs0) (handle_local junk now rs ps f h w)"
proof -
  define x where "x = (if (is_external (ri_fw rs) (ps_interface ps) \<and> is_internal (ri_fw rs) (if_name w)) \<and> ip_p h \<noteq> OSPFV2_TYPE
      then fw_admits (ri_fw rs) ps h now else (True, ri_fw rs))"
  obtain ok fw where fw: "x = (ok, fw)" by force
  have "fw_good (ri_fw rs0) (snd x)" using router_goodD(3)[OF assms] by (simp add: x_def fw_admits_good)
  then have g: "router_good rs0 (rs\<lparr>ri_fw := fw\<rparr>)" using assms by (simp add: fw)
  show ?thesis
    unfolding handle_local_def Let_def x_def[symmetric] fw prod.case
    by (rule post_if post_rbind[OF run_pwospf_good[OF g]] post_any | simp add: g)+
qed

lemma handle_forward_good:
  assumes "router_good rs0 rs"
  shows "post (handled_good rs0) (handle_forward now rs ps ip h)"
proof (cases "out_interface (route_packet rs ps (ip_dst h))")
  case None
  then show ?thesis using assms by (simp add: handle_forward_def Let_def)
next
  case (Some nm)
  have "post (\<lambda>(b, fw'). fw_good (ri_fw rs0) fw') (forward_verdict (ri_fw rs) ps nm h now)"
    using router_goodD(3)[OF assms] fw_admits_good[of "ri_fw rs0" "ri_fw rs" "leave_hdr_room ps IP_HDR_LEN" h now]
    by (auto simp: forward_verdict_def fw_tells_good)
  then show ?thesis unfolding handle_forward_verdict[OF Some]
  proof (rule post_rbind)
    fix x :: "bool \<times> firewall" assume "case x of (b, fw') \<Rightarrow> fw_good (ri_fw rs0) fw'"
    then obtain ok fw where x: "x = (ok, fw)" "router_good rs0 (rs\<lparr>ri_fw := fw\<rparr>)" using assms by (cases x) simp
    show "post (handled_good rs0) (case x of (ok, fw) \<Rightarrow>
       if \<not> ok then Inr (False, forward_state rs ps nm (ip_dst h), rs\<lparr>ri_fw := fw\<rparr>)
       else if ip_ttl h < 1 then
         rbind (icmp_response (forward_state rs ps nm (ip_dst h)) ip ICMPT_TIMEEX ICMPC_INTRANSIT)
           (\<lambda>ps3. Inr (True, ps3, rs\<lparr>ri_fw := fw\<rparr>))
       else rbind (copy_forward (forward_state rs ps nm (ip_dst h)) (ps_response ps) ip)
           (\<lambda>ps3. Inr (True, ps3, rs\<lparr>ri_fw := fw\<rparr>)))"
      unfolding x(1) prod.case by (rule post_if post_any | simp add: x(2))+
  qed
qed

lemma handle_ip_good:
  assumes "router_good rs0 rs"
  shows "post (handled_good rs0) (handle_ip junk now rs ps f)"
  unfolding handle_ip_def Let_def
  by (rule post_if post_any[where m = "get_bytes _ _ _"] | simp add: assms split: ip_dest.split)+
    (auto intro: handle_local_good[OF assms] handle_forward_good[OF assms] post_rbind[OF run_pwospf_good[OF assms]])

lemma create_eth_hdr_good:
  assumes "router_good rs0 rs"
  shows "post (handled_good rs0) (create_eth_hdr now rs ps e)"
proof -
  have g: "post (\<lambda>a'. router_good rs0 (rs\<lparr>ri_arp := a'\<rparr>))
      (get_mac_address (ri_ifs rs) ((ri_arp rs)\<lparr>st_cache := c\<rparr>) nh b n nm 0 e)" for c nh b n nm
    using get_mac_address_good[of "ri_ifs rs" "(ri_arp rs)\<lparr>st_cache := c\<rparr>"] router_goodD(1,4)[OF assms] assms
    by (auto simp: post_def)
  have c: "router_good rs0 (rs\<lparr>ri_arp := (ri_arp rs)\<lparr>st_cache := c\<rparr>\<rparr>)" for c
    using assms router_goodD(4)[OF assms] by simp
  show ?thesis unfolding create_eth_hdr_def
    by (auto simp: assms c Let_def split: option.split prod.split
        intro!: post_any[where m = "put_eth _ _ _"] post_rbind[OF g])
qed

lemma send_response_good:
  assumes "router_good rs0 rs"
  shows "post (router_good rs0) (send_response rs ps nm)"
  unfolding send_response_def
  by (rule post_rbind[OF send_frames]) (use assms router_goodD[OF assms] in simp)

lemma handle_arp_frame_good:
  "post (\<lambda>(c, out). frames_ok ifs out) (handle_arp_frame ifs cache now blk f nm)"
  unfolding handle_arp_frame_def Let_def
  by (rule post_any) (auto split: prod.split intro!: post_rbind[OF send_frames])

lemma sr_handlepacket_good:
  assumes "router_good rs0 rs"
  shows "post (router_good rs0) (sr_handlepacket junk blk now rs f n nm)"
proof (cases "n < ETHER_HDR_LEN")
  case True
  then show ?thesis using assms by (simp add: sr_handlepacket_def)
next
  case False
  note n = this
  show ?thesis
  proof (cases "ether_type f = htons ETHERTYPE_IP")
    case True
    have s: "post (router_good rs0) (rbind (create_eth_hdr now rs1 ps1 e) (\<lambda>(ok2, ps2, rs2).
         if \<not> ok2 then Inr rs2
         else case out_interface ps2 of
                Some nm \<Rightarrow> send_response rs2 ps2 nm
              | None \<Rightarrow> if ps_ok_to_send ps2 then send_response rs2 ps2 nm else Inr rs2))"
      if "router_good rs0 rs1" for rs1 ps1 e
      by (rule post_rbind[OF create_eth_hdr_good[OF that]])
        (auto split: option.split intro: send_response_good)
    have "14 \<le> n" using n by (simp add: hdr_lens)
    show ?thesis unfolding handlepacket_ip[OF \<open>14 \<le> n\<close> True]
      by (rule post_rbind[OF handle_ip_good[OF assms]]) (auto intro: s)
  next
    case False
    then show ?thesis using n assms router_goodD[OF assms]
      by (auto simp: sr_handlepacket_def Let_def intro!: post_rbind[OF handle_arp_frame_good]
          arp_good_sent[of _ "_\<lparr>st_cache := _\<rparr>", simplified, THEN iffD2])
  qed
qed

section \<open>Runs of the router\<close>

text \<open>
  The router as \<^verbatim>\<open>sr_init\<close> and \<^verbatim>\<open>pwospf_init\<close> leave it, and what may happen next: a frame
  arrives, a thread of the ARP queue takes a step, the PWOSPF thread sends its HELLOs, expires the
  topology or sends its update. The contents of fresh blocks and the clock are arbitrary.
\<close>

definition booted :: "router_state \<Rightarrow> bool" where
  "booted rs \<longleftrightarrow> flow_table (ri_fw rs) = [] \<and> ft_size (ri_fw rs) = 0 \<and> ri_arp rs = arp_init \<and>
     (\<exists>junk junk_aid file now. pwospf_init (ri_ifs rs) junk junk_aid file now = Inr (ri_ospf rs))"

inductive router_run :: "router_state \<Rightarrow> router_state \<Rightarrow> bool" for rs0 where
  boot: "booted rs0 \<Longrightarrow> router_run rs0 rs0"
| packet: "router_run rs0 rs \<Longrightarrow> sr_handlepacket junk blk now rs f n nm = Inr rs' \<Longrightarrow> router_run rs0 rs'"
| arp_thread: "router_run rs0 rs \<Longrightarrow> t < length (st_threads (ri_arp rs)) \<Longrightarrow>
    thread_step (ri_ifs rs) blk now (ri_arp rs) t = Inr a \<Longrightarrow> router_run rs0 (rs\<lparr>ri_arp := a\<rparr>)"
| hello: "router_run rs0 rs \<Longrightarrow> ospf_send_hello (ri_ifs rs) (ri_ospf rs) (ri_arp rs) = Inr a \<Longrightarrow>
    router_run rs0 (rs\<lparr>ri_arp := a\<rparr>)"
| expire: "router_run rs0 rs \<Longrightarrow> ospf_check_top now (ri_ospf rs) = Inr os \<Longrightarrow> router_run rs0 (rs\<lparr>ri_ospf := os\<rparr>)"
| update: "router_run rs0 rs \<Longrightarrow> send_lsu (ri_ifs rs) (ri_rt rs) blk now (ri_ospf rs) (ri_arp rs) = Inr (os, a) \<Longrightarrow>
    router_run rs0 (rs\<lparr>ri_ospf := os, ri_arp := a\<rparr>)"

lemma booted_good:
  assumes "booted rs"
  shows "router_good rs rs"
proof -
  obtain junk junk_aid cfg now where i: "pwospf_init (ri_ifs rs) junk junk_aid cfg now = Inr (ri_ospf rs)"
    using assms by (auto simp: booted_def)
  then obtain zero where z: "sr_get_interface (ri_ifs rs) ''eth0'' = Some zero"
    by (cases "sr_get_interface (ri_ifs rs) ''eth0''") (auto simp: pwospf_init_def)
  then have o: "wf_topo (os_topo (ri_ospf rs))" "own_id (os_topo (ri_ospf rs)) = if_ip zero"
     "os_ifs (ri_ospf rs) = map pwospf_iface (ri_ifs rs)" "list_all wf_pif (os_ifs (ri_ospf rs))"
    using pwospf_init_ok[OF z, of junk junk_aid cfg now] i by (auto simp: own_id_def split: if_splits)
  have "ospf_good (ri_ifs rs) (ri_ospf rs)" using o(1,2,4) z by (simp add: ospf_good_def list_all_iff o(3) list_all2_same same_if_refl)
  moreover have "arp_good (ri_ifs rs) arp_init" by (simp add: arp_good_def arp_ok_def arp_init_def running_def)
  ultimately show ?thesis using assms
    by (simp add: router_good_def fw_good_def fw_ok_def booted_def MAX_FT_SIZE_def)
qed

lemma router_run_good: "router_run rs0 rs \<Longrightarrow> router_good rs0 rs"
proof (induction rule: router_run.induct)
  case (boot) then show ?case by (rule booted_good)
next
  case (packet rs junk blk now f n nm rs')
  then show ?case using sr_handlepacket_good[of rs0 rs junk blk now f n nm] by simp
next
  case (arp_thread rs t blk now a)
  then show ?case using thread_step_good[OF _ arp_thread(2), of "ri_ifs rs" blk now] router_goodD[OF arp_thread.IH]
    by simp
next
  case (hello rs a)
  have "post (arp_good (ri_ifs rs0)) (ospf_send_hello (ri_ifs rs) (ri_ospf rs) (ri_arp rs))"
    unfolding ospf_send_hello_def
    by (rule post_rbind[OF send_HELLO_frames]) (use router_goodD[OF hello.IH] in simp)
  then show ?case using hello by simp
next
  case (expire rs now os)
  note o = router_goodD(5)[OF expire.IH]
  have "post (ospf_good (ri_ifs rs0)) (ospf_check_top now (ri_ospf rs))"
    unfolding ospf_check_top_def
    by (rule post_rbind[OF check_top_good]) (use o ospf_good_topo[OF o] in \<open>auto simp: ospf_good_def\<close>)
  then show ?case using expire by (simp add: router_good_def)
next
  case (update rs blk now os a)
  then show ?case
    using send_lsu_good[of "ri_ifs rs0" "ri_arp rs" "ri_ospf rs" "ri_rt rs" blk now] router_goodD[OF update.IH]
    by (simp add: router_good_def)
qed

section \<open>HELLOs go out\<close>

lemma pwospf_iface_simps:
  "pif_name (pwospf_iface w) = strncpy_name (if_name w)" "pif_mac (pwospf_iface w) = take 6 (if_addr w)"
  by (simp_all add: pwospf_iface_def ETHER_ADDR_LEN_def)

lemma hello_out_ok:
  assumes "list_all2 same_if (map pwospf_iface vs) ws"
    and "\<forall>v \<in> set vs. length (if_addr v) = 6 \<and> length (if_name v) \<le> 32 \<and> sr_get_interface ifs (if_name v) = Some v"
  shows "\<exists>fs. hello_out ifs os ident ws = Inr fs \<and> map fst fs = map if_name vs \<and>
     list_all2 (\<lambda>w x. hello_packet os ident w = Inr (snd x)) ws fs"
  using assms
proof (induction vs arbitrary: ws)
  case (Cons v vs)
  then obtain w ws' where ws: "ws = w # ws'" "same_if (pwospf_iface v) w" "list_all2 same_if (map pwospf_iface vs) ws'"
    by (auto simp: list_all2_Cons1)
  obtain ns where w: "w = (pwospf_iface v)\<lparr>pif_neighbors := ns\<rparr>" using ws(2) unfolding same_if_def by blast
  have n: "pif_name w = if_name v" "pif_mac w = if_addr v" "length (pif_mac w) = 6"
    using Cons.prems(2) by (simp_all add: w pwospf_iface_simps sr_IFACE_NAMELEN_def)
  obtain oh c where p: "hello_packet os ident w = Inr ((replicate 6 0xFF @ pif_mac w @ [8, 0] @
       take 10 (ip_header 52 0 0) @ store16 (htons c) @ store32 (pif_address w) @ store32 (htonl OSPF_AllSPFRouters)) @
       oh @ store32 (htonl (pif_mask w)) @ store16 (htons 5) @ [0, 0])" "length oh = 24"
    using hello_packet_eq[OF n(3), of ident os] by blast
  define r where "r = [8, 0] @ take 10 (ip_header 52 0 0) @ store16 (htons c) @ store32 (pif_address w) @
     store32 (htonl OSPF_AllSPFRouters) @ oh @ store32 (htonl (pif_mask w)) @ store16 (htons 5) @ [0, 0]"
  have f: "hello_packet os ident w = Inr (replicate 6 0xFF @ if_addr v @ r)" "length r = 54"
    using p n(2) by (simp_all add: r_def)
  have "sr_send_packet ifs ((replicate 6 0xFF @ if_addr v @ r) @ []) 66 (if_name v) =
      Inr [(if_name v, replicate 6 0xFF @ if_addr v @ r)]"
    by (rule send_frame[OF _ _ _ refl]) (use Cons.prems(2) f(2) in simp_all)
  moreover obtain fs where "hello_out ifs os ident ws' = Inr fs" "map fst fs = map if_name vs"
     "list_all2 (\<lambda>w x. hello_packet os ident w = Inr (snd x)) ws' fs"
    using Cons.IH[OF ws(3)] Cons.prems(2) by auto
  ultimately show ?case using f(1) n(1) by (simp add: ws(1))
qed simp

lemma hellos_sent_ok:
  assumes "router_run rs0 rs"
    and "\<forall>v \<in> set (ri_ifs rs0). length (if_addr v) = 6 \<and> length (if_name v) \<le> 32 \<and>
           sr_get_interface (ri_ifs rs0) (if_name v) = Some v"
  shows "\<exists>zero fs. sr_get_interface (ri_ifs rs0) ''eth0'' = Some zero \<and>
     send_HELLO (ri_ifs rs) (ri_ospf rs) = Inr fs \<and> map fst fs = map if_name (ri_ifs rs0) \<and>
     list_all2 (\<lambda>w x. hello_packet (ri_ospf rs) (if_ip zero) w = Inr (snd x)) (os_ifs (ri_ospf rs)) fs"
proof -
  note G = router_goodD[OF router_run_good[OF assms(1)]]
  obtain zero where z: "sr_get_interface (ri_ifs rs0) ''eth0'' = Some zero"
      "own_id (os_topo (ri_ospf rs)) = if_ip zero" and wf: "wf_topo (os_topo (ri_ospf rs))"
      and l: "list_all2 same_if (map pwospf_iface (ri_ifs rs0)) (os_ifs (ri_ospf rs))"
    using G(5) by (auto simp: ospf_good_def)
  have "ri_ifs rs0 \<noteq> []" using z(1) by auto
  then have ne: "os_ifs (ri_ospf rs) \<noteq> []" using l by auto
  have "deref (os_topo (ri_ospf rs)) (this_router (os_topo (ri_ospf rs))) =
      Inr (rt (os_topo (ri_ospf rs)) (this_router (os_topo (ri_ospf rs))))"
    using wf wf_topoD(5)[OF wf] by simp
  then show ?thesis using hello_out_ok[OF l assms(2), of "ri_ospf rs" "if_ip zero"] z ne G(1)
    by (auto simp: send_HELLO_def own_id_def)
qed

text \<open>A booted router, its first HELLOs, and a request for its peer's MAC.\<close>

lemma booted_sample:
  "\<exists>rs0. booted rs0 \<and> ri_ifs rs0 = [sample_if, sample_if1]"
proof -
  have z: "sr_get_interface [sample_if, sample_if1] ''eth0'' = Some sample_if" by (simp add: sample_if_def)
  obtain os where "pwospf_init [sample_if, sample_if1] 0 0 None 100 = Inr os"
    using pwospf_init_ok[OF z, of 0 0 None 100] by auto
  then have "booted (sample_router\<lparr>ri_ospf := os\<rparr>)"
    by (auto simp: booted_def sample_router_def)
  then show ?thesis by (intro exI[of _ "sample_router\<lparr>ri_ospf := os\<rparr>"]) (simp add: sample_router_def)
qed

lemma sample_ifs_ok:
  "\<forall>v \<in> set [sample_if, sample_if1]. length (if_addr v) = 6 \<and> length (if_name v) \<le> 32 \<and>
     sr_get_interface [sample_if, sample_if1] (if_name v) = Some v"
  by (simp add: sample_if_def sample_if1_def strncmp_name_def sr_IFACE_NAMELEN_def)

lemma run_sample:
  "\<exists>rs0 rs. router_run rs0 rs \<and> ri_ifs rs0 = [sample_if, sample_if1] \<and>
     map fst (st_sent (ri_arp rs)) = [''eth0'', ''eth1'']"
proof -
  obtain rs0 where b: "booted rs0" "ri_ifs rs0 = [sample_if, sample_if1]" using booted_sample by blast
  have a: "st_sent (ri_arp rs0) = []" using b(1) by (simp add: booted_def arp_init_def)
  obtain fs where fs: "send_HELLO (ri_ifs rs0) (ri_ospf rs0) = Inr fs" "map fst fs = [''eth0'', ''eth1'']"
    using hellos_sent_ok[OF router_run.boot[OF b(1)]] sample_ifs_ok
    by (auto simp: b(2)) (simp add: sample_if_def sample_if1_def)
  then have "router_run rs0 (rs0\<lparr>ri_arp := (ri_arp rs0)\<lparr>st_sent := fs\<rparr>\<rparr>)"
    by (intro router_run.hello[OF router_run.boot[OF b(1)]]) (simp add: ospf_send_hello_def a)
  with b(2) fs(2) show ?thesis by force
qed

section \<open>What holds in every reachable state\<close>

text \<open>
  C2. The state of the running router. Whatever packets arrive, and however the packet handler, the ARP
  threads and the PWOSPF thread interleave: the interface list, the routing table, the rules and the
  interface categories stay as they were; the flow table has its recorded size, at most 30; there is
  one ARP entry per next hop; the topology database is well formed and this router is in it with the
  address of \<^verbatim>\<open>eth0\<close>; and the PWOSPF interfaces are those of the interface list, each with at most five
  neighbours.
\<close>
theorem router_run_state:
  assumes "router_run rs0 rs"
  shows "ri_ifs rs = ri_ifs rs0 \<and> ri_rt rs = ri_rt rs0 \<and> fw_config (ri_fw rs) = fw_config (ri_fw rs0) \<and>
     ft_size (ri_fw rs) = int (length (flow_table (ri_fw rs))) \<and> ft_size (ri_fw rs) \<le> 30 \<and>
     distinct (map q_ip (st_pending (ri_arp rs))) \<and>
     wf_topo (os_topo (ri_ospf rs)) \<and>
     (\<exists>w. sr_get_interface (ri_ifs rs0) ''eth0'' = Some w \<and> own_id (os_topo (ri_ospf rs)) = if_ip w) \<and>
     list_all wf_pif (os_ifs (ri_ospf rs)) \<and>
     list_all2 same_if (map pwospf_iface (ri_ifs rs0)) (os_ifs (ri_ospf rs))"
  using router_goodD[OF router_run_good[OF assms]]
  by (auto simp: fw_good_def fw_ok_def fw_limits ospf_good_def list_all_iff arp_good_def dest: arp_okD(1))

theorem router_run_state_witness:
  "\<exists>rs0 rs. router_run rs0 rs \<and> st_sent (ri_arp rs) \<noteq> [] \<and> wf_topo (os_topo (ri_ospf rs)) \<and>
     own_id (os_topo (ri_ospf rs)) = if_ip sample_if"
proof -
  obtain rs0 rs where r: "router_run rs0 rs" "ri_ifs rs0 = [sample_if, sample_if1]"
      "map fst (st_sent (ri_arp rs)) = [''eth0'', ''eth1'']" using run_sample by (elim exE conjE) (rule that)
  have "sr_get_interface [sample_if, sample_if1] ''eth0'' = Some sample_if" by (simp add: sample_if_def)
  with router_run_state[OF r(1)] r show ?thesis by (metis list.map_disc_iff list.distinct(1) option.inject)
qed

text \<open>
  C24. No forged sources. Every frame that the running router has ever handed to the virtual network,
  a forwarded packet, an answer, a HELLO, an update, an ARP message or an ICMP error, names an existing interface
  and carries its MAC as source.
\<close>
theorem router_run_sources:
  assumes "router_run rs0 rs" and "(nm, f) \<in> set (st_sent (ri_arp rs))"
  shows "14 \<le> length f \<and> (\<exists>w. sr_get_interface (ri_ifs rs0) nm = Some w \<and> ether_shost f = if_addr w)"
  using router_goodD(4)[OF router_run_good[OF assms(1)]] assms(2) by (auto simp: arp_good_def frames_ok_def)

theorem router_run_sources_witness:
  "\<exists>rs0 rs f. router_run rs0 rs \<and> (''eth1'', f) \<in> set (st_sent (ri_arp rs)) \<and> ether_shost f = if_addr sample_if1"
proof -
  obtain rs0 rs where r: "router_run rs0 rs" "ri_ifs rs0 = [sample_if, sample_if1]"
      "map fst (st_sent (ri_arp rs)) = [''eth0'', ''eth1'']" using run_sample by (elim exE conjE) (rule that)
  have "''eth1'' \<in> fst ` set (st_sent (ri_arp rs))" using r(3) by (metis list.set_intros set_map list.set_intros(2))
  then obtain f where f: "(''eth1'', f) \<in> set (st_sent (ri_arp rs))" by auto
  have "sr_get_interface [sample_if, sample_if1] ''eth1'' = Some sample_if1"
    by (simp add: sample_if_def sample_if1_def strncmp_name_def sr_IFACE_NAMELEN_def)
  with router_run_sources[OF r(1) f] r(1,2) f show ?thesis by auto
qed

text \<open>
  C22. HELLOs never fail. In every reachable state, a HELLO goes out of each interface once, in order,
  with the interface's address, mask and MAC and this router's identifier.
\<close>
theorem hellos_sent:
  assumes "router_run rs0 rs"
    and "\<forall>v \<in> set (ri_ifs rs0). length (if_addr v) = 6 \<and> length (if_name v) \<le> 32 \<and>
           sr_get_interface (ri_ifs rs0) (if_name v) = Some v"
  shows "\<exists>zero fs. sr_get_interface (ri_ifs rs0) ''eth0'' = Some zero \<and>
     send_HELLO (ri_ifs rs) (ri_ospf rs) = Inr fs \<and> map fst fs = map if_name (ri_ifs rs0) \<and>
     list_all2 (\<lambda>w x. hello_packet (ri_ospf rs) (if_ip zero) w = Inr (snd x)) (os_ifs (ri_ospf rs)) fs"
  by (rule hellos_sent_ok[OF assms])

theorem hellos_sent_witness:
  "\<exists>rs0 fs. booted rs0 \<and> send_HELLO (ri_ifs rs0) (ri_ospf rs0) = Inr fs \<and> map fst fs = [''eth0'', ''eth1'']"
proof -
  obtain rs0 where b: "booted rs0" "ri_ifs rs0 = [sample_if, sample_if1]" using booted_sample by blast
  have "map if_name [sample_if, sample_if1] = [''eth0'', ''eth1'']" by (simp add: sample_if_def sample_if1_def)
  with hellos_sent[OF router_run.boot[OF b(1)]] sample_ifs_ok b show ?thesis by metis
qed

end
