(* ===== verification/Routes.thy ===== *)
theory Routes
  imports System
begin

text \<open>
  From an update to a route: merging, shortest paths, forwarding table and lookup together. The
  table that an update leaves sends a packet towards a nearest router that advertises the longest
  prefix of all that the routers ahead of the first unreachable one advertise.
\<close>

section \<open>Tables for real prefixes\<close>

definition prefix_of :: "nat \<Rightarrow> route \<Rightarrow> bool" where
  "prefix_of n sub \<longleftrightarrow> n \<le> 32 \<and> rmask sub = netmask n \<and> rmask sub AND prefix sub = prefix sub"

lemma walk_same_links:
  assumes "same_links s s'"
  shows "walk s' n a = walk s n a"
  by (induction n arbitrary: a) (simp_all add: same_links_fields[OF assms])

lemma netmask_inj: "m \<le> 32 \<Longrightarrow> n \<le> 32 \<Longrightarrow> netmask m = netmask n \<Longrightarrow> m = n"
  using netmask_less[of m n] netmask_less[of n m] by (cases m n rule: linorder_cases) auto

text \<open>Every advertised prefix is in the table, and every entry is the best for what it stands for.\<close>

lemma best_entry:
  assumes "best s ifs A ft" "e \<in> set ft"
  shows "\<exists>(a, sub) \<in> A. justified s ifs e a sub"
    and "(a, sub) \<in> A \<Longrightarrow> skey sub = ekey e \<Longrightarrow> ft_num_hops e \<le> dist (rt s a)"
proof -
  have "ftable_contains ft (ekey e) = Some e"
  proof (cases "ftable_contains ft (ekey e)")
    case None
    then show ?thesis using assms(2) by (auto simp: ftable_contains_None)
  next
    case (Some d)
    then have "d \<in> set ft" "ekey d = ekey e"
      using ftable_contains_key[OF Some] ftab.lookup_Some[OF Some] by simp_all
    then show ?thesis using Some assms by (auto simp: best_def distinct_map dest: inj_onD)
  qed
  then have "best_at s ifs A (ekey e) (Some e)" using assms(1) unfolding best_def by metis
  then show "\<exists>(a, sub) \<in> A. justified s ifs e a sub"
    and "(a, sub) \<in> A \<Longrightarrow> skey sub = ekey e \<Longrightarrow> ft_num_hops e \<le> dist (rt s a)"
    by (auto simp: best_at_def)
qed

lemma best_present:
  assumes "best s ifs A ft" "(a, sub) \<in> A"
  shows "\<exists>e \<in> set ft. ekey e = skey sub"
proof (cases "ftable_contains ft (skey sub)")
  case None
  then have "best_at s ifs A (skey sub) None" using assms(1) unfolding best_def by metis
  then show ?thesis using assms(2) by (auto simp: best_at_def)
next
  case (Some e)
  then show ?thesis using ftable_contains_key[OF Some] ftab.lookup_Some[OF Some] by blast
qed

definition ahead :: "topo \<Rightarrow> nat list" where
  "ahead s = takeWhile (\<lambda>a. 0 \<le> dist (rt s a)) (network s)"

text \<open>What a recomputation after an update leaves: the distances, and the table that is best for what is ahead.\<close>

lemma recomputed_best:
  assumes "wf_topo s" "add_to_top s ifs now host advs = Inr (s', ft)"
    and own: "\<forall>sub \<in> set (subnets (rt s' (this_router s'))). get_subnet_if ifs sub \<noteq> None"
  shows "best s' ifs (advertised s' (ahead s')) ft"
    and "a \<in> set (network s') \<Longrightarrow> walk s' j a \<Longrightarrow> dist (rt s' a) \<le> int j"
    and "a \<in> set (network s') \<Longrightarrow> 0 \<le> dist (rt s' a) \<Longrightarrow> walk s' (nat (dist (rt s' a))) a"
proof -
  obtain s1 where s1: "merge_lsu s now host advs = Inr s1" "recompute s1 ifs = Inr (s', ft)"
    using assms(2) by (auto simp: add_to_top_def rbind_eq_Inr)
  have wf1: "wf_topo s1" using merge_lsu_ok[OF assms(1), of now host advs] s1(1) by (auto simp: evolves_def)
  obtain x where d: "dijkstra s1 = Inr s'" and u: "update_ftable s' ifs = Inr (x, ft)"
    using s1(2) by (auto simp: recompute_def rbind_eq_Inr)
  show "best s' ifs (advertised s' (ahead s')) ft"
    using ftable_walk_ok[OF wf1 d own subset_refl best_empty] u by (auto simp: update_ftable_def ahead_def)
  show "a \<in> set (network s') \<Longrightarrow> walk s' j a \<Longrightarrow> dist (rt s' a) \<le> int j"
    and "a \<in> set (network s') \<Longrightarrow> 0 \<le> dist (rt s' a) \<Longrightarrow> walk s' (nat (dist (rt s' a))) a"
    using dijkstra_ok[OF wf1] d by (auto simp: walk_same_links same_links_fields)
qed

text \<open>In a best table for prefixes the lookup finds the entry of the longest of them that covers the destination.\<close>

lemma best_longest:
  assumes b: "best s ifs A ft" and pfx: "\<forall>(a, sub) \<in> A. \<exists>n. prefix_of n sub"
    and look: "get_dyn_routing_if ft ip = Some e"
  shows "\<exists>a sub n. (a, sub) \<in> A \<and> prefix_of n sub \<and> same_prefix n ip (prefix sub) \<and> e \<in> set ft \<and> justified s ifs e a sub \<and>
     (\<forall>(c, t) \<in> A. \<forall>m. prefix_of m t \<and> same_prefix m ip (prefix t) \<longrightarrow> m \<le> n \<and> (m = n \<longrightarrow> skey t = ekey e))"
proof -
  define len where "len d = (THE n. n \<le> 32 \<and> ft_mask d = netmask n)" for d :: ftable_entry
  have len: "len d = n" if "n \<le> 32" "ft_mask d = netmask n" for d :: ftable_entry and n
    unfolding len_def by (rule the_equality) (use that netmask_inj in auto)
  have ent: "\<exists>a sub n. (a, sub) \<in> A \<and> prefix_of n sub \<and> justified s ifs d a sub \<and> len d = n \<and> n \<le> 32 \<and>
      ft_mask d = netmask n \<and> ft_prefix d = prefix sub \<and> ft_mask d AND ft_prefix d = ft_prefix d"
    if d: "d \<in> set ft" for d :: ftable_entry
  proof -
    obtain a sub where a: "(a, sub) \<in> A" "justified s ifs d a sub" using best_entry(1)[OF b d] by auto
    obtain n where n: "prefix_of n sub" using pfx a(1) by blast
    have "ft_prefix d = prefix sub" "ft_mask d = rmask sub" using a(2) by (auto simp: justified_def skey_def ekey_def)
    then show ?thesis using a n len[of n d] unfolding prefix_of_def by metis
  qed
  have lp: "e \<in> set ft \<and> same_prefix (len e) ip (ft_prefix e) \<and>
      (\<forall>d \<in> set ft. same_prefix (len d) ip (ft_prefix d) \<longrightarrow> len d \<le> len e)"
  proof (rule dyn.longest_prefix)
    show "dyn_walk ft ip 0 None = Some e" using look by (simp add: get_dyn_routing_if_def)
    show "len d \<le> 32 \<and> ft_mask d = netmask (len d)" "ft_mask d AND ft_prefix d = ft_prefix d" if "d \<in> set ft" for d :: ftable_entry
      using ent[OF that] by metis+
  qed
  then obtain a sub n where a: "(a, sub) \<in> A" "prefix_of n sub" "justified s ifs e a sub" "len e = n" "n \<le> 32"
      "ft_mask e = netmask n" "ft_prefix e = prefix sub"
    using ent by blast
  have "m \<le> n \<and> (m = n \<longrightarrow> skey t = ekey e)"
    if c: "(c, t) \<in> A" "prefix_of m t" "same_prefix m ip (prefix t)" for c t m
  proof -
    obtain d where d: "d \<in> set ft" "ekey d = skey t" using best_present[OF b c(1)] by blast
    then have m: "len d = m" "ft_prefix d = prefix t" using c(2) len by (auto simp: prefix_of_def ekey_def skey_def)
    have "skey t = ekey e" if mn: "m = n"
    proof -
      have "same_prefix n (prefix t) (prefix sub)" using c(3) lp a(4,7) mn by (simp add: same_prefix_def)
      then have "netmask n AND prefix t = netmask n AND prefix sub" using netmask_and_eq[OF a(5)] by simp
      then show ?thesis using c(2) a(2,6,7) mn by (auto simp: prefix_of_def skey_def ekey_def)
    qed
    then show ?thesis using lp d(1) c(3) a(4) m by auto
  qed
  moreover have "same_prefix n ip (prefix sub)" using lp a(4,7) by simp
  ultimately show ?thesis using a(1-3) lp by blast
qed

text \<open>
  An entry leads where the protocol means it to: to a nearest router that advertises the longest prefix that covers the
  destination, among the routers ahead of the first unreachable one, over the interface of that subnet when it is this
  router's own, otherwise to the neighbour that \<^verbatim>\<open>find_next_hop\<close> names on the way there.
\<close>

definition leads_nearest :: "topo \<Rightarrow> pwospf_if list \<Rightarrow> u32 \<Rightarrow> ftable_entry \<Rightarrow> bool" where
  "leads_nearest s ifs ip e \<longleftrightarrow>
   (\<exists>a \<in> set (ahead s). \<exists>sub \<in> set (subnets (rt s a)). \<exists>n k.
     prefix_of n sub \<and> same_prefix n ip (prefix sub) \<and> walk s k a \<and> ft_num_hops e = int k \<and>
     (if a = this_router s then \<exists>w. get_subnet_if ifs sub = Some w \<and> ft_interface e = pif_name w
      else \<exists>c. find_next_hop s a = Inr (Some c, int k) \<and>
             (ft_interface e, ft_next_hop e) = next_hop_of ifs (rid (rt s c))) \<and>
     (\<forall>b \<in> set (ahead s). \<forall>t \<in> set (subnets (rt s b)). \<forall>m. prefix_of m t \<and> same_prefix m ip (prefix t) \<longrightarrow>
        m \<le> n \<and> (m = n \<longrightarrow> (\<forall>j. walk s j b \<longrightarrow> k \<le> j))))"

lemma best_leads:
  assumes b: "best s' ifs (advertised s' (ahead s')) ft"
    and d: "\<And>a j. a \<in> set (network s') \<Longrightarrow> walk s' j a \<Longrightarrow> dist (rt s' a) \<le> int j"
    and w: "\<And>a. a \<in> set (network s') \<Longrightarrow> 0 \<le> dist (rt s' a) \<Longrightarrow> walk s' (nat (dist (rt s' a))) a"
    and pfx: "\<forall>a \<in> set (network s'). \<forall>sub \<in> set (subnets (rt s' a)). \<exists>n. prefix_of n sub"
    and look: "get_dyn_routing_if ft ip = Some e"
  shows "leads_nearest s' ifs ip e"
proof -
  have ah: "a \<in> set (network s')" "0 \<le> dist (rt s' a)" if "a \<in> set (ahead s')" for a
    using that by (auto simp: ahead_def dest: set_takeWhileD)
  have "\<forall>(a, sub) \<in> advertised s' (ahead s'). \<exists>n. prefix_of n sub" using pfx ah(1) by (auto simp: advertised_def)
  from best_longest[OF b this look] obtain a sub n where a: "a \<in> set (ahead s')" "sub \<in> set (subnets (rt s' a))"
      "prefix_of n sub" "same_prefix n ip (prefix sub)" "e \<in> set ft" "justified s' ifs e a sub"
    and far: "\<And>c t m. c \<in> set (ahead s') \<Longrightarrow> t \<in> set (subnets (rt s' c)) \<Longrightarrow> prefix_of m t \<Longrightarrow> same_prefix m ip (prefix t) \<Longrightarrow>
      m \<le> n \<and> (m = n \<longrightarrow> skey t = ekey e)"
    by (auto simp: advertised_def)
  let ?k = "nat (dist (rt s' a))"
  have k: "walk s' ?k a" "ft_num_hops e = int ?k" "int ?k = dist (rt s' a)"
    using w[OF ah[OF a(1)]] ah(2)[OF a(1)] a(6) by (auto simp: justified_def)
  have near: "?k \<le> j" if "c \<in> set (ahead s')" "t \<in> set (subnets (rt s' c))" "skey t = ekey e" "walk s' j c" for c t j
  proof -
    have "(c, t) \<in> advertised s' (ahead s')" using that(1,2) by (auto simp: advertised_def)
    with best_entry(2)[OF b a(5)] that(3) have "ft_num_hops e \<le> dist (rt s' c)" by blast
    with d[OF ah(1)[OF that(1)] that(4)] k(2) show ?thesis by linarith
  qed
  have "if a = this_router s' then \<exists>w. get_subnet_if ifs sub = Some w \<and> ft_interface e = pif_name w
      else \<exists>c. find_next_hop s' a = Inr (Some c, int ?k) \<and>
             (ft_interface e, ft_next_hop e) = next_hop_of ifs (rid (rt s' c))"
    using a(6) k(3) by (auto simp: justified_def split: if_splits)
  moreover have "m \<le> n \<and> (m = n \<longrightarrow> (\<forall>j. walk s' j c \<longrightarrow> ?k \<le> j))"
    if "c \<in> set (ahead s')" "t \<in> set (subnets (rt s' c))" "prefix_of m t \<and> same_prefix m ip (prefix t)" for c t m
    using far[OF that(1,2)] near[OF that(1,2)] that(3) by blast
  ultimately show ?thesis using a(1-4) k(1,2) unfolding leads_nearest_def by blast
qed

text \<open>
  C3. After an update has been merged and the table recomputed, whatever entry get_dyn_routing_if
  finds for a destination leads to a nearest router that advertises the longest prefix covering it,
  among the routers ahead of the first unreachable one: over the interface of that subnet when it is
  this router's own, otherwise to the neighbour that find_next_hop names on the way there.
\<close>
theorem update_routes:
  assumes "wf_topo s" and "add_to_top s ifs now host advs = Inr (s', ft)"
    and own: "\<forall>sub \<in> set (subnets (rt s' (this_router s'))). get_subnet_if ifs sub \<noteq> None"
    and pfx: "\<forall>a \<in> set (network s'). \<forall>sub \<in> set (subnets (rt s' a)). \<exists>n. prefix_of n sub"
    and look: "get_dyn_routing_if ft ip = Some e"
  shows "\<exists>a \<in> set (ahead s'). \<exists>sub \<in> set (subnets (rt s' a)). \<exists>n k.
     prefix_of n sub \<and> same_prefix n ip (prefix sub) \<and> walk s' k a \<and> ft_num_hops e = int k \<and>
     (if a = this_router s' then \<exists>w. get_subnet_if ifs sub = Some w \<and> ft_interface e = pif_name w
      else \<exists>c. find_next_hop s' a = Inr (Some c, int k) \<and>
             (ft_interface e, ft_next_hop e) = next_hop_of ifs (rid (rt s' c))) \<and>
     (\<forall>b \<in> set (ahead s'). \<forall>t \<in> set (subnets (rt s' b)). \<forall>m. prefix_of m t \<and> same_prefix m ip (prefix t) \<longrightarrow>
        m \<le> n \<and> (m = n \<longrightarrow> (\<forall>j. walk s' j b \<longrightarrow> k \<le> j)))"
  using best_leads[OF recomputed_best[OF assms(1,2) own] pfx look] unfolding leads_nearest_def .

section \<open>Two routers and a stub network\<close>

text \<open>
  Router 1 has a neighbour, router 2, on \<^verbatim>\<open>eth0\<close>. An update of router 2 advertises the link
  between them and a stub network of its own.
\<close>

definition link_net :: "u32 \<Rightarrow> u32 \<Rightarrow> route" where
  "link_net hop ident = \<lparr>prefix = load32 10 0 0 2, rmask = netmask 31, rnext_hop = hop, r_id = ident, from_lsu = 0\<rparr>"

definition stub_net :: route where
  "stub_net = \<lparr>prefix = load32 10 0 9 0, rmask = netmask 24, rnext_hop = 0, r_id = 0, from_lsu = 0\<rparr>"

definition home :: topo where
  "home = \<lparr>store = [Some ((new_router 0 1)\<lparr>subnets := [link_net (load32 10 0 0 3) 2]\<rparr>)],
     network = [0], this_router = 0, init_time = 90\<rparr>"

definition home_ifs :: "pwospf_if list" where
  "home_ifs = [link_if ''eth0'' (load32 10 0 0 2) [\<lparr>nb_id = 2, nb_ip = load32 10 0 0 3, nb_timenotvalid = 120\<rparr>]]"

definition joined :: topo where
  "joined = \<lparr>store =
      [Some ((new_router 0 1)\<lparr>subnets := [link_net (load32 10 0 0 3) 2], adjacencies := [1], known := True, dist := 0\<rparr>),
       Some ((new_router 50 2)\<lparr>subnets := [link_net 0 1, stub_net], adjacencies := [0], known := True, dist := 1,
         prev := Some 0\<rparr>)],
     network = [0, 1], this_router = 0, init_time = 90\<rparr>"

definition stub_entry :: ftable_entry where
  "stub_entry = \<lparr>ft_prefix = load32 10 0 9 0, ft_mask = netmask 24, ft_next_hop = load32 10 0 0 3,
     ft_interface = ''eth0'', ft_num_hops = 1\<rparr>"

definition joined_table :: "ftable_entry list" where
  "joined_table =
     [\<lparr>ft_prefix = load32 10 0 0 2, ft_mask = netmask 31, ft_next_hop = load32 10 0 0 3,
       ft_interface = ''eth0'', ft_num_hops = 0\<rparr>, stub_entry]"

lemma home_joined: "add_to_top home home_ifs 50 2 [link_net 0 1, stub_net] = Inr (joined, joined_table)"
  by code_simp

lemma joined_lookup: "get_dyn_routing_if joined_table (load32 10 0 9 7) = Some stub_entry"
  by code_simp

lemma example_prefixes: "prefix_of 31 (link_net h i)" "prefix_of 24 stub_net"
proof -
  have "netmask 31 AND load32 10 0 0 2 = load32 10 0 0 2" "netmask 24 AND load32 10 0 9 0 = load32 10 0 9 0"
    by code_simp+
  then show "prefix_of 31 (link_net h i)" "prefix_of 24 stub_net"
    by (simp_all add: prefix_of_def link_net_def stub_net_def)
qed

lemma wf_home: "wf_topo home"
  by (simp add: home_def link_net_def wf_topo_def alive_def rt_def wf_router_def new_router_def topo_consts)

lemma joined_simps:
  "network joined = [0, 1]" "this_router joined = 0"
  "subnets (rt joined 0) = [link_net (load32 10 0 0 3) 2]" "subnets (rt joined (Suc 0)) = [link_net 0 1, stub_net]"
  by (simp_all add: joined_def rt_def new_router_def)

lemma joined_own: "get_subnet_if home_ifs (link_net (load32 10 0 0 3) 2) \<noteq> None"
  by code_simp

theorem update_routes_witness:
  "\<exists>a n k. \<exists>sub \<in> set (subnets (rt joined a)). prefix_of n sub \<and>
     same_prefix n (load32 10 0 9 7) (prefix sub) \<and> walk joined k a \<and> ft_num_hops stub_entry = int k"
proof -
  have own: "\<forall>sub \<in> set (subnets (rt joined (this_router joined))). get_subnet_if home_ifs sub \<noteq> None"
    using joined_own by (simp add: joined_simps)
  have "\<exists>n. prefix_of n (link_net h i)" "\<exists>n. prefix_of n stub_net" for h i
    using example_prefixes by blast+
  then have "\<forall>a \<in> set (network joined). \<forall>sub \<in> set (subnets (rt joined a)). \<exists>n. prefix_of n sub"
    by (simp add: joined_simps)
  from update_routes[OF wf_home home_joined own this joined_lookup] show ?thesis by blast
qed

section \<open>From an update on the wire to the routes\<close>

text \<open>Recording the number of an update changes nothing that a route depends on.\<close>

lemma deref_numbered:
  assumes "deref s a = Inr r"
  shows "deref (set_rt s a (r\<lparr>last_seq := q\<rparr>)) p = rbind (deref s p) (\<lambda>x. Inr (if p = a then x\<lparr>last_seq := q\<rparr> else x))"
  using assms by (auto simp: deref_def set_rt_def nth_list_update split: option.splits if_splits)

lemma find_next_hop_numbered:
  assumes "deref s a = Inr r"
  shows "find_next_hop (set_rt s a (r\<lparr>last_seq := q\<rparr>)) d = find_next_hop s d"
proof -
  let ?s = "set_rt s a (r\<lparr>last_seq := q\<rparr>)"
  have f: "(if p = a then x\<lparr>last_seq := q\<rparr> else x) = x\<lparr>last_seq := (if p = a then q else last_seq x)\<rparr>" for p and x :: router
    by simp
  have "hop_walk ?s k c n = hop_walk s k c n" for k c n
    by (induction k arbitrary: c n) (simp_all add: deref_numbered[OF assms] f rbind_assoc cong: option.case_cong if_cong)
  then show ?thesis by (simp add: find_next_hop_def deref_numbered[OF assms] f rbind_assoc cong: if_cong del: hop_walk.simps)
qed

lemma rt_numbered:
  assumes "alive s a"
  shows "subnets (rt (set_rt s a ((rt s a)\<lparr>last_seq := q\<rparr>)) b) = subnets (rt s b)"
    "adjacencies (rt (set_rt s a ((rt s a)\<lparr>last_seq := q\<rparr>)) b) = adjacencies (rt s b)"
    "dist (rt (set_rt s a ((rt s a)\<lparr>last_seq := q\<rparr>)) b) = dist (rt s b)"
    "rid (rt (set_rt s a ((rt s a)\<lparr>last_seq := q\<rparr>)) b) = rid (rt s b)"
  by (simp_all add: rt_set_rt[OF assms])

lemma leads_numbered:
  assumes "alive s a" "leads_nearest s ifs ip e"
  shows "leads_nearest (set_rt s a ((rt s a)\<lparr>last_seq := q\<rparr>)) ifs ip e"
proof -
  let ?s = "set_rt s a ((rt s a)\<lparr>last_seq := q\<rparr>)"
  note d = deref_alive[OF assms(1)]
  have n: "network ?s = network s" "this_router ?s = this_router s" by (simp_all add: set_rt_def)
  have a: "ahead ?s = ahead s" by (simp add: ahead_def n rt_numbered[OF assms(1)])
  have w: "walk ?s k b = walk s k b" for k b
    by (induction k arbitrary: b) (simp_all add: n rt_numbered[OF assms(1)])
  show ?thesis
    using assms(2)
    unfolding leads_nearest_def n a w rt_numbered[OF assms(1)] find_next_hop_numbered[OF d] .
qed

lemma set_sequence_same:
  assumes "wf_topo s" "set_sequence ident q s = Inr s'"
  shows "network s' = network s" "this_router s' = this_router s" "subnets (rt s' b) = subnets (rt s b)"
    "leads_nearest s ifs ip e \<Longrightarrow> leads_nearest s' ifs ip e"
proof -
  have "network s' = network s \<and> this_router s' = this_router s \<and> subnets (rt s' b) = subnets (rt s b) \<and>
    (leads_nearest s ifs ip e \<longrightarrow> leads_nearest s' ifs ip e)"
  proof (cases "find (\<lambda>a. rid (rt s a) = ident) (network s)")
    case None
    with assms show ?thesis by (simp add: set_sequence_def adj_list_contains_wf)
  next
    case (Some a)
    then have "a \<in> set (network s)" by (auto dest: find_SomeD)
    then have a: "alive s a" by (rule wf_topoD(2)[OF assms(1)])
    from deref_alive[OF a] Some assms have "s' = set_rt s a ((rt s a)\<lparr>last_seq := q\<rparr>)"
      by (simp add: set_sequence_def adj_list_contains_wf)
    with leads_numbered[OF a] rt_numbered[OF a] show ?thesis by simp
  qed
  then show "network s' = network s" "this_router s' = this_router s" "subnets (rt s' b) = subnets (rt s b)"
    "leads_nearest s ifs ip e \<Longrightarrow> leads_nearest s' ifs ip e"
    by simp_all
qed

lemma field32_same:
  "take 4 (drop k f') = take 4 (drop k f) \<Longrightarrow> length f' = length f \<Longrightarrow> field32 k f' = field32 k f"
  by (simp add: field32_def get_bytes_def)

text \<open>An update is not sent back to where it came from: with no other neighbours nothing is sent.\<close>

lemma forward_on_if_back:
  "\<forall>n \<in> set (pif_neighbors w). nb_ip n = src \<Longrightarrow> forward_on_if ifs now len src w s = Inr s"
proof -
  have "\<forall>n \<in> set ns. nb_ip n = src \<Longrightarrow> foldr_res (\<lambda>n (f, a). if nb_ip n = src then Inr (f, a) else g n f a) ns s = Inr s"
    for ns g by (induction ns) (auto split: prod.splits)
  then show "\<forall>n \<in> set (pif_neighbors w). nb_ip n = src \<Longrightarrow> forward_on_if ifs now len src w s = Inr s"
    by (simp add: forward_on_if_def)
qed

lemma forward_lsu_back:
  assumes f: "66 \<le> length f" "field8 22 f = Inr ttl" "ttl \<noteq> 0" "field32 26 f = Inr src"
    and only: "\<forall>w \<in> set wifs. \<forall>n \<in> set (pif_neighbors w). nb_ip n = src"
  shows "forward_lsu ifs wifs now ps f a = Inr a"
proof -
  note [simp del] = put_bytes_ok get_bytes_ok
  obtain f1 where 1: "put_bytes 22 [ttl - 1] f = Inr f1" using f(1) by (simp add: put_bytes_def)
  then have l1: "length f1 = length f" by (rule length_put)
  obtain x where x: "field8 61 f1 = Inr x" using f(1) l1 by (simp add: field8_def get_bytes_def)
  obtain f2 where 2: "put_bytes 61 [x - 1] f1 = Inr f2" using f(1) l1 by (simp add: put_bytes_def)
  then have l2: "length f2 = length f" using l1 length_put by simp
  obtain f3 where 3: "put_bytes 46 (store16 0) f2 = Inr f3" using f(1) l2 by (simp add: put_bytes_def)
  then have l3: "length f3 = length f" using l2 length_put by simp
  obtain n where n: "field16 36 f3 = Inr n" using f(1) l3 by (simp add: field16_def get_bytes_def)
  have "16 \<le> length (drop 34 f3)" using f(1) l3 by simp
  then obtain c where c: "cksum (drop 34 f3) 16 = Inr c" using cksum_total[of 16 "drop 34 f3"] by auto
  obtain f4 where 4: "put_bytes 46 (store16 (htons c)) f3 = Inr f4" using f(1) l3 by (simp add: put_bytes_def)
  then have l4: "length f4 = length f" using l3 length_put by simp
  have "take 4 (drop 26 f4) = take 4 (drop 26 f)"
    using put_before[OF 4, of 26 4] put_before[OF 3, of 26 4] put_before[OF 2, of 26 4] put_after[OF 1, of 26] by (simp)
  then have src: "field32 26 f4 = Inr src" using f(4) l4 field32_same by metis
  have "foldr_res (forward_on_if ifs now len src) wifs s = Inr s" for len s
    using only by (induction wifs) (simp_all add: forward_on_if_back)
  moreover have "\<not> ttl < 1" using f(3) by (simp add: word_less_1)
  ultimately show ?thesis
    using f(2) 1 x 2 3 n c 4 src by (simp add: forward_lsu_def OSPF_HDR_LEN_def Let_def)
qed

text \<open>
  C4. From an update on the wire to a route. When the frame of an update that another router of the area has built arrives,
  is neither the receiver's own nor a repetition, and \<^verbatim>\<open>sr_handlepacket\<close> handles it, then from
  now on the packet handler sends a packet to a destination in the table over the interface and to the next hop of an entry that leads to a
  nearest router advertising the longest prefix that covers the destination.
\<close>

theorem lsu_routes:
  assumes frame: "rbind (build_lsu blkA rts osA me seq) (address_frame src dst mac) = Inr f"
      "14 \<le> length blkA" "length mac = 6" "length (advertised_keys me rts) < 2 ^ 32"
    and area: "os_area (ri_ospf rs) = os_area osA" "os_autype (ri_ospf rs) = 0" "wf_topo (os_topo (ri_ospf rs))"
      "find_dest (ri_ifs rs) dst = Local w"
    and new: "rid me \<noteq> rid (rt (os_topo (ri_ospf rs)) (this_router (os_topo (ri_ospf rs))))"
      "get_sequence (rid me) (os_topo (ri_ospf rs)) \<noteq> Inr (htons seq)"
    and handled: "sr_handlepacket junk blk now rs f (length f) iface = Inr rs'"
    and own: "\<forall>sub \<in> set (subnets (rt (os_topo (ri_ospf rs')) (this_router (os_topo (ri_ospf rs'))))).
      get_subnet_if (os_ifs (ri_ospf rs)) sub \<noteq> None"
    and pfx: "\<forall>a \<in> set (network (os_topo (ri_ospf rs'))). \<forall>sub \<in> set (subnets (rt (os_topo (ri_ospf rs')) a)). \<exists>n. prefix_of n sub"
    and look: "get_dyn_routing_if (os_ftable (ri_ospf rs')) ip = Some e"
  shows "leads_nearest (os_topo (ri_ospf rs')) (os_ifs (ri_ospf rs)) ip e \<and>
    route_of rs' ip = Some (ft_interface e, ft_next_hop e)"
proof -
  let ?os = "ri_ospf rs" and ?ps = "received f (length f) iface blk"
  have "run_pwospf junk now ?ps f rs = Inr rs'"
    using lsu_to_pwospf[OF frame(1,2,3) area(4)] handled by simp
  moreover obtain f' where "handle_pwospf (ri_ifs rs) junk now ?ps f ?os (ri_arp rs) =
      rbind (add_to_top (os_topo ?os) (os_ifs ?os) now (rid me) (advs_of junk (advertised_keys me rts))) (\<lambda>(s1, ft).
      rbind (set_sequence (rid me) (htons seq) s1) (\<lambda>s2.
      rbind (forward_lsu (ri_ifs rs) (os_ifs ?os) now ?ps f' (ri_arp rs)) (\<lambda>a'.
        Inr (?os\<lparr>os_topo := s2, os_ftable := ft\<rparr>, a'))))"
    using lsu_exchange[OF frame(2-4) area(1-3), where seq = seq and src = src and dst = dst and ifs = "ri_ifs rs"
        and junk = junk and now = now and ps = ?ps and a = "ri_arp rs"] frame(1) new by auto
  ultimately obtain s1 ft s2 where s: "add_to_top (os_topo ?os) (os_ifs ?os) now (rid me)
        (advs_of junk (advertised_keys me rts)) = Inr (s1, ft)" "set_sequence (rid me) (htons seq) s1 = Inr s2"
      "os_topo (ri_ospf rs') = s2" "os_ftable (ri_ospf rs') = ft"
    by (auto simp: run_pwospf_def rbind_eq_Inr)
  have wf: "wf_topo s1"
    using add_to_top_good[OF area(3), of "os_ifs ?os" now "rid me" "advs_of junk (advertised_keys me rts)"] s(1)
    by (simp add: keeps_id_def)
  note same = set_sequence_same[OF wf s(2)]
  have "leads_nearest s2 (os_ifs ?os) ip e"
    by (rule same(4), rule best_leads[OF recomputed_best[OF area(3) s(1)]])
      (use own pfx look in \<open>simp_all add: s(3,4) same(1-3)\<close>)
  then show ?thesis using look by (simp add: s(3) route_of_def)
qed

definition far_router :: router where
  "far_router = (new_router 0 2)\<lparr>subnets := [link_net 0 1, stub_net]\<rparr>"

definition home_router :: router_state where
  "home_router = sample_router\<lparr>ri_ifs := [sample_if\<lparr>if_ip := load32 10 0 0 2\<rparr>],
     ri_ospf := (on_link 1 home_ifs)\<lparr>os_topo := home\<rparr>\<rparr>"

lemma far_keys:
  "advs_of (\<lambda>_. (0, 0)) (advertised_keys far_router []) = [link_net 0 1, stub_net]" "rid far_router = 2"
  by (simp_all add: far_router_def advertised_keys_def adv_key_def link_net_def stub_net_def new_router_def)

lemma home_fields:
  "os_topo (ri_ospf home_router) = home" "os_ifs (ri_ospf home_router) = home_ifs" "os_autype (ri_ospf home_router) = 0"
  "os_area (ri_ospf home_router) = os_area (on_link 2 [])"
  by (simp_all add: home_router_def on_link_def)

lemma home_facts:
  "length (advertised_keys far_router []) < 2 ^ 32"
  "os_area (ri_ospf home_router) = os_area (on_link 2 [])" "os_autype (ri_ospf home_router) = 0"
  "wf_topo (os_topo (ri_ospf home_router))"
  "find_dest (ri_ifs home_router) (load32 10 0 0 2) = Local (sample_if\<lparr>if_ip := load32 10 0 0 2\<rparr>)"
  using wf_home by (simp_all add: home_fields far_router_def advertised_keys_def) (simp add: home_router_def)

lemma far_is_new:
  "rid far_router \<noteq> rid (rt home (this_router home))" "get_sequence (rid far_router) home = Inr 0" "0 \<noteq> htons 4"
  by (simp add: far_keys home_def rt_def new_router_def) (code_simp, code_simp)

lemma joined_wf: "wf_topo joined"
  using add_to_top_good[OF wf_home, of home_ifs 50 2 "[link_net 0 1, stub_net]"] home_joined by (simp add: keeps_id_def)

text \<open>The update arrives: it is handled, and nobody is left to pass it on to.\<close>

lemma home_handles:
  obtains f rs' s2 where "rbind (build_lsu (replicate 90 7) [] (on_link 2 []) far_router 4)
       (address_frame (load32 10 0 0 3) (load32 10 0 0 2) [2, 0, 0, 0, 0, 1]) = Inr f"
    "sr_handlepacket (\<lambda>_. (0, 0)) [] 50 home_router f (length f) ''eth0'' = Inr rs'"
    "ri_ospf rs' = (ri_ospf home_router)\<lparr>os_topo := s2, os_ftable := joined_table\<rparr>"
    "set_sequence 2 (htons 4) joined = Inr s2"
proof -
  let ?ps = "\<lambda>f. received f (length f) ''eth0'' []"
  note sent = lsu_exchange[where blk = "replicate 90 7" and mac = "[2, 0, 0, 0, 0, 1]" and osA = "on_link 2 []" and seq = 4
    and src = "load32 10 0 0 3" and dst = "load32 10 0 0 2" and ifs = "ri_ifs home_router" and junk = "\<lambda>_. (0, 0)" and now = 50
    and a = "ri_arp home_router", OF _ _ home_facts(1-4), simplified home_fields far_keys]
  obtain f where f: "rbind (build_lsu (replicate 90 7) [] (on_link 2 []) far_router 4)
       (address_frame (load32 10 0 0 3) (load32 10 0 0 2) [2, 0, 0, 0, 0, 1]) = Inr f"
    using sent[where ps = "?ps []"] by auto
  obtain f' where f': "66 \<le> length f'" "field8 22 f' = Inr INIT_TTL" "field32 26 f' = Inr (load32 10 0 0 3)"
    and h: "handle_pwospf (ri_ifs home_router) (\<lambda>_. (0, 0)) 50 (?ps f) f (ri_ospf home_router) (ri_arp home_router) =
        rbind (add_to_top home home_ifs 50 2 [link_net 0 1, stub_net]) (\<lambda>(s1, ft).
        rbind (set_sequence 2 (htons 4) s1) (\<lambda>s2.
        rbind (forward_lsu (ri_ifs home_router) home_ifs 50 (?ps f) f' (ri_arp home_router)) (\<lambda>a'.
          Inr ((ri_ospf home_router)\<lparr>os_topo := s2, os_ftable := ft\<rparr>, a'))))"
    using sent[where ps = "?ps f"] f far_is_new by (auto simp: far_keys)
  obtain s2 where s2: "set_sequence 2 (htons 4) joined = Inr s2" using set_sequence_ok[OF joined_wf] by blast
  have "INIT_TTL \<noteq> 0" "\<forall>w \<in> set home_ifs. \<forall>n \<in> set (pif_neighbors w). nb_ip n = load32 10 0 0 3"
    by (simp_all add: icmp_consts home_ifs_def)
  from forward_lsu_back[OF f'(1,2) this(1) f'(3) this(2), where ps = "?ps f"] h home_joined s2
  have "handle_pwospf (ri_ifs home_router) (\<lambda>_. (0, 0)) 50 (?ps f) f (ri_ospf home_router) (ri_arp home_router) =
      Inr ((ri_ospf home_router)\<lparr>os_topo := s2, os_ftable := joined_table\<rparr>, ri_arp home_router)"
    by simp
  then obtain rs' where "sr_handlepacket (\<lambda>_. (0, 0)) [] 50 home_router f (length f) ''eth0'' = Inr rs'"
      "ri_ospf rs' = (ri_ospf home_router)\<lparr>os_topo := s2, os_ftable := joined_table\<rparr>"
    using lsu_to_pwospf[OF f _ _ home_facts(5), of "\<lambda>_. (0, 0)" "[]" 50 "''eth0''"] by (simp add: run_pwospf_def)
  then show thesis using that[OF f] s2 by blast
qed

theorem lsu_routes_witness:
  "\<exists>f rs'. rbind (build_lsu (replicate 90 7) [] (on_link 2 []) far_router 4)
       (address_frame (load32 10 0 0 3) (load32 10 0 0 2) [2, 0, 0, 0, 0, 1]) = Inr f \<and>
     sr_handlepacket (\<lambda>_. (0, 0)) [] 50 home_router f (length f) ''eth0'' = Inr rs' \<and>
     leads_nearest (os_topo (ri_ospf rs')) home_ifs (load32 10 0 9 7) stub_entry \<and>
     route_of rs' (load32 10 0 9 7) = Some (''eth0'', load32 10 0 0 3)"
proof -
  obtain f rs' s2 where f: "rbind (build_lsu (replicate 90 7) [] (on_link 2 []) far_router 4)
       (address_frame (load32 10 0 0 3) (load32 10 0 0 2) [2, 0, 0, 0, 0, 1]) = Inr f"
    and rs': "sr_handlepacket (\<lambda>_. (0, 0)) [] 50 home_router f (length f) ''eth0'' = Inr rs'"
      "ri_ospf rs' = (ri_ospf home_router)\<lparr>os_topo := s2, os_ftable := joined_table\<rparr>"
    and s2: "set_sequence 2 (htons 4) joined = Inr s2"
    by (rule home_handles)
  note same = set_sequence_same[OF joined_wf s2]
  have own: "\<forall>sub \<in> set (subnets (rt s2 (this_router s2))). get_subnet_if home_ifs sub \<noteq> None"
    using joined_own by (simp add: same joined_simps)
  have "\<exists>n. prefix_of n (link_net x i)" "\<exists>n. prefix_of n stub_net" for x i
    using example_prefixes by blast+
  then have pfx: "\<forall>a \<in> set (network s2). \<forall>sub \<in> set (subnets (rt s2 a)). \<exists>n. prefix_of n sub"
    by (simp add: same joined_simps)
  have "leads_nearest (os_topo (ri_ospf rs')) (os_ifs (ri_ospf home_router)) (load32 10 0 9 7) stub_entry \<and>
      route_of rs' (load32 10 0 9 7) = Some (ft_interface stub_entry, ft_next_hop stub_entry)"
    by (rule lsu_routes[OF f _ _ home_facts _ _ rs'(1)])
      (use far_is_new own pfx joined_lookup in \<open>simp_all add: rs'(2) home_fields\<close>)
  then show ?thesis using f rs'(1) by (auto simp: home_fields stub_entry_def)
qed

end
