(* ===== verification/Sha1.thy ===== *)
theory Sha1
  imports Link
begin

text \<open>
  SHA-1 as \<^verbatim>\<open>sha1.c\<close> computes it for the authentication with the virtual network: a context that
  takes a message octet by octet, processes each full block of 64, and pads the last one. The
  reference is the definition of the standard on the whole message; the theorem says that the
  digests agree.
\<close>

section \<open>The context\<close>

record SHA1Context =
  Message_Digest :: "u32 list"
  Length_Low :: u32
  Length_High :: u32
  Message_Block :: bytes
  Message_Block_Index :: nat
  Computed :: bool
  Corrupted :: bool

definition SHA1CircularShift :: "nat \<Rightarrow> u32 \<Rightarrow> u32" where
  "SHA1CircularShift n w = (push_bit n w AND 0xFFFFFFFF) OR drop_bit (32 - n) w"

text \<open>The block is not initialised.\<close>

definition SHA1Reset :: "SHA1Context \<Rightarrow> SHA1Context" where
  "SHA1Reset c = c\<lparr>Length_Low := 0, Length_High := 0, Message_Block_Index := 0,
     Message_Digest := [0x67452301, 0xEFCDAB89, 0x98BADCFE, 0x10325476, 0xC3D2E1F0],
     Computed := False, Corrupted := False\<rparr>"

section \<open>One block\<close>

definition block_words :: "bytes \<Rightarrow> u32 list" where
  "block_words b =
     map (\<lambda>t. push_bit 24 (ucast (b ! (t * 4))) OR push_bit 16 (ucast (b ! (t * 4 + 1))) OR
              push_bit 8 (ucast (b ! (t * 4 + 2))) OR ucast (b ! (t * 4 + 3))) [0..<16]"

primrec extend_words :: "nat \<Rightarrow> u32 list \<Rightarrow> u32 list" where
  "extend_words 0 W = W"
| "extend_words (Suc n) W =
     (let t = length W
      in extend_words n (W @ [SHA1CircularShift 1 (W ! (t - 3) XOR W ! (t - 8) XOR W ! (t - 14) XOR W ! (t - 16))]))"

type_synonym regs = "u32 \<times> u32 \<times> u32 \<times> u32 \<times> u32"

definition round_step :: "(u32 \<Rightarrow> u32 \<Rightarrow> u32 \<Rightarrow> u32) \<Rightarrow> u32 \<Rightarrow> u32 \<Rightarrow> regs \<Rightarrow> regs" where
  "round_step f k w = (\<lambda>(A, B, C, D, E).
     ((SHA1CircularShift 5 A + f B C D + E + w + k) AND 0xFFFFFFFF, A, SHA1CircularShift 30 B, C, D))"

text \<open>The four loops over the words, and the new digest.\<close>

definition SHA1ProcessMessageBlock :: "SHA1Context \<Rightarrow> SHA1Context" where
  "SHA1ProcessMessageBlock c =
     (let W = extend_words 64 (block_words (Message_Block c));
          H = Message_Digest c;
          r0 = (H ! 0, H ! 1, H ! 2, H ! 3, H ! 4);
          r1 = fold (round_step (\<lambda>B C D. (B AND C) OR (NOT B AND D)) 0x5A827999) (take 20 W) r0;
          r2 = fold (round_step (\<lambda>B C D. B XOR C XOR D) 0x6ED9EBA1) (take 20 (drop 20 W)) r1;
          r3 = fold (round_step (\<lambda>B C D. (B AND C) OR (B AND D) OR (C AND D)) 0x8F1BBCDC)
                 (take 20 (drop 40 W)) r2;
          (A, B, C, D, E) = fold (round_step (\<lambda>B C D. B XOR C XOR D) 0xCA62C1D6) (take 20 (drop 60 W)) r3
      in c\<lparr>Message_Digest := [(H ! 0 + A) AND 0xFFFFFFFF, (H ! 1 + B) AND 0xFFFFFFFF,
             (H ! 2 + C) AND 0xFFFFFFFF, (H ! 3 + D) AND 0xFFFFFFFF, (H ! 4 + E) AND 0xFFFFFFFF],
           Message_Block_Index := 0\<rparr>)"

section \<open>Input and result\<close>

definition put_octet :: "u8 \<Rightarrow> SHA1Context \<Rightarrow> SHA1Context result" where
  "put_octet b c =
     (let i = Message_Block_Index c
      in if i < length (Message_Block c)
         then Inr (c\<lparr>Message_Block := (Message_Block c)[i := b], Message_Block_Index := i + 1\<rparr>)
         else Inl Out_of_bounds)"

definition count_octet :: "SHA1Context \<Rightarrow> SHA1Context" where
  "count_octet c =
     (let low = (Length_Low c + 8) AND 0xFFFFFFFF; high = (Length_High c + 1) AND 0xFFFFFFFF
      in if low = 0 then c\<lparr>Length_Low := low, Length_High := high, Corrupted := Corrupted c \<or> high = 0\<rparr>
         else c\<lparr>Length_Low := low\<rparr>)"

definition input_octet :: "u8 \<Rightarrow> SHA1Context \<Rightarrow> SHA1Context result" where
  "input_octet b c =
     rbind (put_octet b c) (\<lambda>c1.
       let c2 = count_octet c1
       in Inr (if Message_Block_Index c2 = 64 then SHA1ProcessMessageBlock c2 else c2))"

primrec input_loop :: "nat \<Rightarrow> bytes \<Rightarrow> SHA1Context \<Rightarrow> SHA1Context result" where
  "input_loop 0 msg c = Inr c"
| "input_loop (Suc n) msg c =
     (if Corrupted c then Inr c
      else case msg of
             [] \<Rightarrow> Inl Out_of_bounds
           | b # msg' \<Rightarrow> rbind (input_octet b c) (input_loop n msg'))"

definition SHA1Input :: "SHA1Context \<Rightarrow> bytes \<Rightarrow> nat \<Rightarrow> SHA1Context result" where
  "SHA1Input c message_array len =
     (if len = 0 then Inr c
      else if Computed c \<or> Corrupted c then Inr (c\<lparr>Corrupted := True\<rparr>)
      else input_loop len message_array c)"

lemma rbind_cong [fundef_cong]:
  "m = m' \<Longrightarrow> (\<And>x. m' = Inr x \<Longrightarrow> k x = k' x) \<Longrightarrow> rbind m k = rbind m' k'"
  by (cases m') simp_all

function pad_to :: "nat \<Rightarrow> SHA1Context \<Rightarrow> SHA1Context result" where
  "pad_to n c = (if Message_Block_Index c < n then rbind (put_octet 0 c) (pad_to n) else Inr c)"
  by pat_completeness auto
termination
  by (relation "measure (\<lambda>(n, c). n - Message_Block_Index c)") (auto simp: put_octet_def Let_def split: if_splits)

declare pad_to.simps [simp del]

definition length_octets :: "SHA1Context \<Rightarrow> bytes" where
  "length_octets c =
     map (\<lambda>n. ucast (drop_bit n (Length_High c))) [24, 16, 8, 0] @
     map (\<lambda>n. ucast (drop_bit n (Length_Low c))) [24, 16, 8, 0]"

definition SHA1PadMessage :: "SHA1Context \<Rightarrow> SHA1Context result" where
  "SHA1PadMessage c =
     rbind (put_octet 0x80 c) (\<lambda>c1.
     rbind (if 55 < Message_Block_Index c
            then rbind (pad_to 64 c1) (\<lambda>c2. pad_to 56 (SHA1ProcessMessageBlock c2))
            else pad_to 56 c1) (\<lambda>c3.
     rbind (put_bytes 56 (length_octets c) (Message_Block c3)) (\<lambda>b.
       Inr (SHA1ProcessMessageBlock (c3\<lparr>Message_Block := b\<rparr>)))))"

definition SHA1Result :: "SHA1Context \<Rightarrow> (bool \<times> SHA1Context) result" where
  "SHA1Result c =
     (if Corrupted c then Inr (False, c)
      else if Computed c then Inr (True, c)
      else rbind (SHA1PadMessage c) (\<lambda>c'. Inr (True, c'\<lparr>Computed := True\<rparr>)))"

section \<open>The standard\<close>

definition f_t :: "nat \<Rightarrow> u32 \<Rightarrow> u32 \<Rightarrow> u32 \<Rightarrow> u32" where
  "f_t t x y z =
     (if t < 20 then (x AND y) XOR (NOT x AND z)
      else if t < 40 then x XOR y XOR z
      else if t < 60 then (x AND y) XOR (x AND z) XOR (y AND z)
      else x XOR y XOR z)"

definition K_t :: "nat \<Rightarrow> u32" where
  "K_t t = (if t < 20 then 0x5A827999 else if t < 40 then 0x6ED9EBA1 else if t < 60 then 0x8F1BBCDC
            else 0xCA62C1D6)"

text \<open>The big-endian words of a block, and the words of the schedule.\<close>

definition M_t :: "bytes \<Rightarrow> nat \<Rightarrow> u32" where
  "M_t b t = word_rcat (take 4 (drop (4 * t) b))"

fun W_t :: "bytes \<Rightarrow> nat \<Rightarrow> u32" where
  "W_t b t = (if t < 16 then M_t b t
     else word_rotl 1 (W_t b (t - 3) XOR W_t b (t - 8) XOR W_t b (t - 14) XOR W_t b (t - 16)))"

declare W_t.simps [simp del]

definition sha1_round :: "bytes \<Rightarrow> nat \<Rightarrow> regs \<Rightarrow> regs" where
  "sha1_round blk t = (\<lambda>(a, b, c, d, e).
     (word_rotl 5 a + f_t t b c d + e + K_t t + W_t blk t, a, word_rotl 30 b, c, d))"

definition compress :: "bytes \<Rightarrow> regs \<Rightarrow> regs" where
  "compress blk = (\<lambda>(h0, h1, h2, h3, h4).
     case fold (sha1_round blk) [0..<80] (h0, h1, h2, h3, h4) of
       (a, b, c, d, e) \<Rightarrow> (h0 + a, h1 + b, h2 + c, h3 + d, h4 + e))"

definition sha1_padded :: "bytes \<Rightarrow> bytes" where
  "sha1_padded m =
     m @ [0x80] @ replicate ((119 - length m mod 64) mod 64) 0 @ map (\<lambda>i. of_nat (8 * length m div 256 ^ i)) (rev [0..<8])"

definition blocks :: "bytes \<Rightarrow> bytes list" where
  "blocks m = map (\<lambda>i. take 64 (drop (64 * i) m)) [0..<length m div 64]"

definition sha1 :: "bytes \<Rightarrow> regs" where
  "sha1 m = fold compress (blocks (sha1_padded m)) (0x67452301, 0xEFCDAB89, 0x98BADCFE, 0x10325476, 0xC3D2E1F0)"

section \<open>A block, as the code and as the standard process it\<close>

lemma u32_and_all: "x AND 0xFFFFFFFF = (x :: u32)"
proof -
  have "(0xFFFFFFFF :: u32) = - 1" by simp
  then show ?thesis by (simp only: and.right_neutral)
qed

lemma SHA1CircularShift_rotl: "0 < n \<Longrightarrow> n < 32 \<Longrightarrow> SHA1CircularShift n w = word_rotl n w"
proof (rule bit_word_eqI)
  fix i assume n: "0 < n" "n < 32" and i: "i < LENGTH(32)"
  have rot: "bit (word_rotl n w) i = bit w ((i + (32 - n)) mod 32)"
    using n i by (simp add: bit_word_rotl_iff)
  show "bit (SHA1CircularShift n w) i = bit (word_rotl n w) i"
  proof (cases "i < n")
    case True
    then have "(i + (32 - n)) mod 32 = 32 - n + i" using n by simp
    then show ?thesis using n i True unfolding rot
      by (simp only: SHA1CircularShift_def u32_and_all) (simp add: bit_simps)
  next
    case False
    have "32 \<le> i + (32 - n)" using n False by arith
    then have "(i + (32 - n)) mod 32 = i - n" using n i by (simp add: mod_if)
    moreover have "\<not> bit w (32 - n + i)" using \<open>32 \<le> i + (32 - n)\<close> bit_imp_le_length[of w "32 - n + i"] by auto
    ultimately show ?thesis using n i False unfolding rot
      by (simp only: SHA1CircularShift_def u32_and_all) (simp add: bit_simps)
  qed
qed

lemma word_rcat_4:
  "word_rcat [a, b, c, d :: u8] =
     (push_bit 24 (ucast a) OR push_bit 16 (ucast b) OR push_bit 8 (ucast c) OR ucast d :: u32)"
proof -
  have "push_bit 8 (ucast c) AND (ucast d :: u32) = 0"
      "push_bit 16 (ucast b) AND (push_bit 8 (ucast c) OR ucast d :: u32) = 0"
      "push_bit 24 (ucast a) AND (push_bit 16 (ucast b) OR push_bit 8 (ucast c) OR ucast d :: u32) = 0"
    by (rule bit_word_eqI; auto simp: bit_simps)+
  then have "(push_bit 24 (ucast a) OR push_bit 16 (ucast b) OR push_bit 8 (ucast c) OR ucast d :: u32) =
      push_bit 24 (ucast a) + (push_bit 16 (ucast b) + (push_bit 8 (ucast c) + ucast d))"
    by (simp add: disjunctive_add_eq_or)
  also have "\<dots> = word_rcat [a, b, c, d]"
    by (simp add: word_rcat_def push_bit_eq_mult word_of_int_uint algebra_simps)
  finally show ?thesis by simp
qed

lemma take_4_drop: "i + 3 < length b \<Longrightarrow> take 4 (drop i b) = [b ! i, b ! (i + 1), b ! (i + 2), b ! (i + 3)]"
  by (rule nth_equalityI) (auto simp: less_Suc_eq numeral_eq_Suc)

lemma block_words_eq: "length b = 64 \<Longrightarrow> block_words b = map (W_t b) [0..<16]"
  by (auto simp: block_words_def W_t.simps M_t_def take_4_drop word_rcat_4 mult.commute)

lemma extend_words_eq: "16 \<le> k \<Longrightarrow> extend_words n (map (W_t b) [0..<k]) = map (W_t b) [0..<k + n]"
proof (induction n arbitrary: k)
  case (Suc n)
  have "map (W_t b) [0..<k] @ [W_t b k] = map (W_t b) [0..<Suc k]" by simp
  moreover have "SHA1CircularShift 1 (W_t b (k - 3) XOR W_t b (k - 8) XOR W_t b (k - 14) XOR W_t b (k - 16)) = W_t b k"
    using Suc.prems by (subst (5) W_t.simps) (simp add: SHA1CircularShift_rotl)
  ultimately show ?case using Suc.IH[of "Suc k"] Suc.prems by (simp add: Let_def)
qed simp

lemma f_t_forms:
  "(x AND y) OR (NOT x AND z) = (x AND y) XOR (NOT x AND z :: u32)"
  "(x AND y) OR (x AND z) OR (y AND z) = (x AND y) XOR (x AND z) XOR (y AND z :: u32)"
  by (rule bit_word_eqI; auto simp: bit_simps)+

lemma round_step_eq:
  assumes "\<And>x y z. f x y z = f_t t x y z" "k = K_t t"
  shows "round_step f k (W_t b t) = sha1_round b t"
  using assms(2) by (auto simp: fun_eq_iff round_step_def sha1_round_def assms(1) SHA1CircularShift_rotl u32_and_all ac_simps)

lemma rounds_eq:
  assumes "\<And>t x y z. i \<le> t \<Longrightarrow> t < i + 20 \<Longrightarrow> f x y z = f_t t x y z \<and> k = K_t t" "i + 20 \<le> 80"
  shows "fold (round_step f k) (take 20 (drop i (map (W_t b) [0..<80]))) r = fold (sha1_round b) [i..<i + 20] r"
proof -
  have "take 20 (drop i (map (W_t b) [0..<80])) = map (W_t b) [i..<i + 20]"
    using assms(2) by (simp add: drop_map take_map)
  moreover have "fold (round_step f k \<circ> W_t b) [i..<i + 20] r = fold (sha1_round b) [i..<i + 20] r"
    by (rule fold_cong) (auto simp: assms(1) intro!: round_step_eq)
  ultimately show ?thesis by (simp add: fold_map)
qed

definition digest_of :: "regs \<Rightarrow> u32 list" where
  "digest_of = (\<lambda>(a, b, c, d, e). [a, b, c, d, e])"

lemma process_block:
  assumes "length (Message_Block c) = 64" "Message_Digest c = digest_of h"
  shows "SHA1ProcessMessageBlock c =
     c\<lparr>Message_Digest := digest_of (compress (Message_Block c) h), Message_Block_Index := 0\<rparr>"
proof -
  obtain h0 h1 h2 h3 h4 where h: "h = (h0, h1, h2, h3, h4)" by (cases h) auto
  let ?b = "Message_Block c"
  have W: "extend_words 64 (block_words ?b) = map (W_t ?b) [0..<80]"
    using extend_words_eq[of 16 64 ?b] by (simp add: block_words_eq[OF assms(1)])
  have "[0..<80] = [0..<20] @ [20..<40] @ [40..<60] @ [60..<(80 :: nat)]" by (simp add: upt_conv_Cons)
  moreover have "fold (round_step (\<lambda>B C D. (B AND C) OR (NOT B AND D)) 0x5A827999) (take 20 (map (W_t ?b) [0..<80])) r =
      fold (sha1_round ?b) [0..<20] r" for r
    using rounds_eq[of 0 _ _ ?b r] by (simp add: f_t_def K_t_def f_t_forms)
  moreover have "fold (round_step (\<lambda>B C D. B XOR C XOR D) 0x6ED9EBA1) (take 20 (drop 20 (map (W_t ?b) [0..<80]))) r =
      fold (sha1_round ?b) [20..<40] r" for r
    using rounds_eq[of 20 _ _ ?b r] by (simp add: f_t_def K_t_def)
  moreover have "fold (round_step (\<lambda>B C D. (B AND C) OR (B AND D) OR (C AND D)) 0x8F1BBCDC)
        (take 20 (drop 40 (map (W_t ?b) [0..<80]))) r = fold (sha1_round ?b) [40..<60] r" for r
    using rounds_eq[of 40 _ _ ?b r] by (simp add: f_t_def K_t_def f_t_forms)
  moreover have "fold (round_step (\<lambda>B C D. B XOR C XOR D) 0xCA62C1D6) (take 20 (drop 60 (map (W_t ?b) [0..<80]))) r =
      fold (sha1_round ?b) [60..<80] r" for r
    using rounds_eq[of 60 _ _ ?b r] by (simp add: f_t_def K_t_def)
  ultimately show ?thesis
    by (simp only: SHA1ProcessMessageBlock_def Let_def W)
       (simp add: assms(2) h digest_of_def compress_def u32_and_all split: prod.split)
qed

section \<open>A context and the message it has seen\<close>

lemma blocks_append: "64 dvd length a \<Longrightarrow> blocks (a @ b) = blocks a @ blocks b"
proof -
  assume "64 dvd length a"
  then obtain k where k: "length a = 64 * k" by (elim dvdE)
  have "[0..<length (a @ b) div 64] = [0..<k] @ map (\<lambda>i. i + k) [0..<length b div 64]"
    by (simp add: k upt_add_eq_append[of 0 k] map_add_upt add.commute)
  moreover have "take 64 (drop (64 * i) (a @ b)) = take 64 (drop (64 * i) a)" if "i < k" for i
  proof -
    have "64 * i + 64 \<le> length a" using that k by simp
    then show ?thesis by simp
  qed
  ultimately show ?thesis by (simp add: blocks_def k algebra_simps)
qed

lemma blocks_short: "length b < 64 \<Longrightarrow> blocks b = []"
  by (simp add: blocks_def)

lemma blocks_one: "length b = 64 \<Longrightarrow> blocks b = [b]"
  by (simp add: blocks_def)

definition full :: "bytes \<Rightarrow> bytes" where "full m = take (64 * (length m div 64)) m"
definition rest :: "bytes \<Rightarrow> bytes" where "rest m = drop (64 * (length m div 64)) m"

lemma full_rest:
  "m = full m @ rest m" "64 dvd length (full m)" "length (rest m) = length m mod 64" "length (rest m) < 64"
proof -
  have "64 * (length m div 64) + length m mod 64 = length m" by simp
  then have "length (full m) = 64 * (length m div 64)" "length (rest m) = length m mod 64"
    by (simp_all add: full_def rest_def minus_mult_div_eq_mod)
  then show "64 dvd length (full m)" "length (rest m) = length m mod 64" "length (rest m) < 64" by simp_all
qed (simp add: full_def rest_def)

lemma blocks_full_rest: "blocks (m @ x) = blocks m @ blocks (rest m @ x)"
proof -
  have "blocks (full m @ y) = blocks (full m) @ blocks y" for y by (rule blocks_append) (rule full_rest)
  moreover have "m = full m @ rest m" by (rule full_rest)
  ultimately show ?thesis by (metis append.assoc append_Nil2 blocks_short full_rest(4))
qed

definition H0 :: regs where
  "H0 = (0x67452301, 0xEFCDAB89, 0x98BADCFE, 0x10325476, 0xC3D2E1F0)"

definition seen :: "bytes \<Rightarrow> SHA1Context \<Rightarrow> bool" where
  "seen m c \<longleftrightarrow>
     Message_Digest c = digest_of (fold compress (blocks m) H0) \<and> length (Message_Block c) = 64 \<and>
     Message_Block_Index c = length (rest m) \<and> take (length (rest m)) (Message_Block c) = rest m \<and>
     unat (Length_High c) * 2 ^ 32 + unat (Length_Low c) = 8 * length m \<and> \<not> Computed c \<and> \<not> Corrupted c"

lemma seen_Reset: "length (Message_Block c) = 64 \<Longrightarrow> seen [] (SHA1Reset c)"
  by (simp add: seen_def SHA1Reset_def rest_def blocks_def H0_def digest_of_def)

lemma rest_snoc: "rest (m @ [x]) = (if length (rest m) = 63 then [] else rest m @ [x])"
proof (cases "length (rest m) = 63")
  case True
  then have "length m mod 64 = 63" by (simp add: full_rest(3))
  then have "Suc (length m) mod 64 = 0" by (simp add: mod_Suc)
  then show ?thesis using True full_rest(3)[of "m @ [x]"] by simp
next
  case False
  then have "length m mod 64 \<noteq> 63" by (simp add: full_rest(3))
  then have "Suc (length m) div 64 = length m div 64" by (simp add: div_Suc mod_Suc)
  moreover have "64 * (length m div 64) \<le> length m" by simp
  ultimately show ?thesis using False by (simp add: rest_def)
qed

lemma put_octet_ok:
  assumes "Message_Block_Index c = length r" "take (length r) (Message_Block c) = r"
    "length (Message_Block c) = 64" "length r < 64"
  shows "\<exists>b. put_octet x c = Inr (c\<lparr>Message_Block := b, Message_Block_Index := length r + 1\<rparr>) \<and>
     length b = 64 \<and> take (length r + 1) b = r @ [x]"
  using assms by (intro exI[of _ "(Message_Block c)[length r := x]"])
    (simp add: put_octet_def Let_def take_Suc_conv_app_nth)

lemma count_octet_ok:
  assumes "unat (Length_High c) * 2 ^ 32 + unat (Length_Low c) = 8 * n" "8 * (n + 1) < 2 ^ 64"
  shows "\<exists>lo hi. count_octet c = c\<lparr>Length_Low := lo, Length_High := hi\<rparr> \<and> unat hi * 2 ^ 32 + unat lo = 8 * (n + 1)"
proof (cases "Length_Low c + 8 = 0")
  case True
  let ?h = "unat (Length_High c)" and ?l = "unat (Length_Low c)"
  have "unat (Length_Low c + 8) = (?l + 8) mod 2 ^ 32" by (simp add: unat_word_ariths)
  moreover have "?l < 2 ^ 32" using unsigned_less[of "Length_Low c", where ?'a = nat] by simp
  moreover have "8 dvd ?h * 2 ^ 32 + ?l" using assms(1) by simp
  then have "8 dvd ?l" by (simp add: dvd_add_right_iff)
  ultimately have l: "?l + 8 = 2 ^ 32" using True by (auto simp: dvd_def mod_if split: if_splits)
  then have "8 * (n + 1) = (?h + 1) * 2 ^ 32" using assms(1) by (simp add: algebra_simps)
  then have h: "?h + 1 < 2 ^ 32" using assms(2) by simp
  then have u: "unat (Length_High c + 1) = ?h + 1" by (simp add: unat_word_ariths)
  then have "Length_High c + 1 \<noteq> 0" by (metis add_eq_0_iff_both_eq_0 one_neq_zero unat_0)
  then show ?thesis using True u \<open>8 * (n + 1) = (?h + 1) * 2 ^ 32\<close>
    by (intro exI[of _ 0] exI[of _ "Length_High c + 1"]) (simp add: count_octet_def u32_and_all)
next
  case False
  let ?l = "unat (Length_Low c)"
  have "?l + 8 < 2 ^ 32"
  proof (rule ccontr)
    assume n: "\<not> ?l + 8 < 2 ^ 32"
    have "?l < 2 ^ 32" using unsigned_less[of "Length_Low c", where ?'a = nat] by simp
    moreover have "8 dvd unat (Length_High c) * 2 ^ 32 + ?l" using assms(1) by simp
    then have "8 dvd ?l" by (simp add: dvd_add_right_iff)
    ultimately have "?l + 8 = 2 ^ 32" using n by (elim dvdE) simp
    then have "unat (Length_Low c + 8) = 0" by (simp add: unat_word_ariths)
    then show False using False by (simp add: unat_eq_zero)
  qed
  then have "unat (Length_Low c + 8) = ?l + 8" by (simp add: unat_word_ariths)
  then show ?thesis using False assms(1)
    by (intro exI[of _ "Length_Low c + 8"] exI[of _ "Length_High c"]) (simp add: count_octet_def u32_and_all)
qed

lemma input_octet_seen:
  assumes "seen m c" "8 * (length m + 1) < 2 ^ 64"
  shows "\<exists>c'. input_octet x c = Inr c' \<and> seen (m @ [x]) c'"
proof -
  note s = assms(1)[unfolded seen_def]
  obtain b where b: "put_octet x c = Inr (c\<lparr>Message_Block := b, Message_Block_Index := length (rest m) + 1\<rparr>)"
      "length b = 64" "take (length (rest m) + 1) b = rest m @ [x]"
    using put_octet_ok[of c "rest m" x] s full_rest(4)[of m] by blast
  let ?c1 = "c\<lparr>Message_Block := b, Message_Block_Index := length (rest m) + 1\<rparr>"
  obtain lo hi where l: "count_octet ?c1 = ?c1\<lparr>Length_Low := lo, Length_High := hi\<rparr>"
      "unat hi * 2 ^ 32 + unat lo = 8 * (length m + 1)"
    using count_octet_ok[of ?c1 "length m"] s assms(2) by auto
  let ?c2 = "?c1\<lparr>Length_Low := lo, Length_High := hi\<rparr>"
  show ?thesis
  proof (cases "length (rest m) = 63")
    case True
    then have bb: "b = rest m @ [x]" using b(2,3) by simp
    then have "blocks (m @ [x]) = blocks m @ [b]"
      using blocks_full_rest[of m "[x]"] b(2) by (simp add: blocks_one)
    moreover have "SHA1ProcessMessageBlock ?c2 =
        ?c2\<lparr>Message_Digest := digest_of (compress b (fold compress (blocks m) H0)), Message_Block_Index := 0\<rparr>"
      using process_block[of ?c2] s b(2) by simp
    moreover from this have "input_octet x c = Inr (?c2\<lparr>Message_Digest :=
        digest_of (compress b (fold compress (blocks m) H0)), Message_Block_Index := 0\<rparr>)"
      using b(1) l(1) True by (simp add: input_octet_def Let_def)
    moreover have "rest (m @ [x]) = []" using True by (simp add: rest_snoc)
    ultimately show ?thesis using s b(2) l(2) by (simp add: seen_def)
  next
    case False
    then have "length (rest m @ [x]) < 64" using full_rest(4)[of m] by simp
    then have "blocks (m @ [x]) = blocks m" using blocks_full_rest[of m "[x]"] by (simp add: blocks_short)
    moreover have "input_octet x c = Inr ?c2"
      using b(1) l(1) False by (simp add: input_octet_def Let_def)
    moreover have "rest (m @ [x]) = rest m @ [x]" using False by (simp add: rest_snoc)
    ultimately show ?thesis using s b(2,3) l(2) by (simp add: seen_def)
  qed
qed

lemma input_loop_seen:
  assumes "seen m c" "n \<le> length x" "8 * (length m + n) < 2 ^ 64"
  shows "\<exists>c'. input_loop n x c = Inr c' \<and> seen (m @ take n x) c'"
  using assms
proof (induction n arbitrary: m c x)
  case (Suc n)
  then obtain b y where x: "x = b # y" by (cases x) auto
  obtain c1 where c1: "input_octet b c = Inr c1" "seen (m @ [b]) c1"
    using input_octet_seen[OF Suc.prems(1), of b] Suc.prems(3) by auto
  moreover obtain c2 where "input_loop n y c1 = Inr c2" "seen ((m @ [b]) @ take n y) c2"
    using Suc.IH[OF c1(2), of y] Suc.prems(2,3) x by auto
  ultimately show ?case using Suc.prems(1) x by (simp add: seen_def)
qed simp

lemma SHA1Input_seen:
  assumes "seen m c" "n \<le> length x" "8 * (length m + n) < 2 ^ 64"
  shows "\<exists>c'. SHA1Input c x n = Inr c' \<and> seen (m @ take n x) c'"
  using input_loop_seen[OF assms] assms(1) by (auto simp: SHA1Input_def seen_def)

section \<open>The last block\<close>

lemma pad_to_ok:
  assumes "Message_Block_Index c \<le> n" "n \<le> 64" "length (Message_Block c) = 64"
  shows "\<exists>b. pad_to n c = Inr (c\<lparr>Message_Block := b, Message_Block_Index := n\<rparr>) \<and> length b = 64 \<and>
     take n b = take (Message_Block_Index c) (Message_Block c) @ replicate (n - Message_Block_Index c) 0"
  using assms
proof (induction "n - Message_Block_Index c" arbitrary: c)
  case 0
  then show ?case by (intro exI[of _ "Message_Block c"]) (simp add: pad_to.simps)
next
  case (Suc k)
  let ?i = "Message_Block_Index c"
  have i: "?i < n" using Suc.hyps(2) by simp
  obtain b where b: "put_octet 0 c = Inr (c\<lparr>Message_Block := b, Message_Block_Index := ?i + 1\<rparr>)"
      "length b = 64" "take (?i + 1) b = take ?i (Message_Block c) @ [0]"
    using put_octet_ok[of c "take ?i (Message_Block c)" 0] i Suc.prems by auto
  have "k = n - Message_Block_Index (c\<lparr>Message_Block := b, Message_Block_Index := ?i + 1\<rparr>)"
    using Suc.hyps(2) by simp
  from Suc.hyps(1)[OF this] obtain b' where "length b' = 64"
      "pad_to n (c\<lparr>Message_Block := b, Message_Block_Index := ?i + 1\<rparr>) =
         Inr (c\<lparr>Message_Block := b', Message_Block_Index := n\<rparr>)"
      "take n b' = take (?i + 1) b @ replicate (n - (?i + 1)) 0"
    using Suc.prems(2) i b(2) by auto
  moreover from this(2) have "pad_to n c = Inr (c\<lparr>Message_Block := b', Message_Block_Index := n\<rparr>)"
    using i b(1) by (subst pad_to.simps) simp
  moreover have "n - ?i = Suc (n - (?i + 1))" using i by simp
  ultimately show ?case using b(3) by (intro exI[of _ b']) simp
qed

definition be64 :: "nat \<Rightarrow> bytes" where
  "be64 n = map (\<lambda>i. of_nat (n div 256 ^ i)) (rev [0..<8])"

lemma ucast_drop: "(ucast (drop_bit n (w :: u32)) :: u8) = of_nat (unat w div 2 ^ n)"
proof -
  have "(ucast (drop_bit n w) :: u8) = of_nat (unat (drop_bit n w))" by (rule of_nat_unat[symmetric])
  moreover have "unat (drop_bit n w) = unat w div 2 ^ n" by (rule trans[OF unat_drop_bit_eq drop_bit_eq_div])
  ultimately show ?thesis by simp
qed

lemma length_octets_be64:
  assumes "unat (Length_High c) * 2 ^ 32 + unat (Length_Low c) = n"
  shows "length_octets c = be64 n"
proof -
  let ?h = "unat (Length_High c)" and ?l = "unat (Length_Low c)"
  have l: "?l < 2 ^ 32" using unsigned_less[of "Length_Low c", where ?'a = nat] by simp
  have hi: "n div 2 ^ (32 + k) = ?h div 2 ^ k" for k
  proof -
    have "n div 2 ^ 32 = ?h" using l div_mult_self3[of "2 ^ 32" ?l ?h] by (simp add: add.commute flip: assms)
    then show ?thesis by (simp only: power_add div_mult2_eq)
  qed
  have lo: "(of_nat (n div 2 ^ k) :: u8) = of_nat (?l div 2 ^ k)" if "k \<le> 24" for k
  proof -
    have "(32 :: nat) = (32 - k) + k" "(32 :: nat) - k = 8 + (24 - k)" using that by simp_all
    then have two: "(2 :: nat) ^ 32 = 2 ^ (32 - k) * 2 ^ k" "(2 :: u8) ^ (32 - k) = 2 ^ 8 * 2 ^ (24 - k)"
      by (metis power_add)+
    have "n = ?l + ?h * 2 ^ (32 - k) * 2 ^ k" unfolding assms[symmetric] two(1) by (simp only: ac_simps)
    moreover have "(2 :: nat) ^ k \<noteq> 0" by simp
    ultimately have "n div 2 ^ k = ?h * 2 ^ (32 - k) + ?l div 2 ^ k" using div_mult_self1 by metis
    moreover have "(2 :: u8) ^ 8 = 0" by simp
    ultimately show ?thesis by (simp only: of_nat_add of_nat_mult of_nat_power of_nat_numeral two(2)) simp
  qed
  have e: "rev [0..<8] = [7, 6, 5, 4, 3, 2, 1, 0 :: nat]" by code_simp
  have p: "(256 :: nat) ^ i = 2 ^ (8 * i)" for i by (simp add: power_mult)
  have "be64 n = map (\<lambda>k. of_nat (n div 2 ^ k)) [32 + 24, 32 + 16, 32 + 8, 32 + 0, 24, 16, 8, 0]"
    by (simp add: be64_def e p del: power_numeral)
  also have "\<dots> = map (\<lambda>k. of_nat (?h div 2 ^ k)) [24, 16, 8, 0] @ map (\<lambda>k. of_nat (?l div 2 ^ k)) [24, 16, 8, 0]"
    unfolding list.map hi using lo[of 24] lo[of 16] lo[of 8] lo[of 0] by simp
  also have "\<dots> = length_octets c" by (simp only: length_octets_def ucast_drop)
  finally show ?thesis by simp
qed

lemma length_be64 [simp]: "length (be64 n) = 8"
  by (simp add: be64_def)

lemma final_block:
  assumes "length (Message_Block c) = 64" "Message_Digest c = digest_of h" "take 56 (Message_Block c) = p"
    and "length l = 8"
  shows "\<exists>b. put_bytes 56 l (Message_Block c) = Inr b \<and>
    Message_Digest (SHA1ProcessMessageBlock (c\<lparr>Message_Block := b\<rparr>)) = digest_of (compress (p @ l) h)"
proof -
  have "put_bytes 56 l (Message_Block c) = Inr (p @ l)" using assms(1,3,4) by (simp add: put_bytes_def)
  moreover have "length (p @ l) = 64" using assms(1,4) by (simp flip: assms(3))
  ultimately show ?thesis using process_block[of "c\<lparr>Message_Block := p @ l\<rparr>" h] assms(2) by simp
qed

text \<open>
  The last octets of a message with the first octet of padding: with zeros and the length they fit one
  block, or take another.
\<close>

lemma sha1_last:
  "sha1 m = fold compress (blocks (rest m @ [0x80] @ replicate ((119 - length (rest m)) mod 64) 0 @ be64 (8 * length m)))
     (fold compress (blocks m) H0)"
  using blocks_full_rest[of m "[0x80] @ replicate ((119 - length (rest m)) mod 64) 0 @ be64 (8 * length m)"] full_rest(3)[of m]
  by (simp add: sha1_def sha1_padded_def H0_def be64_def)

definition last_octets :: "bytes \<Rightarrow> SHA1Context \<Rightarrow> bool" where
  "last_octets m c \<longleftrightarrow> length (Message_Block c) = 64 \<and> Message_Block_Index c = length (rest m) + 1 \<and>
     take (length (rest m) + 1) (Message_Block c) = rest m @ [0x80] \<and>
     Message_Digest c = digest_of (fold compress (blocks m) H0)"

lemma pad_one_block:
  assumes "last_octets m c" "\<not> 55 < length (rest m)"
  shows "\<exists>c' h. pad_to 56 c = Inr c' \<and> length (Message_Block c') = 64 \<and> Message_Digest c' = digest_of h \<and>
    sha1 m = compress (take 56 (Message_Block c') @ be64 (8 * length m)) h"
proof -
  note c = assms(1)[unfolded last_octets_def]
  let ?n = "length (rest m)" and ?h = "fold compress (blocks m) H0"
  obtain b where b: "pad_to 56 c = Inr (c\<lparr>Message_Block := b, Message_Block_Index := 56\<rparr>)"
      "length b = 64" "take 56 b = rest m @ [0x80] @ replicate (55 - ?n) 0"
    using pad_to_ok[of c 56] c assms(2) by auto
  have "(119 - ?n) mod 64 = 55 - ?n" using assms(2) by (simp add: mod_if)
  then have "sha1 m = compress (take 56 b @ be64 (8 * length m)) ?h"
    using b(3) assms(2) unfolding sha1_last by (simp add: blocks_one)
  with b c show ?thesis
    by (intro exI[of _ "c\<lparr>Message_Block := b, Message_Block_Index := 56\<rparr>"] exI[of _ ?h]) simp
qed

lemma pad_two_blocks:
  assumes "last_octets m c" "55 < length (rest m)"
  shows "\<exists>c' h. rbind (pad_to 64 c) (\<lambda>c2. pad_to 56 (SHA1ProcessMessageBlock c2)) = Inr c' \<and>
    length (Message_Block c') = 64 \<and> Message_Digest c' = digest_of h \<and>
    sha1 m = compress (take 56 (Message_Block c') @ be64 (8 * length m)) h"
proof -
  note c = assms(1)[unfolded last_octets_def]
  let ?n = "length (rest m)" and ?h = "fold compress (blocks m) H0" and ?l = "be64 (8 * length m)"
  have n: "?n < 64" by (rule full_rest(4))
  obtain b where b: "pad_to 64 c = Inr (c\<lparr>Message_Block := b, Message_Block_Index := 64\<rparr>)"
      "length b = 64" "take 64 b = rest m @ [0x80] @ replicate (63 - ?n) 0"
    using pad_to_ok[of c 64] c n by auto
  let ?h2 = "compress b ?h"
  let ?c2 = "c\<lparr>Message_Block := b, Message_Digest := digest_of ?h2, Message_Block_Index := 0\<rparr>"
  have p: "SHA1ProcessMessageBlock (c\<lparr>Message_Block := b, Message_Block_Index := 64\<rparr>) = ?c2"
    using process_block[of "c\<lparr>Message_Block := b, Message_Block_Index := 64\<rparr>" ?h] b(2) c by simp
  obtain b3 where b3: "pad_to 56 ?c2 = Inr (?c2\<lparr>Message_Block := b3, Message_Block_Index := 56\<rparr>)"
      "length b3 = 64" "take 56 b3 = replicate 56 0"
    using pad_to_ok[of ?c2 56] b(2) by auto
  have "(119 - ?n) mod 64 = (63 - ?n) + 56" using assms(2) n by (simp add: mod_if)
  then have "replicate ((119 - ?n) mod 64) (0 :: u8) = replicate (63 - ?n) 0 @ replicate 56 0"
    by (simp only: replicate_add)
  then have "rest m @ [0x80] @ replicate ((119 - ?n) mod 64) 0 @ ?l = b @ (replicate 56 0 @ ?l)"
    using b(2,3) by simp
  then have "sha1 m = fold compress (blocks (b @ (replicate 56 0 @ ?l))) ?h" by (simp only: sha1_last)
  then have "sha1 m = compress (take 56 b3 @ ?l) ?h2"
    using blocks_append[of b "replicate 56 0 @ ?l"] b(2) b3(3) by (simp add: blocks_one)
  with b(1) p b3 show ?thesis
    by (intro exI[of _ "?c2\<lparr>Message_Block := b3, Message_Block_Index := 56\<rparr>"] exI[of _ ?h2]) simp
qed

lemma SHA1PadMessage_ok:
  assumes "seen m c"
  shows "\<exists>c'. SHA1PadMessage c = Inr c' \<and> Message_Digest c' = digest_of (sha1 m)"
proof -
  note s = assms[unfolded seen_def]
  let ?n = "length (rest m)" and ?l = "be64 (8 * length m)"
  have l: "length_octets c = ?l" using length_octets_be64[of c "8 * length m"] s by simp
  obtain b where b: "put_octet 0x80 c = Inr (c\<lparr>Message_Block := b, Message_Block_Index := ?n + 1\<rparr>)"
      "length b = 64" "take (?n + 1) b = rest m @ [0x80]"
    using put_octet_ok[of c "rest m" "0x80"] s full_rest(4)[of m] by blast
  let ?c1 = "c\<lparr>Message_Block := b, Message_Block_Index := ?n + 1\<rparr>"
  have c1: "last_octets m ?c1" using b s by (simp add: last_octets_def)
  obtain c3 h where c3: "(if 55 < Message_Block_Index c
        then rbind (pad_to 64 ?c1) (\<lambda>c2. pad_to 56 (SHA1ProcessMessageBlock c2)) else pad_to 56 ?c1) = Inr c3"
      "length (Message_Block c3) = 64" "Message_Digest c3 = digest_of h"
      "sha1 m = compress (take 56 (Message_Block c3) @ ?l) h"
    using pad_one_block[OF c1] pad_two_blocks[OF c1] s by (cases "55 < ?n") auto
  from final_block[OF c3(2,3) refl, of ?l] c3(4) show ?thesis
    unfolding SHA1PadMessage_def b(1) rbind_simps c3(1) l by auto
qed

lemma SHA1Result_seen:
  "seen m c \<Longrightarrow> \<exists>c'. SHA1Result c = Inr (True, c') \<and> Message_Digest c' = digest_of (sha1 m)"
  using SHA1PadMessage_ok[of m c] by (auto simp: SHA1Result_def seen_def)

lemma SHA1_inputs:
  assumes "seen m c" "length m + length (concat xs) < 2 ^ 61"
  shows "\<exists>c'. foldr_res (\<lambda>x c. SHA1Input c x (length x)) xs c = Inr c' \<and> seen (m @ concat xs) c'"
  using assms
proof (induction xs arbitrary: m c)
  case (Cons x xs)
  obtain c1 where c1: "SHA1Input c x (length x) = Inr c1" "seen (m @ x) c1"
    using SHA1Input_seen[OF Cons.prems(1), of "length x" x] Cons.prems(2) by auto
  moreover obtain c2 where "foldr_res (\<lambda>x c. SHA1Input c x (length x)) xs c1 = Inr c2" "seen ((m @ x) @ concat xs) c2"
    using Cons.IH[OF c1(2)] Cons.prems(2) by auto
  ultimately show ?case by simp
qed simp

lemma SHA1_late_input:
  "SHA1Result c = Inr (ok, c') \<Longrightarrow> 0 < n \<Longrightarrow>
   \<exists>c''. SHA1Input c' x n = Inr c'' \<and> SHA1Result c'' = Inr (False, c'')"
  by (auto simp: SHA1Result_def SHA1Input_def rbind_eq_Inr split: if_splits)

text \<open>
  C18. The digest is the standard's. However a message of less than \<open>2 ^ 61\<close> octets is divided into
  inputs, the digest after a reset, the inputs and \<^verbatim>\<open>SHA1Result\<close> is the one that SHA-1 defines for the
  whole message; no access leaves the block. Once the result is computed, further input makes
  the context corrupted, and \<^verbatim>\<open>SHA1Result\<close> reports failure.
\<close>
theorem SHA1_correct:
  assumes "length (Message_Block c) = 64" "length (concat xs) < 2 ^ 61"
  shows "\<exists>c1 c2. foldr_res (\<lambda>x c. SHA1Input c x (length x)) xs (SHA1Reset c) = Inr c1 \<and>
     SHA1Result c1 = Inr (True, c2) \<and> Message_Digest c2 = digest_of (sha1 (concat xs)) \<and>
     (\<forall>y n. 0 < n \<longrightarrow> (\<exists>c3. SHA1Input c2 y n = Inr c3 \<and> SHA1Result c3 = Inr (False, c3)))"
proof -
  obtain c1 where c1: "foldr_res (\<lambda>x c. SHA1Input c x (length x)) xs (SHA1Reset c) = Inr c1" "seen (concat xs) c1"
    using SHA1_inputs[OF seen_Reset[OF assms(1)], of xs] assms(2) by auto
  moreover obtain c2 where "SHA1Result c1 = Inr (True, c2)" "Message_Digest c2 = digest_of (sha1 (concat xs))"
    using SHA1Result_seen[OF c1(2)] by blast
  ultimately show ?thesis using SHA1_late_input by blast
qed

definition blank :: SHA1Context where
  "blank = \<lparr>Message_Digest = [], Length_Low = 1, Length_High = 2, Message_Block = replicate 64 7,
     Message_Block_Index = 9, Computed = True, Corrupted = True\<rparr>"

theorem SHA1_correct_witness:
  "\<exists>c1 c2. foldr_res (\<lambda>x c. SHA1Input c x (length x)) [[97], [98, 99]] (SHA1Reset blank) = Inr c1 \<and>
     SHA1Result c1 = Inr (True, c2) \<and> Message_Digest c2 = digest_of (sha1 [97, 98, 99])"
  using SHA1_correct[of blank "[[97], [98, 99]]"] by (auto simp: blank_def)

end
