(* ===== verification/Config.thy ===== *)
theory Config
  imports Firewall Routing
begin

text \<open>
  The files the router reads at its start: the routing table (\<^verbatim>\<open>sr_load_rt\<close> in \<^verbatim>\<open>sr_rt.c\<close>), the rules and
  the interface categories of the firewall (\<^verbatim>\<open>fw.c\<close>), line by line, with what the C library makes of a line.
\<close>

section \<open>Lines and fields\<close>

text \<open>A file is its characters. \<^verbatim>\<open>fgets\<close> with room for \<open>n\<close> of them, and the loop over it.\<close>

definition BUFSIZ :: nat where "BUFSIZ = 8192"

fun fgets :: "nat \<Rightarrow> string \<Rightarrow> string" where
  "fgets 0 f = []"
| "fgets n [] = []"
| "fgets (Suc n) (c # f) = c # (if c = CHR 0x0A then [] else fgets n f)"

lemma length_fgets: "length (fgets n f) \<le> n"
  by (induction n f rule: fgets.induct) auto

function file_lines :: "string \<Rightarrow> string list" where
  "file_lines f =
     (if f = [] then [] else let l = fgets (BUFSIZ - 1) f in l # file_lines (drop (length l) f))"
  by pat_completeness auto
termination
proof (relation "measure length")
  fix f l :: string
  assume "f \<noteq> []" and l: "l = fgets (BUFSIZ - 1) f"
  then obtain c f' where "f = c # f'" by (cases f) auto
  then have "l \<noteq> []" "f \<noteq> []" using l by (simp_all add: BUFSIZ_def eval_nat_numeral)
  then show "(drop (length l) f, f) \<in> measure length" by simp
qed simp

declare file_lines.simps [simp del]

definition isspace :: "char \<Rightarrow> bool" where
  "isspace c \<longleftrightarrow> c \<in> {CHR '' '', CHR 0x09, CHR 0x0A, CHR 0x0B, CHR 0x0C, CHR 0x0D}"

definition isdigit :: "char \<Rightarrow> bool" where
  "isdigit c \<longleftrightarrow> 48 \<le> (of_char c :: nat) \<and> (of_char c :: nat) \<le> 57"

definition digit_val :: "char \<Rightarrow> nat" where "digit_val c = of_char c - 48"

definition number :: "nat \<Rightarrow> (char \<Rightarrow> nat) \<Rightarrow> string \<Rightarrow> nat" where
  "number base val ds = foldl (\<lambda>n c. base * n + val c) 0 ds"

text \<open>
  \<^verbatim>\<open>sscanf\<close> reads a line up to a NUL. Each \<^verbatim>\<open>%s\<close> takes a word into a buffer of 32 bytes, each \<^verbatim>\<open>%u\<close> a number
  with a sign; the first that finds nothing ends the call and leaves its variable, and those
  behind it, as they were.
\<close>

definition scan_s :: "string \<Rightarrow> (string \<times> string) option" where
  "scan_s l =
     (let s = dropWhile isspace l
      in if s = [] then None else Some (takeWhile (\<lambda>c. \<not> isspace c) s, dropWhile (\<lambda>c. \<not> isspace c) s))"

fun scan_strings :: "string list \<Rightarrow> string \<Rightarrow> (string list \<times> string option) result" where
  "scan_strings [] l = Inr ([], Some l)"
| "scan_strings (b # bs) l =
     (case scan_s l of
        None \<Rightarrow> Inr (b # bs, None)
      | Some (t, r) \<Rightarrow>
          if 32 \<le> length t then Inl Out_of_bounds
          else rbind (scan_strings bs r) (\<lambda>(bs', r'). Inr (t # bs', r')))"

definition scan_u :: "string \<Rightarrow> (u32 \<times> string) option" where
  "scan_u l =
     (let s = dropWhile isspace l;
          neg = (s \<noteq> [] \<and> hd s = CHR ''-'');
          s1 = (if s \<noteq> [] \<and> hd s \<in> {CHR ''-'', CHR ''+''} then tl s else s);
          n = number 10 digit_val (takeWhile isdigit s1)
      in if takeWhile isdigit s1 = [] then None
         else Some (if 2 ^ 64 \<le> n then - 1 else if neg then - of_nat n else of_nat n, dropWhile isdigit s1))"

fun scan_nums :: "u32 list \<Rightarrow> string \<Rightarrow> u32 list" where
  "scan_nums [] l = []"
| "scan_nums (v # vs) l = (case scan_u l of None \<Rightarrow> v # vs | Some (w, r) \<Rightarrow> w # scan_nums vs r)"

definition c_line :: "string \<Rightarrow> string" where "c_line l = takeWhile (\<lambda>c. c \<noteq> CHR 0x00) l"

section \<open>Addresses\<close>

text \<open>
  \<^verbatim>\<open>inet_aton\<close>: one to four numbers, decimal, octal or hexadecimal as in C, with dots between them; all but
  the last fit a byte, and the last fills what is left.
\<close>

definition isodigit :: "char \<Rightarrow> bool" where
  "isodigit c \<longleftrightarrow> 48 \<le> (of_char c :: nat) \<and> (of_char c :: nat) \<le> 55"

definition hex_val :: "char \<Rightarrow> nat" where
  "hex_val c =
     (if isdigit c then digit_val c
      else if (97 :: nat) \<le> of_char c then of_char c - 87 else of_char c - 55)"

definition isxdigit :: "char \<Rightarrow> bool" where
  "isxdigit c \<longleftrightarrow> isdigit c \<or> (of_char c :: nat) \<in> {65..70} \<or> (of_char c :: nat) \<in> {97..102}"

definition strtoul :: "string \<Rightarrow> nat \<times> string" where
  "strtoul s =
     (let oct = (number 8 digit_val (takeWhile isodigit s), dropWhile isodigit s)
      in if s \<noteq> [] \<and> hd s = CHR ''0'' then
           (case tl s of
              x # h # r \<Rightarrow>
                if x \<in> {CHR ''x'', CHR ''X''} \<and> isxdigit h
                then (number 16 hex_val (takeWhile isxdigit (h # r)), dropWhile isxdigit (h # r)) else oct
            | _ \<Rightarrow> oct)
         else (number 10 digit_val (takeWhile isdigit s), dropWhile isdigit s))"

definition max_part :: "nat \<Rightarrow> nat" where "max_part parts = 2 ^ (8 * (4 - parts)) - 1"

definition assemble :: "u8 list \<Rightarrow> nat \<Rightarrow> u32" where
  "assemble bs v =
     (let b = bs @ replicate (4 - length bs) 0
      in load32 (b ! 0) (b ! 1) (b ! 2) (b ! 3) OR htonl (of_nat v))"

primrec aton_loop :: "nat \<Rightarrow> u8 list \<Rightarrow> string \<Rightarrow> u32 option" where
  "aton_loop 0 bs s = None"
| "aton_loop (Suc k) bs s =
     (if s = [] \<or> \<not> isdigit (hd s) then None
      else
        let (v, r) = strtoul s
        in if 0xFFFFFFFF < v then None
           else if r \<noteq> [] \<and> hd r = CHR ''.'' then
             (if 3 \<le> length bs \<or> 255 < v then None else aton_loop k (bs @ [of_nat v]) (tl r))
           else if r \<noteq> [] \<and> \<not> isspace (hd r) then None
           else if max_part (length bs) < v then None
           else Some (assemble bs v))"

text \<open>Each round but the last adds a part, and no more than three are added: four rounds suffice.\<close>

definition inet_aton :: "string \<Rightarrow> u32 option" where "inet_aton s = aton_loop 4 [] s"

fun dec :: "nat \<Rightarrow> string" where
  "dec n = (if n < 10 then [char_of (48 + n)] else dec (n div 10) @ [char_of (48 + n mod 10)])"

declare dec.simps [simp del]

definition inet_ntoa :: "u32 \<Rightarrow> string" where
  "inet_ntoa x =
     dec (unat (ucast x :: u8)) @ ''.'' @ dec (unat (ucast (drop_bit 8 x) :: u8)) @ ''.'' @
     dec (unat (ucast (drop_bit 16 x) :: u8)) @ ''.'' @ dec (unat (ucast (drop_bit 24 x) :: u8))"

section \<open>The three files\<close>

text \<open>
  The loop of \<^verbatim>\<open>sr_load_rt\<close> with its four buffers, which are not cleared between the lines; at first
  they hold what the stack held.
\<close>

fun load_rt_lines :: "string list \<Rightarrow> string list \<Rightarrow> sr_rt list \<Rightarrow> (int \<times> sr_rt list) result" where
  "load_rt_lines bufs [] rt = Inr (0, rt)"
| "load_rt_lines bufs (l # ls) rt =
     rbind (scan_strings bufs (c_line l)) (\<lambda>(bs, _).
       case (inet_aton (bs ! 0), inet_aton (bs ! 1), inet_aton (bs ! 2)) of
         (Some dest, Some gw, Some msk) \<Rightarrow> load_rt_lines bs ls (sr_add_rt_entry rt dest gw msk (bs ! 3))
       | _ \<Rightarrow> Inr (- 1, rt))"

definition sr_load_rt :: "string list \<Rightarrow> string option \<Rightarrow> sr_rt list \<Rightarrow> (int \<times> sr_rt list) result" where
  "sr_load_rt junk f rt =
     (case f of None \<Rightarrow> Inr (- 1, rt) | Some content \<Rightarrow> load_rt_lines junk (file_lines content) rt)"

definition sr_print_routing_entry :: "sr_rt \<Rightarrow> string" where
  "sr_print_routing_entry r =
     inet_ntoa (rt_dest r) @ [CHR 0x09, CHR 0x09] @ inet_ntoa (rt_gw r) @ [CHR 0x09] @
     inet_ntoa (rt_mask r) @ [CHR 0x09] @ rt_interface r @ [CHR 0x0A]"

fun load_rule_lines :: "string list \<Rightarrow> u32 list \<Rightarrow> string list \<Rightarrow> firewall \<Rightarrow> (bool \<times> firewall) result" where
  "load_rule_lines bufs nums [] fw = Inr (True, fw)"
| "load_rule_lines bufs nums (l # ls) fw =
     rbind (scan_strings bufs (c_line l)) (\<lambda>(bs, r).
       let ns = (case r of Some s \<Rightarrow> scan_nums nums s | None \<Rightarrow> nums)
       in case (inet_aton (bs ! 0), inet_aton (bs ! 1)) of
            (Some src, Some dst) \<Rightarrow>
              load_rule_lines bs ns ls
                (add_rule fw \<lparr>c_ip_s = src, c_ip_d = dst, c_protocol = ucast (ns ! 0),
                              c_port_s = ucast (ns ! 1), c_port_d = ucast (ns ! 2)\<rparr>)
          | _ \<Rightarrow> Inr (False, fw))"

definition init_rules_table :: "string list \<Rightarrow> u32 list \<Rightarrow> string option \<Rightarrow> firewall \<Rightarrow> (bool \<times> firewall) result" where
  "init_rules_table junk nums f fw =
     (case f of None \<Rightarrow> Inr (False, fw) | Some content \<Rightarrow> load_rule_lines junk nums (file_lines content) fw)"

fun scan_if_lines :: "string list \<Rightarrow> string list \<Rightarrow> (string \<times> string) list result" where
  "scan_if_lines bufs [] = Inr []"
| "scan_if_lines bufs (l # ls) =
     rbind (scan_strings bufs (c_line l)) (\<lambda>(bs, _).
     rbind (scan_if_lines bs ls) (\<lambda>ps. Inr ((bs ! 0, bs ! 1) # ps)))"

definition init_if_config_file :: "string list \<Rightarrow> string option \<Rightarrow> firewall \<Rightarrow> (bool \<times> firewall) result" where
  "init_if_config_file junk f fw =
     (case f of
        None \<Rightarrow> Inr (False, fw)
      | Some content \<Rightarrow> rbind (scan_if_lines junk (file_lines content)) (\<lambda>ls. Inr (True, init_if_config ls fw)))"

section \<open>Numbers and addresses, printed and read\<close>

lemma of_char_digit: "d < 10 \<Longrightarrow> of_char (char_of (48 + d) :: char) = (48 + d :: nat)"
  by simp

lemma char_0: "char_of (48 :: nat) = CHR ''0''"
  by code_simp

lemma char_digit: "d < 10 \<Longrightarrow> isdigit (char_of (48 + d))" "d < 10 \<Longrightarrow> digit_val (char_of (48 + d)) = d"
  by (simp_all add: isdigit_def digit_val_def of_char_digit)

lemma number_snoc: "number b v (ds @ [c]) = b * number b v ds + v c"
  by (simp add: number_def)

lemma dec_facts:
  "dec n \<noteq> [] \<and> (\<forall>c \<in> set (dec n). isdigit c) \<and> number 10 digit_val (dec n) = n \<and>
   (0 < n \<longrightarrow> hd (dec n) \<noteq> CHR ''0'')"
proof (induction n rule: dec.induct)
  case (1 n)
  show ?case
  proof (cases "n < 10")
    case True
    have "(of_char (char_of (48 + n) :: char) :: nat) \<noteq> of_char CHR ''0''" if "0 < n"
      using that of_char_digit[OF True] by simp
    then have "0 < n \<longrightarrow> (char_of (48 + n) :: char) \<noteq> CHR ''0''" by metis
    then show ?thesis using True char_digit[OF True] by (simp add: dec.simps[of n] number_def)
  next
    case False
    have m: "n mod 10 < 10" by simp
    have "dec n = dec (n div 10) @ [char_of (48 + n mod 10)]" using False by (simp add: dec.simps[of n])
    then show ?thesis using 1[OF False] False char_digit[OF m] by (simp add: number_snoc)
  qed
qed

lemma digits_then:
  assumes "\<forall>c \<in> set ds. P c" "s = [] \<or> \<not> P (hd s)"
  shows "takeWhile P (ds @ s) = ds" "dropWhile P (ds @ s) = s"
  using assms by (cases s; auto)+

lemma strtoul_dec:
  assumes "s = [] \<or> \<not> isdigit (hd s) \<and> hd s \<notin> {CHR ''x'', CHR ''X''}"
  shows "strtoul (dec n @ s) = (n, s)"
proof (cases "n = 0")
  case True
  then have d: "dec n = [CHR ''0'']" by (simp add: dec.simps char_0)
  have "\<not> isodigit c" if "\<not> isdigit c" for c using that by (auto simp: isodigit_def isdigit_def)
  then have tw: "takeWhile isodigit ([CHR ''0''] @ s) = [CHR ''0'']" "dropWhile isodigit ([CHR ''0''] @ s) = s"
    using assms by (intro digits_then; auto simp: isodigit_def)+
  moreover have "number 8 digit_val ''0'' = 0" by (simp add: number_def digit_val_def)
  ultimately have "strtoul ([CHR ''0''] @ s) = (0, s)"
    unfolding strtoul_def tw Let_def using assms by (simp split: list.split) auto
  then show ?thesis using True d by simp
next
  case False
  then have "hd (dec n @ s) \<noteq> CHR ''0''" using dec_facts[of n] by simp
  moreover have "takeWhile isdigit (dec n @ s) = dec n" "dropWhile isdigit (dec n @ s) = s"
    using dec_facts[of n] assms by (intro digits_then; auto)+
  ultimately show ?thesis using dec_facts[of n] by (simp add: strtoul_def)
qed

lemma hd_dec: "hd (dec n @ s) = hd (dec n) \<and> isdigit (hd (dec n))"
  using dec_facts[of n] by auto

lemma aton_part:
  assumes "n \<le> 255" "length bs < 3"
  shows "aton_loop (Suc k) bs (dec n @ CHR ''.'' # s) = aton_loop k (bs @ [of_nat n]) s"
proof -
  have "strtoul (dec n @ CHR ''.'' # s) = (n, CHR ''.'' # s)" by (rule strtoul_dec) (simp add: isdigit_def)
  then show ?thesis using assms hd_dec[of n "CHR ''.'' # s"] dec_facts[of n] by simp
qed

lemma aton_last:
  assumes "n \<le> 255" "length bs = 3"
  shows "aton_loop (Suc k) bs (dec n) = Some (assemble bs n)"
proof -
  have "strtoul (dec n @ []) = (n, [])" by (rule strtoul_dec) simp
  then show ?thesis using assms hd_dec[of n "[]"] dec_facts[of n] by (simp add: max_part_def)
qed

lemma inet_aton_ntoa: "inet_aton (inet_ntoa x) = Some x"
proof -
  let ?a = "ucast x :: u8" and ?b = "ucast (drop_bit 8 x) :: u8" and ?c = "ucast (drop_bit 16 x) :: u8"
    and ?d = "ucast (drop_bit 24 x) :: u8"
  have l: "unat w \<le> 255" for w :: u8 using unat_u8_less[of w] by simp
  have "inet_aton (inet_ntoa x) = Some (assemble [?a, ?b, ?c] (unat ?d))"
    using l aton_last[of "unat ?d" "[?a, ?b, ?c]" 0]
    by (simp add: inet_aton_def inet_ntoa_def aton_part numeral_eq_Suc del: aton_loop.simps)
  moreover have "htonl (of_nat (unat ?d)) = load32 0 0 0 ?d"
  proof -
    have "(of_nat (unat ?d) :: u32) = load32 ?d 0 0 0" by (simp add: load32_def of_nat_unat)
    then show ?thesis by (simp add: ntohl_def)
  qed
  then have "assemble [?a, ?b, ?c] (unat ?d) = load32 ?a ?b ?c ?d"
    by (simp add: assemble_def load32_def or.assoc)
  ultimately show ?thesis by simp
qed

section \<open>A line of words\<close>

definition plain :: "string \<Rightarrow> bool" where
  "plain t \<longleftrightarrow> t \<noteq> [] \<and> length t \<le> 31 \<and> (\<forall>c \<in> set t. \<not> isspace c \<and> c \<noteq> CHR 0x00)"

definition blank_str :: "string \<Rightarrow> bool" where "blank_str s \<longleftrightarrow> (\<forall>c \<in> set s. isspace c)"

lemma isspace_consts [simp]: "isspace CHR 0x09" "isspace CHR 0x0A" "\<not> isspace CHR ''.''"
  by (simp_all add: isspace_def)

lemma not_digit_space: "isdigit c \<Longrightarrow> \<not> isspace c \<and> c \<noteq> CHR 0x00"
  by (auto simp: isspace_def isdigit_def)

lemma length_dec: "n < 1000 \<Longrightarrow> length (dec n) \<le> 3"
  by (simp add: dec.simps[of n] dec.simps[of "n div 10"] dec.simps[of "n div 10 div 10"])

lemma plain_ntoa: "plain (inet_ntoa x)"
proof -
  have "length (dec (unat w)) \<le> 3" for w :: u8
    by (rule length_dec) (use unat_u8_less[of w] in simp)
  note l = add_mono[OF add_mono[OF this[of "ucast x"] this[of "ucast (drop_bit 8 x)"]]
      add_mono[OF this[of "ucast (drop_bit 16 x)"] this[of "ucast (drop_bit 24 x)"]]]
  have "\<not> isspace c \<and> c \<noteq> CHR 0x00" if "c \<in> set (dec n)" for c n
    using dec_facts[of n] that not_digit_space by blast
  then show ?thesis using l by (auto simp: plain_def inet_ntoa_def)
qed

lemma scan_word:
  assumes "plain t" "blank_str ws" "s \<noteq> []" "isspace (hd s)"
  shows "scan_s (ws @ t @ s) = Some (t, s)"
proof -
  obtain c t' where t: "t = c # t'" using assms(1) by (cases t) (auto simp: plain_def)
  have "dropWhile isspace (ws @ t @ s) = t @ s"
    using digits_then(2)[of ws isspace "t @ s"] assms(1,2) t by (auto simp: blank_str_def plain_def)
  moreover have "takeWhile (\<lambda>c. \<not> isspace c) (t @ s) = t" "dropWhile (\<lambda>c. \<not> isspace c) (t @ s) = s"
    using assms by (intro digits_then; auto simp: plain_def)+
  ultimately show ?thesis using t by (simp add: scan_s_def Let_def)
qed

lemma scan_strings_word:
  assumes "plain t" "blank_str ws" "s \<noteq> []" "isspace (hd s)"
  shows "scan_strings (b # bs) (ws @ t @ s) = rbind (scan_strings bs s) (\<lambda>(bs', r). Inr (t # bs', r))"
  using scan_word[OF assms] assms(1) by (simp add: plain_def)

lemma scan_blank: "blank_str s \<Longrightarrow> scan_strings (b # bs) s = Inr (b # bs, None)"
  by (simp add: scan_s_def blank_str_def)

text \<open>A file whose lines end as they should is read line by line.\<close>

lemma fgets_line: "CHR 0x0A \<notin> set l \<Longrightarrow> length l < n \<Longrightarrow> fgets n (l @ CHR 0x0A # f) = l @ [CHR 0x0A]"
proof (induction l arbitrary: n)
  case Nil
  then show ?case by (cases n) simp_all
next
  case (Cons c l)
  then show ?case by (cases n) auto
qed

lemma file_lines_line:
  assumes "CHR 0x0A \<notin> set l" "length l < 8191"
  shows "file_lines (l @ CHR 0x0A # f) = (l @ [CHR 0x0A]) # file_lines f"
  by (subst file_lines.simps) (simp add: BUFSIZ_def fgets_line assms)

section \<open>The routing table, printed and read\<close>

definition named :: "sr_rt \<Rightarrow> bool" where "named r \<longleftrightarrow> plain (rt_interface r)"

lemma entry_line:
  assumes "named r"
  shows "\<exists>l. sr_print_routing_entry r = l @ [CHR 0x0A] \<and> CHR 0x0A \<notin> set l \<and> length l < 8191 \<and>
     c_line (l @ [CHR 0x0A]) = l @ [CHR 0x0A] \<and>
     (\<forall>a b c d. scan_strings [a, b, c, d] (l @ [CHR 0x0A]) =
        Inr ([inet_ntoa (rt_dest r), inet_ntoa (rt_gw r), inet_ntoa (rt_mask r), rt_interface r], Some [CHR 0x0A]))"
proof -
  let ?t = "[CHR 0x09]" and ?n = "[CHR 0x0A]"
  let ?d = "inet_ntoa (rt_dest r)" and ?g = "inet_ntoa (rt_gw r)" and ?m = "inet_ntoa (rt_mask r)" and ?i = "rt_interface r"
  let ?l = "?d @ [CHR 0x09, CHR 0x09] @ ?g @ ?t @ ?m @ ?t @ ?i"
  have w: "plain ?d" "plain ?g" "plain ?m" "plain ?i" using plain_ntoa assms by (simp_all add: named_def)
  have bl: "blank_str []" "blank_str ?t" "blank_str [CHR 0x09, CHR 0x09]" by (simp_all add: blank_str_def)
  have "scan_strings [a, b, c, d] (?l @ ?n) = Inr ([?d, ?g, ?m, ?i], Some ?n)" for a b c d
    using scan_strings_word[OF w(1) bl(1), of "[CHR 0x09, CHR 0x09] @ ?g @ ?t @ ?m @ ?t @ ?i @ ?n" a "[b, c, d]"]
      scan_strings_word[OF w(2) bl(3), of "?t @ ?m @ ?t @ ?i @ ?n" b "[c, d]"]
      scan_strings_word[OF w(3) bl(2), of "?t @ ?i @ ?n" c "[d]"]
      scan_strings_word[OF w(4) bl(2), of ?n d "[]"]
    by simp
  moreover have p: "CHR 0x0A \<notin> set t \<and> CHR 0x00 \<notin> set t \<and> length t \<le> 31" if "plain t" for t
    using that isspace_consts(2) unfolding plain_def by blast
  have "length ?l < 8191" using p[OF w(1)] p[OF w(2)] p[OF w(3)] p[OF w(4)] by simp
  moreover have "CHR 0x0A \<notin> set ?l" "CHR 0x00 \<notin> set ?l"
    using p[OF w(1)] p[OF w(2)] p[OF w(3)] p[OF w(4)] by simp_all
  moreover from this(2) have "c_line (?l @ ?n) = ?l @ ?n"
    unfolding c_line_def by (intro takeWhile_eq_all_conv[THEN iffD2]) auto
  moreover have "sr_print_routing_entry r = ?l @ ?n" by (simp add: sr_print_routing_entry_def)
  ultimately show ?thesis by (intro exI[of _ ?l]) auto
qed

lemma read_entry:
  assumes "named r" "length bufs = 4"
  shows "\<exists>bufs'. length bufs' = 4 \<and> bufs' = [inet_ntoa (rt_dest r), inet_ntoa (rt_gw r), inet_ntoa (rt_mask r), rt_interface r] \<and>
     load_rt_lines bufs (file_lines (sr_print_routing_entry r @ f)) rt = load_rt_lines bufs' (file_lines f) (rt @ [r])"
proof -
  obtain l where l: "sr_print_routing_entry r = l @ [CHR 0x0A]" "CHR 0x0A \<notin> set l" "length l < 8191"
     "c_line (l @ [CHR 0x0A]) = l @ [CHR 0x0A]"
     "\<forall>a b c d. scan_strings [a, b, c, d] (l @ [CHR 0x0A]) =
        Inr ([inet_ntoa (rt_dest r), inet_ntoa (rt_gw r), inet_ntoa (rt_mask r), rt_interface r], Some [CHR 0x0A])"
    using entry_line[OF assms(1)] by blast
  obtain a b c d where "bufs = [a, b, c, d]"
    using assms(2) by (auto simp: numeral_eq_Suc length_Suc_conv)
  moreover have "rt_interface r = strncpy_name (rt_interface r)"
    using assms(1) by (simp add: named_def plain_def sr_IFACE_NAMELEN_def)
  then have "sr_add_rt_entry rt (rt_dest r) (rt_gw r) (rt_mask r) (rt_interface r) = rt @ [r]"
    by (simp add: sr_add_rt_entry_def)
  ultimately show ?thesis
    using l by (simp add: file_lines_line inet_aton_ntoa)
qed

lemma read_entries:
  assumes "\<forall>r \<in> set rs. named r" "length bufs = 4"
  shows "\<exists>bufs'. length bufs' = 4 \<and>
     (rs \<noteq> [] \<longrightarrow> bufs' = [inet_ntoa (rt_dest (last rs)), inet_ntoa (rt_gw (last rs)), inet_ntoa (rt_mask (last rs)),
        rt_interface (last rs)]) \<and>
     load_rt_lines bufs (file_lines (concat (map sr_print_routing_entry rs) @ f)) rt =
     load_rt_lines bufs' (file_lines f) (rt @ rs)"
  using assms
proof (induction rs arbitrary: bufs rt)
  case (Cons r rs)
  obtain b1 where b1: "length b1 = 4"
      "b1 = [inet_ntoa (rt_dest r), inet_ntoa (rt_gw r), inet_ntoa (rt_mask r), rt_interface r]"
      "load_rt_lines bufs (file_lines (sr_print_routing_entry r @ concat (map sr_print_routing_entry rs) @ f)) rt =
       load_rt_lines b1 (file_lines (concat (map sr_print_routing_entry rs) @ f)) (rt @ [r])"
    using read_entry[of r bufs] Cons.prems by auto
  obtain b2 where "length b2 = 4"
      "rs \<noteq> [] \<longrightarrow> b2 = [inet_ntoa (rt_dest (last rs)), inet_ntoa (rt_gw (last rs)), inet_ntoa (rt_mask (last rs)),
        rt_interface (last rs)]"
      "load_rt_lines b1 (file_lines (concat (map sr_print_routing_entry rs) @ f)) (rt @ [r]) =
       load_rt_lines b2 (file_lines f) ((rt @ [r]) @ rs)" "rs = [] \<longrightarrow> b2 = b1"
    using Cons.IH[OF _ b1(1), of "rt @ [r]"] Cons.prems(1) b1(1) by (cases "rs = []") auto
  then show ?case using b1 by (intro exI[of _ b2]) (cases "rs = []"; simp)
qed auto

lemma routing_table_read_ok:
  assumes "\<forall>r \<in> set rt. plain (rt_interface r)" "length junk = 4"
  shows "sr_load_rt junk (Some (concat (map sr_print_routing_entry rt))) [] = Inr (0, rt) \<and>
     (rt \<noteq> [] \<longrightarrow>
        sr_load_rt junk (Some (concat (map sr_print_routing_entry rt) @ [CHR 0x0A])) [] = Inr (0, rt @ [last rt]))"
proof -
  have n: "\<forall>r \<in> set rt. named r" using assms(1) by (simp add: named_def)
  have nil: "file_lines [] = []" by (simp add: file_lines.simps)
  have one: "file_lines [CHR 0x0A] = [[CHR 0x0A]]" using file_lines_line[of "[]" "[]"] nil by simp
  have "sr_load_rt junk (Some (concat (map sr_print_routing_entry rt) @ [])) [] = Inr (0, rt)"
    using read_entries[OF n assms(2), of "[]" "[]"] nil by (auto simp: sr_load_rt_def)
  moreover have "sr_load_rt junk (Some (concat (map sr_print_routing_entry rt) @ [CHR 0x0A])) [] = Inr (0, rt @ [last rt])"
    if ne: "rt \<noteq> []"
  proof -
    let ?r = "last rt"
    have "named ?r" using n ne by simp
    then have "rt_interface ?r = strncpy_name (rt_interface ?r)" by (simp add: named_def plain_def sr_IFACE_NAMELEN_def)
    then have "load_rt_lines [inet_ntoa (rt_dest ?r), inet_ntoa (rt_gw ?r), inet_ntoa (rt_mask ?r), rt_interface ?r]
        [[CHR 0x0A]] rt = Inr (0, rt @ [?r])"
      by (simp add: c_line_def scan_s_def inet_aton_ntoa sr_add_rt_entry_def)
    then show ?thesis using read_entries[OF n assms(2), of "[CHR 0x0A]" "[]"] ne one by (auto simp: sr_load_rt_def)
  qed
  ultimately show ?thesis by simp
qed

text \<open>
  The routing table is read as it is printed. Loading a file of printed entries yields exactly
  these entries in order, whatever the buffers held; a blank line behind them is taken for the last entry once
  more, because the buffers are not cleared between the lines.
\<close>
theorem routing_table_read:
  assumes "\<forall>r \<in> set rt. plain (rt_interface r)" "length junk = 4"
  shows "sr_load_rt junk (Some (concat (map sr_print_routing_entry rt))) [] = Inr (0, rt) \<and>
     (rt \<noteq> [] \<longrightarrow>
        sr_load_rt junk (Some (concat (map sr_print_routing_entry rt) @ [CHR 0x0A])) [] = Inr (0, rt @ [last rt]))"
  using assms by (rule routing_table_read_ok)

theorem routing_table_read_witness:
  "\<exists>r. sr_load_rt [[], [], [], []] (Some (sr_print_routing_entry r @ [CHR 0x0A])) [] = Inr (0, [r, r]) \<and>
     rt_interface r = ''eth0''"
  using routing_table_read[of "[\<lparr>rt_dest = 0, rt_gw = 7, rt_mask = 0, rt_interface = ''eth0''\<rparr>]" "[[], [], [], []]"]
  by (intro exI[of _ "\<lparr>rt_dest = 0, rt_gw = 7, rt_mask = 0, rt_interface = ''eth0''\<rparr>"]) (simp add: plain_def isspace_def)

end
