(* ===== verification/Dumper.thy ===== *)
theory Dumper
  imports Link
begin

text \<open>
  The packet log (\<^verbatim>\<open>sr_dumper.c\<close>, \<^verbatim>\<open>sr_log_packet\<close> in \<^verbatim>\<open>sr_vns_comm.c\<close>): a file in the format of
  tcpdump, to which every frame that arrives or is to be sent is appended, cut to 1024 bytes. A log
  is the bytes written so far. The format is stated a second time by a function that reads a file.
\<close>

section \<open>Headers\<close>

definition TCPDUMP_MAGIC :: u32 where "TCPDUMP_MAGIC = 0xa1b2c3d4"
definition PCAP_VERSION_MAJOR :: u16 where "PCAP_VERSION_MAJOR = 2"
definition PCAP_VERSION_MINOR :: u16 where "PCAP_VERSION_MINOR = 4"
definition LINKTYPE_ETHERNET :: u32 where "LINKTYPE_ETHERNET = 1"
definition PACKET_DUMP_SIZE :: int where "PACKET_DUMP_SIZE = 1024"

lemmas pcap_consts = TCPDUMP_MAGIC_def PCAP_VERSION_MAJOR_def PCAP_VERSION_MINOR_def LINKTYPE_ETHERNET_def
  PACKET_DUMP_SIZE_def

record pcap_file_header =
  magic :: u32
  version_major :: u16
  version_minor :: u16
  thiszone :: int
  sigfigs :: u32
  snaplen :: u32
  linktype :: u32

text \<open>Seconds and microseconds since the epoch, and a captured packet's header.\<close>

record timeval =
  tv_sec :: int
  tv_usec :: int

record pcap_pkthdr =
  ph_ts :: timeval
  ph_caplen :: u32
  ph_len :: u32

text \<open>The bytes of a structure; an \<^verbatim>\<open>int\<close> of 32 bits holds what is left of a longer number.\<close>

definition file_header_bytes :: "pcap_file_header \<Rightarrow> bytes" where
  "file_header_bytes h =
     store32 (magic h) @ store16 (version_major h) @ store16 (version_minor h) @ store32 (word_of_int (thiszone h)) @
     store32 (sigfigs h) @ store32 (snaplen h) @ store32 (linktype h)"

definition pcap_sf_pkthdr :: "pcap_pkthdr \<Rightarrow> bytes" where
  "pcap_sf_pkthdr h =
     store32 (word_of_int (tv_sec (ph_ts h))) @ store32 (word_of_int (tv_usec (ph_ts h))) @
     store32 (ph_caplen h) @ store32 (ph_len h)"

section \<open>Writing\<close>

definition sf_write_header :: "u32 \<Rightarrow> int \<Rightarrow> u32 \<Rightarrow> bytes" where
  "sf_write_header link zone snap =
     file_header_bytes \<lparr>magic = TCPDUMP_MAGIC, version_major = PCAP_VERSION_MAJOR,
       version_minor = PCAP_VERSION_MINOR, thiszone = zone, sigfigs = 0, snaplen = snap, linktype = link\<rparr>"

text \<open>\<open>can_open\<close> says which files \<^verbatim>\<open>fopen\<close> opens for writing; the name \<^verbatim>\<open>-\<close> is the standard output.\<close>

definition sr_dump_open :: "(string \<Rightarrow> bool) \<Rightarrow> string \<Rightarrow> int \<Rightarrow> u32 \<Rightarrow> bytes option" where
  "sr_dump_open can_open fname zone snap =
     (if fname = ''-'' \<or> can_open fname then Some (sf_write_header LINKTYPE_ETHERNET zone snap) else None)"

definition sr_dump :: "pcap_pkthdr \<Rightarrow> bytes \<Rightarrow> bytes \<Rightarrow> bytes result" where
  "sr_dump h sp fp =
     rbind (get_bytes 0 (unat (ph_caplen h)) sp) (\<lambda>d. Inr (fp @ pcap_sf_pkthdr h @ d))"

text \<open>\<open>len\<close> is an \<^verbatim>\<open>int\<close>: with a negative one the number of bytes to write wraps.\<close>

definition sr_log_packet :: "timeval \<Rightarrow> bytes \<Rightarrow> int \<Rightarrow> bytes option \<Rightarrow> bytes option result" where
  "sr_log_packet tv buf len logfile =
     (case logfile of
        None \<Rightarrow> Inr None
      | Some fp \<Rightarrow>
          let sz = min PACKET_DUMP_SIZE len;
              h = \<lparr>ph_ts = tv, ph_caplen = word_of_int sz,
                   ph_len = word_of_int (if sz < PACKET_DUMP_SIZE then sz else PACKET_DUMP_SIZE)\<rparr>
          in rbind (sr_dump h buf fp) (\<lambda>fp'. Inr (Some fp')))"

text \<open>
  \<^verbatim>\<open>sr_send_packet\<close> with its entry in the log, which is made before the source address is looked at.
\<close>

definition sr_send_packet_logged ::
  "sr_if list \<Rightarrow> timeval \<Rightarrow> bytes \<Rightarrow> nat \<Rightarrow> string \<Rightarrow> bytes option \<Rightarrow> (frame list \<times> bytes option) result" where
  "sr_send_packet_logged ifs tv buf len iface logfile =
     (if len < ETHER_HDR_LEN then Inr ([], logfile)
      else if length buf < len then Inl Out_of_bounds
      else rbind (sr_log_packet tv buf (sint (of_nat len :: u32)) logfile) (\<lambda>logfile'.
        Inr (if sr_ether_addrs_match_interface ifs buf iface then [(iface, take len buf)] else [], logfile')))"

section \<open>Reading a log\<close>

definition value16 :: "bytes \<Rightarrow> u16" where "value16 b = load16 (b ! 0) (b ! 1)"

definition int32 :: "bytes \<Rightarrow> int" where "int32 b = sint (value32 b)"

definition read_file_header :: "bytes \<Rightarrow> pcap_file_header option" where
  "read_file_header b =
     (if length b < 24 then None
      else Some \<lparr>magic = value32 b, version_major = value16 (drop 4 b), version_minor = value16 (drop 6 b),
        thiszone = int32 (drop 8 b), sigfigs = value32 (drop 12 b), snaplen = value32 (drop 16 b),
        linktype = value32 (drop 20 b)\<rparr>)"

definition read_pkthdr :: "bytes \<Rightarrow> pcap_pkthdr" where
  "read_pkthdr b =
     \<lparr>ph_ts = \<lparr>tv_sec = int32 b, tv_usec = int32 (drop 4 b)\<rparr>, ph_caplen = value32 (drop 8 b), ph_len = value32 (drop 12 b)\<rparr>"

function read_records :: "bytes \<Rightarrow> (pcap_pkthdr \<times> bytes) list option" where
  "read_records b =
     (if b = [] then Some []
      else if length b < 16 then None
      else
        let h = read_pkthdr b; n = unat (ph_caplen h)
        in if length b < 16 + n then None
           else map_option (\<lambda>rs. (h, take n (drop 16 b)) # rs) (read_records (drop (16 + n) b)))"
  by pat_completeness auto
termination by (relation "measure length") auto

declare read_records.simps [simp del]

definition read_log :: "bytes \<Rightarrow> (pcap_file_header \<times> (pcap_pkthdr \<times> bytes) list) option" where
  "read_log b =
     (case (read_file_header b, read_records (drop 24 b)) of
        (Some h, Some rs) \<Rightarrow> Some (h, rs) | _ \<Rightarrow> None)"

section \<open>What is written is what is read\<close>

lemma value16_store [simp]: "value16 (store16 x @ r) = x"
  by (simp add: value16_def store16_def)

lemma value32_store_app [simp]: "value32 (store32 x @ r) = x" "value32 (store32 x) = x"
  by (simp_all add: value32_def store32_def)

definition fits32 :: "int \<Rightarrow> bool" where "fits32 i \<longleftrightarrow> - (2 ^ 31) \<le> i \<and> i < 2 ^ 31"

lemma sint_fits32: "fits32 i \<Longrightarrow> sint (word_of_int i :: u32) = i"
  by (simp add: fits32_def signed_of_int signed_take_bit_int_eq_self)

lemma int32_store [simp]: "fits32 i \<Longrightarrow> int32 (store32 (word_of_int i) @ r) = i"
  by (simp add: int32_def sint_fits32)

lemma drop_store [simp]:
  "drop 4 (store32 x @ r) = r" "drop 2 (store16 y @ r) = r"
  "4 \<le> n \<Longrightarrow> drop n (store32 x @ r) = drop (n - 4) r" "2 \<le> n \<Longrightarrow> drop n (store16 y @ r) = drop (n - 2) r"
  by simp_all

lemma length_sf_pkthdr [simp]: "length (pcap_sf_pkthdr h) = 16"
  by (simp add: pcap_sf_pkthdr_def)

lemma read_sf_header:
  assumes "fits32 zone"
  shows "read_file_header (sf_write_header link zone snap @ r) =
    Some \<lparr>magic = TCPDUMP_MAGIC, version_major = 2, version_minor = 4, thiszone = zone, sigfigs = 0,
      snaplen = snap, linktype = link\<rparr>"
    and "drop 24 (sf_write_header link zone snap @ r) = r"
  using assms by (simp_all add: sf_write_header_def file_header_bytes_def read_file_header_def pcap_consts)

definition timed :: "timeval \<Rightarrow> bool" where "timed tv \<longleftrightarrow> fits32 (tv_sec tv) \<and> fits32 (tv_usec tv)"

lemma read_pkthdr_bytes: "timed (ph_ts h) \<Longrightarrow> read_pkthdr (pcap_sf_pkthdr h @ r) = h"
  by (simp add: read_pkthdr_def pcap_sf_pkthdr_def timed_def)

lemma read_record:
  assumes "timed (ph_ts h)" "length d = unat (ph_caplen h)"
  shows "read_records (pcap_sf_pkthdr h @ d @ r) = map_option (\<lambda>rs. (h, d) # rs) (read_records r)"
proof -
  have "pcap_sf_pkthdr h \<noteq> []" using length_sf_pkthdr[of h] by (metis length_0_conv zero_neq_numeral)
  then show ?thesis
    using assms read_pkthdr_bytes[OF assms(1), of "d @ r"]
    by (subst read_records.simps) (simp add: Let_def)
qed

text \<open>The entry of one packet: what is kept of it, and both lengths.\<close>

definition log_entry :: "timeval \<Rightarrow> bytes \<Rightarrow> pcap_pkthdr \<times> bytes" where
  "log_entry tv p =
     (\<lparr>ph_ts = tv, ph_caplen = of_nat (min 1024 (length p)), ph_len = of_nat (min 1024 (length p))\<rparr>, take 1024 p)"

lemma sr_log_packet_entry:
  assumes "len = int (length p)"
  shows "sr_log_packet tv (p @ r) len (Some fp) =
    Inr (Some (fp @ pcap_sf_pkthdr (fst (log_entry tv p)) @ snd (log_entry tv p)))"
proof -
  have s: "min PACKET_DUMP_SIZE len = int (min 1024 (length p))" using assms by (simp add: PACKET_DUMP_SIZE_def)
  have "(if min PACKET_DUMP_SIZE len < PACKET_DUMP_SIZE then min PACKET_DUMP_SIZE len else PACKET_DUMP_SIZE) =
      int (min 1024 (length p))" using assms by (simp add: PACKET_DUMP_SIZE_def min_def)
  moreover have "unat (of_nat (min 1024 (length p)) :: u32) = min 1024 (length p)" by (simp add: unat_of_nat min_def)
  moreover have "take (min 1024 (length p)) (p @ r) = take 1024 p" by (simp add: min_def)
  ultimately show ?thesis
    by (simp only: sr_log_packet_def option.case Let_def s sr_dump_def log_entry_def fst_conv snd_conv
        pcap_pkthdr.select_convs of_int_of_nat_eq) simp
qed

text \<open>A log of packets, in the order in which they were logged.\<close>

definition log_all :: "(timeval \<times> bytes) list \<Rightarrow> bytes option \<Rightarrow> bytes option result" where
  "log_all = foldr_res (\<lambda>(tv, p). sr_log_packet tv p (int (length p)))"

definition log_bytes :: "(timeval \<times> bytes) list \<Rightarrow> bytes" where
  "log_bytes ps = concat (map (\<lambda>(tv, p). pcap_sf_pkthdr (fst (log_entry tv p)) @ snd (log_entry tv p)) ps)"

lemma log_all_bytes: "log_all ps (Some fp) = Inr (Some (fp @ log_bytes ps))"
proof (induction ps arbitrary: fp)
  case (Cons x ps)
  obtain tv p where x: "x = (tv, p)" by force
  have "sr_log_packet tv p (int (length p)) (Some fp) =
      Inr (Some (fp @ pcap_sf_pkthdr (fst (log_entry tv p)) @ snd (log_entry tv p)))"
    using sr_log_packet_entry[of "int (length p)" p tv "[]" fp] by simp
  then show ?case using Cons.IH by (simp add: log_all_def log_bytes_def x)
qed (simp add: log_all_def log_bytes_def)

lemma read_log_bytes:
  assumes "\<forall>(tv, p) \<in> set ps. timed tv"
  shows "read_records (log_bytes ps) = Some (map (\<lambda>(tv, p). log_entry tv p) ps)"
  using assms
proof (induction ps)
  case Nil then show ?case by (simp add: log_bytes_def read_records.simps)
next
  case (Cons x ps)
  obtain tv p where x: "x = (tv, p)" by force
  have "timed (ph_ts (fst (log_entry tv p)))" "length (snd (log_entry tv p)) = unat (ph_caplen (fst (log_entry tv p)))"
    using Cons.prems by (auto simp: log_entry_def x unat_of_nat min_def)
  from read_record[OF this, of "log_bytes ps"] Cons show ?case by (simp add: x log_bytes_def)
qed

text \<open>
  C21. The log can be read back. A file that \<^verbatim>\<open>sr_dump_open\<close> began and to which \<^verbatim>\<open>sr_log_packet\<close> appended
  packets of any length is a well-formed capture of an Ethernet: version 2.4, at most 1024 bytes of
  each packet, and of each packet, in order, its time and its first 1024 bytes. The length on the
  wire is recorded only up to 1024 as well.
\<close>
theorem log_read_back:
  assumes "sr_dump_open can_open fname 0 1024 = Some fp" and "\<forall>(tv, p) \<in> set ps. timed tv"
  shows "\<exists>b. log_all ps (Some fp) = Inr (Some b) \<and>
    read_log b = Some
      (\<lparr>magic = TCPDUMP_MAGIC, version_major = 2, version_minor = 4, thiszone = 0, sigfigs = 0, snaplen = 1024,
        linktype = LINKTYPE_ETHERNET\<rparr>,
       map (\<lambda>(tv, p). (\<lparr>ph_ts = tv, ph_caplen = of_nat (min 1024 (length p)), ph_len = of_nat (min 1024 (length p))\<rparr>,
         take 1024 p)) ps)"
proof -
  have fp: "fp = sf_write_header LINKTYPE_ETHERNET 0 1024" using assms(1) by (auto simp: sr_dump_open_def split: if_splits)
  have "fits32 0" by (simp add: fits32_def)
  from read_sf_header[OF this, of LINKTYPE_ETHERNET 1024 "log_bytes ps"] read_log_bytes[OF assms(2)]
  show ?thesis by (simp add: log_all_bytes read_log_def fp log_entry_def[abs_def])
qed

theorem log_read_back_witness:
  "\<exists>b h. log_all [(\<lparr>tv_sec = 100, tv_usec = 7\<rparr>, replicate 2000 5)] (Some (sf_write_header LINKTYPE_ETHERNET 0 1024)) = Inr (Some b) \<and>
     read_log b = Some (h, [(\<lparr>ph_ts = \<lparr>tv_sec = 100, tv_usec = 7\<rparr>, ph_caplen = 1024, ph_len = 1024\<rparr>, replicate 1024 5)])"
  using log_read_back[of "\<lambda>_. True" "''log''" "sf_write_header LINKTYPE_ETHERNET 0 1024" "[(\<lparr>tv_sec = 100, tv_usec = 7\<rparr>, replicate 2000 5)]"]
  by (simp add: sr_dump_open_def timed_def fits32_def) blast

text \<open>
  Sending with a log sends what is sent without one. A frame that is handed over has been logged, and so has
  one that was refused for its source; one shorter than an Ethernet header has not.
\<close>
theorem sr_send_packet_logged_ok:
  assumes "sr_send_packet ifs buf len iface = Inr out" "len < 2 ^ 31"
  shows "sr_send_packet_logged ifs tv buf len iface (Some fp) =
    Inr (out, Some (if len < 14 then fp else fp @ log_bytes [(tv, take len buf)]))"
proof (cases "len < 14")
  case True
  then show ?thesis using assms by (simp add: sr_send_packet_logged_def sr_send_packet_def hdr_lens)
next
  case False
  then have l: "len \<le> length buf" using assms(1) by (auto simp: sr_send_packet_def hdr_lens split: if_splits)
  have "sint (of_nat len :: u32) = int len"
    using sint_fits32[of "int len"] assms(2) by (simp add: fits32_def of_int_of_nat_eq)
  then have "sr_log_packet tv (take len buf @ drop len buf) (sint (of_nat len :: u32)) (Some fp) =
      Inr (Some (fp @ log_bytes [(tv, take len buf)]))"
    using sr_log_packet_entry[of "int len" "take len buf" tv "drop len buf" fp] l by (simp add: log_bytes_def)
  then show ?thesis using assms(1) False l by (simp add: sr_send_packet_logged_def sr_send_packet_def hdr_lens split: if_splits)
qed

end
