(* ===== verification/Vns.thy ===== *)
theory Vns
  imports System Sha1 Config Dumper
begin

text \<open>
  The connection to the virtual network (\<^verbatim>\<open>sr_vns_comm.c\<close>): messages cut out of the byte stream of the
  socket, their dispatch, the authentication, the opening of the session, and the main loop of
  \<^verbatim>\<open>sr_main.c\<close>.
\<close>

section \<open>The socket\<close>

text \<open>
  What the calls of \<^verbatim>\<open>recv\<close> and \<^verbatim>\<open>read\<close> meet, in order: bytes that have arrived (a call takes at most as
  many as it asks for), a signal, an error. Behind the last event the peer has closed the
  connection and every call returns 0.
\<close>

datatype sock_event = Segment bytes | Interrupt | Broken

text \<open>
  The loops that collect \<open>n\<close> bytes. A call that returns 0 counts as progress of 0 bytes, so that
  a closed connection keeps the loop going for ever.
\<close>

fun read_n :: "nat \<Rightarrow> sock_event list \<Rightarrow> (bytes option \<times> sock_event list) result" where
  "read_n 0 s = Inr (Some [], s)"
| "read_n (Suc n) [] = Inl Diverges"
| "read_n (Suc n) (Interrupt # s) = read_n (Suc n) s"
| "read_n (Suc n) (Broken # s) = Inr (None, s)"
| "read_n (Suc n) (Segment b # s) =
     (if length b \<le> Suc n
      then rbind (read_n (Suc n - length b) s) (\<lambda>(r, s'). Inr (map_option ((@) b) r, s'))
      else Inr (Some (take (Suc n) b), Segment (drop (Suc n) b) # s))"

section \<open>State and messages\<close>

text \<open>
  The fields of \<^verbatim>\<open>struct sr_instance\<close> that the session uses. \<open>vs_ready\<close> says that \<^verbatim>\<open>pwospf_init\<close> has
  run: before, the pointer to the PWOSPF subsystem is not initialised. \<open>vs_files\<close> are the files
  written, \<open>vs_out\<close> the messages sent besides frames, \<open>vs_log\<close> what the loop over the messages has
  written to the packet log, if there is one. (What \<^verbatim>\<open>sr_send_packet\<close> adds to the log is modelled with that
  operation, \<open>sr_send_packet_logged\<close>.)
\<close>

record vns_state =
  vs_router :: router_state
  vs_ready :: bool
  vs_user :: string
  vs_host :: string
  vs_template :: string
  vs_topo_id :: u16
  vs_files :: "(string \<times> bytes) list"
  vs_out :: "bytes list"
  vs_log :: "bytes option"

text \<open>
  What one message meets outside: the clock, fresh memory, the files it reads (\<open>None\<close>: it cannot
  be opened), the files that can be written, and whether \<^verbatim>\<open>send\<close> succeeds.
\<close>

record vns_env =
  ve_now :: time
  ve_time :: timeval
  ve_blk :: bytes
  ve_adv :: "nat \<Rightarrow> u32 \<times> int"
  ve_if :: sr_if
  ve_junk :: int
  ve_aid :: u32
  ve_config :: "u32 option list option"
  ve_auth_key :: "string option"
  ve_key_buf :: bytes
  ve_sha :: SHA1Context
  ve_writable :: "string \<Rightarrow> bool"
  ve_send :: bool

definition VNSOPEN :: u32 where "VNSOPEN = 1"
definition VNSCLOSE :: u32 where "VNSCLOSE = 2"
definition VNSPACKET :: u32 where "VNSPACKET = 4"
definition VNSBANNER :: u32 where "VNSBANNER = 8"
definition VNSHWINFO :: u32 where "VNSHWINFO = 16"
definition VNS_RTABLE :: u32 where "VNS_RTABLE = 32"
definition VNS_OPEN_TEMPLATE :: u32 where "VNS_OPEN_TEMPLATE = 64"
definition VNS_AUTH_REQUEST :: u32 where "VNS_AUTH_REQUEST = 128"
definition VNS_AUTH_REPLY :: u32 where "VNS_AUTH_REPLY = 256"
definition VNS_AUTH_STATUS :: u32 where "VNS_AUTH_STATUS = 512"
definition IDSIZE :: nat where "IDSIZE = 32"
definition AUTH_KEY_LEN :: nat where "AUTH_KEY_LEN = 64"
definition SHA1_LEN :: nat where "SHA1_LEN = 20"

lemmas vns_commands = VNSOPEN_def VNSCLOSE_def VNSPACKET_def VNSBANNER_def VNSHWINFO_def VNS_RTABLE_def
  VNS_OPEN_TEMPLATE_def VNS_AUTH_REQUEST_def VNS_AUTH_REPLY_def VNS_AUTH_STATUS_def

text \<open>A C string at \<open>k\<close>, read up to its NUL.\<close>

definition read_string :: "nat \<Rightarrow> bytes \<Rightarrow> string result" where
  "read_string k buf = (if 0 \<in> set (drop k buf) then Inr (c_string (drop k buf)) else Inl Out_of_bounds)"

definition string_bytes :: "string \<Rightarrow> bytes" where
  "string_bytes s = map (\<lambda>c. of_nat (of_char c)) s"

section \<open>Authentication\<close>

text \<open>
  The key buffer: the first line of the file, a NUL, and behind it what the stack held. All 64
  bytes of it are hashed.
\<close>

definition auth_key :: "bytes \<Rightarrow> string \<Rightarrow> bytes" where
  "auth_key junk f = (let l = string_bytes (fgets AUTH_KEY_LEN f) in l @ [0] @ drop (length l + 1) junk)"

definition auth_reply :: "string \<Rightarrow> u32 list \<Rightarrow> bytes" where
  "auth_reply user digest =
     store32 (htonl (of_nat (12 + length user + SHA1_LEN))) @ store32 (htonl VNS_AUTH_REPLY) @
     store32 (htonl (of_nat (length user))) @ string_bytes user @
     concat (map (\<lambda>w. store32 (htonl w)) digest)"

definition sr_handle_auth_request :: "vns_env \<Rightarrow> bytes \<Rightarrow> vns_state \<Rightarrow> (bool \<times> vns_state) result" where
  "sr_handle_auth_request e buf st =
     (case ve_auth_key e of
        None \<Rightarrow> Inr (False, st)
      | Some [] \<Rightarrow> Inr (False, st)
      | Some f \<Rightarrow>
          rbind (SHA1Input (SHA1Reset (ve_sha e)) (drop 8 buf) (length buf - 8)) (\<lambda>c1.
          rbind (SHA1Input c1 (auth_key (ve_key_buf e) f) AUTH_KEY_LEN) (\<lambda>c2.
          rbind (SHA1Result c2) (\<lambda>(ok, c3).
            if \<not> ok \<or> \<not> ve_send e then Inr (False, st)
            else Inr (True, st\<lparr>vs_out := vs_out st @ [auth_reply (vs_user st) (Message_Digest c3)]\<rparr>)))))"

definition sr_handle_auth_status :: "bytes \<Rightarrow> bool result" where
  "sr_handle_auth_status buf =
     rbind (get_bytes 8 1 buf) (\<lambda>b.
       if b ! 0 \<noteq> 0 then Inr True else rbind (read_string 9 buf) (\<lambda>_. Inr False))"

section \<open>The other messages\<close>

text \<open>
  The routing table goes to the file \<^verbatim>\<open>rtable.<host>\<close>, whose name is built in 40 bytes. The number of
  bytes written is an unsigned difference, which wraps for a message without the host field.
\<close>

definition sr_handle_rtable :: "vns_env \<Rightarrow> bytes \<Rightarrow> vns_state \<Rightarrow> (bool \<times> vns_state) result" where
  "sr_handle_rtable e buf st =
     rbind (read_string 8 buf) (\<lambda>host.
       if IDSIZE < length host then Inl Out_of_bounds
       else
         let fn = ''rtable.'' @ host
         in if \<not> ve_writable e fn then Inr (False, st)
            else rbind (get_bytes 40 (unat (of_nat (length buf) - 8 - of_nat IDSIZE :: u32)) buf) (\<lambda>d.
              Inr (True, st\<lparr>vs_files := vs_files st @ [(fn, d)]\<rparr>)))"

definition hw_entries :: "bytes \<Rightarrow> c_hw_entry list" where
  "hw_entries buf =
     map (\<lambda>i. \<lparr>mKey = value32 (drop (8 + 36 * i) buf), hw_value = take 32 (drop (12 + 36 * i) buf)\<rparr>)
       [0..<(length buf - 8) div 36]"

definition handle_hwinfo :: "vns_env \<Rightarrow> bytes \<Rightarrow> vns_state \<Rightarrow> (int \<times> vns_state) result" where
  "handle_hwinfo e buf st =
     rbind (sr_handle_hwinfo (ve_if e) (hw_entries buf) (ri_ifs (vs_router st))) (\<lambda>(_, ifs).
       let r = (vs_router st)\<lparr>ri_ifs := ifs\<rparr>
       in if sr_verify_routing_table ifs (ri_rt r) \<noteq> 0 then Inr (- 1, st\<lparr>vs_router := r\<rparr>)
          else rbind (pwospf_init ifs (ve_junk e) (ve_aid e) (ve_config e) (ve_now e)) (\<lambda>os.
            Inr (1, st\<lparr>vs_router := r\<lparr>ri_ospf := os\<rparr>, vs_ready := True\<rparr>)))"

text \<open>
  A frame. The interface name is the string behind the message's first 8 bytes; one that does not
  end within the message or 32 bytes is taken to be read past the block. The frame's length is an unsigned
  difference as well: for a message of less than 24 bytes it wraps, and the frame lies
  behind the block. Before \<^verbatim>\<open>pwospf_init\<close> there are no interfaces, and the handler follows the
  uninitialised pointer as soon as it looks for a route.
\<close>

definition frame_name :: "bytes \<Rightarrow> string result" where
  "frame_name buf =
     (let n = drop 8 buf
      in if 0 \<in> set n \<or> sr_IFACE_NAMELEN \<le> length n then Inr (c_string n) else Inl Out_of_bounds)"

definition looks_for_route :: "bytes \<Rightarrow> bool" where
  "looks_for_route p \<longleftrightarrow>
     ETHER_HDR_LEN + IP_HDR_LEN \<le> length p \<and> ether_type p = htons ETHERTYPE_IP \<and>
     unat (ip_hl (drop ETHER_HDR_LEN p)) * 4 \<le> IP_HDR_LEN"

definition handle_frame :: "vns_env \<Rightarrow> bytes \<Rightarrow> vns_state \<Rightarrow> (int \<times> vns_state) result" where
  "handle_frame e buf st =
     rbind (frame_name buf) (\<lambda>nm.
       if length buf < 24 then
         (if sr_get_interface (ri_ifs (vs_router st)) nm = None then Inl Assertion_failure else Inl Out_of_bounds)
       else
         let p = drop 24 buf
         in rbind (sr_arp_req_not_for_us (ri_ifs (vs_router st)) p nm) (\<lambda>drop_it.
              if drop_it then Inr (1, st)
              else rbind (sr_log_packet (ve_time e) p (int (length buf) - 24) (vs_log st)) (\<lambda>l.
                if \<not> vs_ready st \<and> looks_for_route p then Inl Null_pointer
                else rbind (sr_handlepacket (ve_adv e) (ve_blk e) (ve_now e) (vs_router st) p (length p) nm) (\<lambda>r.
                  Inr (1, st\<lparr>vs_router := r, vs_log := l\<rparr>)))))"

text \<open>The log with one packet more.\<close>

definition logged :: "timeval \<Rightarrow> bytes \<Rightarrow> bytes option \<Rightarrow> bytes option" where
  "logged tv p = map_option (\<lambda>fp. fp @ log_bytes [(tv, p)])"

lemma sr_log_packet_logged: "len = int (length p) \<Longrightarrow> sr_log_packet tv p len l = Inr (logged tv p l)"
  using sr_log_packet_entry[of len p tv "[]"]
  by (cases l) (simp_all add: logged_def log_bytes_def sr_log_packet_def[of _ _ _ None])

section \<open>Reading and dispatching a message\<close>

definition as_status :: "(bool \<times> vns_state) result \<Rightarrow> (int \<times> vns_state) result" where
  "as_status m = rbind m (\<lambda>(ok, st). Inr (if ok then 1 else - 1, st))"

definition handle_message :: "vns_env \<Rightarrow> u32 \<Rightarrow> bytes \<Rightarrow> vns_state \<Rightarrow> (int \<times> vns_state) result" where
  "handle_message e command buf st =
     (if command = VNSPACKET then handle_frame e buf st
      else if command = VNSCLOSE then rbind (read_string 8 buf) (\<lambda>_. Inr (0, st))
      else if command = VNSBANNER then rbind (read_string 8 buf) (\<lambda>_. Inr (1, st))
      else if command = VNSHWINFO then handle_hwinfo e buf st
      else if command = VNS_RTABLE then as_status (sr_handle_rtable e buf st)
      else if command = VNS_AUTH_REQUEST then as_status (sr_handle_auth_request e buf st)
      else if command = VNS_AUTH_STATUS then as_status (rbind (sr_handle_auth_status buf) (\<lambda>ok. Inr (ok, st)))
      else Inr (1, st))"

text \<open>
  The length is read first. The block of that size is written to before it is known to have room
  for length and type.
\<close>

definition sr_read_from_server_expect ::
  "vns_env \<Rightarrow> u32 \<Rightarrow> sock_event list \<Rightarrow> vns_state \<Rightarrow> (int \<times> sock_event list \<times> vns_state) result" where
  "sr_read_from_server_expect e expected s st =
     rbind (read_n 4 s) (\<lambda>(hd4, s1).
       case hd4 of
         None \<Rightarrow> Inr (- 1, s1, st)
       | Some h \<Rightarrow>
           let len = unat (ntohl (value32 h))
           in if 10000 < len then Inr (- 1, s1, st)
              else if len < 4 then Inl Out_of_bounds
              else
                rbind (read_n (len - 4) s1) (\<lambda>(body, s2).
                  case body of
                    None \<Rightarrow> Inr (- 1, s2, st)
                  | Some b \<Rightarrow>
                      if len < 8 then Inl Out_of_bounds
                      else
                        let command = ntohl (value32 b);
                            buf = store32 (htonl (of_nat len)) @ store32 command @ drop 4 b
                        in if expected \<noteq> 0 \<and> command \<noteq> expected \<and> command \<noteq> VNSCLOSE then Inr (- 1, s2, st)
                           else rbind (handle_message e command buf st) (\<lambda>(ret, st'). Inr (ret, s2, st'))))"

section \<open>The session\<close>

text \<open>The two messages that open it, as structures and as their bytes. \<^verbatim>\<open>memset\<close> has cleared the first.\<close>

record c_open =
  co_mLen :: u32
  co_mType :: u32
  co_topoID :: u16
  co_pad :: u16
  co_mVirtualHostID :: bytes
  co_mUID :: bytes
  co_mPass :: bytes

record c_open_template =
  ct_mLen :: u32
  ct_mType :: u32
  ct_templateName :: bytes
  ct_mVirtualHostID :: bytes

definition c_open_bytes :: "c_open \<Rightarrow> bytes" where
  "c_open_bytes m =
     store32 (co_mLen m) @ store32 (co_mType m) @ store16 (co_topoID m) @ store16 (co_pad m) @
     co_mVirtualHostID m @ co_mUID m @ co_mPass m"

definition c_open_template_bytes :: "c_open_template \<Rightarrow> bytes" where
  "c_open_template_bytes m =
     store32 (ct_mLen m) @ store32 (ct_mType m) @ ct_templateName m @ ct_mVirtualHostID m"

definition open_command :: "vns_state \<Rightarrow> c_open" where
  "open_command st =
     \<lparr>co_mLen = htonl 108, co_mType = htonl VNSOPEN, co_topoID = htons (vs_topo_id st), co_pad = 0,
      co_mVirtualHostID = name_field IDSIZE (vs_host st), co_mUID = name_field IDSIZE (vs_user st),
      co_mPass = replicate IDSIZE 0\<rparr>"

definition open_template :: "vns_state \<Rightarrow> c_open_template" where
  "open_template st =
     \<lparr>ct_mLen = htonl 70, ct_mType = htonl VNS_OPEN_TEMPLATE, ct_templateName = name_field 30 (vs_template st),
      ct_mVirtualHostID = name_field IDSIZE (vs_host st)\<rparr>"

definition open_message :: "vns_state \<Rightarrow> bytes" where
  "open_message st =
     (if vs_template st \<noteq> '''' then c_open_template_bytes (open_template st) else c_open_bytes (open_command st))"

text \<open>The dialogue of \<^verbatim>\<open>sr_connect_to_server\<close> once the socket is connected.\<close>

definition sr_connect_to_server ::
  "vns_env \<Rightarrow> vns_env \<Rightarrow> vns_env \<Rightarrow> sock_event list \<Rightarrow> vns_state \<Rightarrow> (int \<times> sock_event list \<times> vns_state) result" where
  "sr_connect_to_server e1 e2 e3 s st =
     rbind (sr_read_from_server_expect e1 VNS_AUTH_REQUEST s st) (\<lambda>(r1, s1, st1).
       if r1 \<noteq> 1 then Inr (- 1, s1, st1)
       else rbind (sr_read_from_server_expect e2 VNS_AUTH_STATUS s1 st1) (\<lambda>(r2, s2, st2).
         if r2 \<noteq> 1 then Inr (- 1, s2, st2)
         else if \<not> ve_send e2 then Inr (- 1, s2, st2)
         else
           let st3 = st2\<lparr>vs_out := vs_out st2 @ [open_message st2]\<rparr>
           in if vs_template st3 \<noteq> '''' then
                rbind (sr_read_from_server_expect e3 VNS_RTABLE s2 st3) (\<lambda>(r3, s3, st4).
                  Inr (if r3 \<noteq> 1 then - 1 else 0, s3, st4))
              else Inr (0, s2, st3)))"

text \<open>The main loop, over the messages it reads.\<close>

primrec serve :: "vns_env list \<Rightarrow> sock_event list \<Rightarrow> vns_state \<Rightarrow> (int \<times> sock_event list \<times> vns_state) result" where
  "serve [] s st = Inr (1, s, st)"
| "serve (e # es) s st =
     rbind (sr_read_from_server_expect e 0 s st) (\<lambda>(ret, s', st').
       if ret = 1 then serve es s' st' else Inr (ret, s', st'))"

section \<open>What the socket delivers\<close>

definition payload :: "sock_event list \<Rightarrow> bytes" where
  "payload s = concat (map (\<lambda>x. case x of Segment b \<Rightarrow> b | _ \<Rightarrow> []) s)"

lemma payload_simps [simp]:
  "payload [] = []" "payload (Segment b # s) = b @ payload s" "payload (Interrupt # s) = payload s"
  by (simp_all add: payload_def)

text \<open>However the bytes are divided, the loop collects the next \<open>n\<close> of them, or never ends.\<close>

lemma read_n_data:
  "Broken \<notin> set s \<Longrightarrow> n \<le> length (payload s) \<Longrightarrow>
   \<exists>s'. read_n n s = Inr (Some (take n (payload s)), s') \<and> payload s' = drop n (payload s) \<and> Broken \<notin> set s'"
proof (induction n s rule: read_n.induct)
  case (5 n b s)
  show ?case
  proof (cases "length b \<le> Suc n")
    case True
    have le: "Suc n - length b \<le> length (payload s)" using 5(3) by simp
    have "Broken \<notin> set s" using 5(2) by simp
    then obtain s' where "read_n (Suc n - length b) s = Inr (Some (take (Suc n - length b) (payload s)), s')"
        "payload s' = drop (Suc n - length b) (payload s)" "Broken \<notin> set s'"
      using 5(1)[OF True _ le] by blast
    then show ?thesis using True by simp
  next
    case False
    then show ?thesis using 5(2) by (intro exI[of _ "Segment (drop (Suc n) b) # s"]) simp
  qed
qed auto

lemma read_n_short: "Broken \<notin> set s \<Longrightarrow> length (payload s) < n \<Longrightarrow> read_n n s = Inl Diverges"
proof (induction n s rule: read_n.induct)
  case (5 n b s)
  then show ?case by auto
qed auto

lemma value32_take [simp]: "4 \<le> n \<Longrightarrow> value32 (take n b) = value32 b"
  by (simp add: value32_def)

lemma read_outcome_ok:
  fixes s :: "sock_event list" and st :: vns_state and e :: vns_env and expected :: u32
  assumes "Broken \<notin> set s"
  defines "L \<equiv> unat (ntohl (value32 (payload s)))"
    and "R \<equiv> sr_read_from_server_expect e expected s st"
  shows "if length (payload s) < 4 then R = Inl Diverges
    else if 10000 < L then \<exists>s'. R = Inr (- 1, s', st)
    else if L < 4 then R = Inl Out_of_bounds
    else if length (payload s) < L then R = Inl Diverges
    else if L < 8 then R = Inl Out_of_bounds
    else \<exists>s' command. payload s' = drop L (payload s) \<and> Broken \<notin> set s' \<and>
      command = ntohl (value32 (drop 4 (payload s))) \<and>
      R = (if expected \<noteq> 0 \<and> command \<noteq> expected \<and> command \<noteq> VNSCLOSE then Inr (- 1, s', st)
           else rbind (handle_message e command
                  (store32 (htonl (of_nat L)) @ store32 command @ drop 8 (take L (payload s))) st)
                (\<lambda>(ret, st'). Inr (ret, s', st')))"
proof (cases "length (payload s) < 4")
  case True
  then show ?thesis using read_n_short[OF assms(1)] by (simp add: R_def sr_read_from_server_expect_def)
next
  case False
  then obtain s1 where s1: "read_n 4 s = Inr (Some (take 4 (payload s)), s1)" "payload s1 = drop 4 (payload s)"
      "Broken \<notin> set s1" using read_n_data[OF assms(1), of 4] by auto
  show ?thesis
  proof (cases "L < 4 \<or> 10000 < L")
    case True
    then show ?thesis using False s1(1) by (auto simp: R_def sr_read_from_server_expect_def L_def Let_def)
  next
    case ok: False
    show ?thesis
    proof (cases "length (payload s) < L")
      case True
      then have "read_n (L - 4) s1 = Inl Diverges" using read_n_short[OF s1(3)] s1(2) False by simp
      then show ?thesis using False ok True s1(1) by (simp add: R_def sr_read_from_server_expect_def L_def Let_def)
    next
      case enough: False
      then obtain s2 where s2: "read_n (L - 4) s1 = Inr (Some (take (L - 4) (drop 4 (payload s))), s2)"
          "payload s2 = drop L (payload s)" "Broken \<notin> set s2"
      proof -
        have "L - 4 \<le> length (payload s1)" using enough s1(2) by simp
        then show thesis using read_n_data[OF s1(3), of "L - 4"] s1(2) ok that by auto
      qed
      have "drop 4 (take (L - 4) (drop 4 (payload s))) = drop 8 (take L (payload s))"
        by (simp add: drop_take drop_drop)
      moreover have "8 \<le> L \<Longrightarrow> value32 (take (L - 4) (drop 4 (payload s))) = value32 (drop 4 (payload s))" by simp
      ultimately show ?thesis
        using False ok enough s1(1) s2
        by (auto simp: R_def sr_read_from_server_expect_def L_def[symmetric] Let_def)
    qed
  qed
qed

text \<open>A whole message: its length, its type, the rest.\<close>

definition vns_message :: "u32 \<Rightarrow> bytes \<Rightarrow> bytes" where
  "vns_message command body = store32 (htonl (of_nat (8 + length body))) @ store32 (htonl command) @ body"

lemma length_vns_message [simp]: "length (vns_message c b) = 8 + length b"
  by (simp add: vns_message_def)

lemma read_message:
  assumes "Broken \<notin> set s" "payload s = vns_message command body @ behind" "length body \<le> 9992"
    and "expected = 0 \<or> command = expected"
  shows "\<exists>s'. payload s' = behind \<and> Broken \<notin> set s' \<and>
    sr_read_from_server_expect e expected s st =
      rbind (handle_message e command (store32 (htonl (of_nat (8 + length body))) @ store32 command @ body) st)
        (\<lambda>(ret, st'). Inr (ret, s', st'))"
proof -
  have L: "unat (ntohl (value32 (payload s))) = 8 + length body"
  proof -
    have "unat (of_nat (8 + length body) :: u32) = (8 + length body) mod 2 ^ 32" by (simp only: unat_of_nat) simp
    then show ?thesis using assms(3) by (simp add: assms(2) vns_message_def)
  qed
  have d: "drop 4 (payload s) = store32 (htonl command) @ body @ behind" "length (payload s) = 8 + length body + length behind"
      "drop 8 (take (8 + length body) (payload s)) = body" "drop (8 + length body) (payload s) = behind"
    by (simp_all add: assms(2) vns_message_def)
  show ?thesis
    using read_outcome_ok[OF assms(1), of e expected st] assms(3,4)
    unfolding L d by auto
qed

lemma c_string_name:
  assumes "CHR 0x00 \<notin> set s"
  shows "c_string (string_bytes s @ 0 # r) = s" "0 \<in> set (string_bytes s @ 0 # r)"
proof -
  have b: "char_of (unat (of_nat (of_char c) :: u8)) = c" for c :: char
  proof -
    have "(of_char c :: nat) < 256" by simp
    then show ?thesis by (simp add: unat_of_nat)
  qed
  have "(of_nat (of_char c) :: u8) \<noteq> 0" if "c \<in> set s" for c
  proof
    assume "(of_nat (of_char c) :: u8) = 0"
    then have "char_of (unat (0 :: u8)) = c" using b[of c] by simp
    then have "c = CHR 0x00" by (simp add: char_of_def)
    with that assms show False by simp
  qed
  then have "takeWhile (\<lambda>b. b \<noteq> 0) (string_bytes s @ 0 # r) = string_bytes s"
    by (subst takeWhile_append2) (auto simp: string_bytes_def)
  then show "c_string (string_bytes s @ 0 # r) = s" by (simp add: c_string_def) (simp add: string_bytes_def b o_def)
qed simp

lemma name_field_string:
  assumes "length s < n"
  shows "name_field n s = string_bytes s @ 0 # replicate (n - length s - 1) 0"
proof -
  have "replicate (n - length s) (0 :: u8) = 0 # replicate (n - length s - 1) 0"
    using assms by (cases "n - length s") simp_all
  then show ?thesis using assms by (simp add: name_field_def string_bytes_def)
qed

text \<open>
  Frames arrive. The message that \<^verbatim>\<open>sr_send_packet\<close> writes for a frame, read from the socket in
  whatever pieces, reaches \<^verbatim>\<open>sr_handlepacket\<close> as exactly this frame under exactly this interface
  name, is entered in the packet log, and the bytes behind it stay unread; only an ARP request for
  another address is dropped, and not logged.
\<close>
theorem frames_delivered:
  assumes "Broken \<notin> set s" "payload s = vns_packet (nm, f) @ behind"
    and "length nm \<le> 15" "CHR 0x00 \<notin> set nm" "length f \<le> 9976"
    and "vs_ready st" "sr_get_interface (ri_ifs (vs_router st)) nm = Some w"
  shows "\<exists>s'. payload s' = behind \<and> Broken \<notin> set s' \<and>
    sr_read_from_server_expect e 0 s st =
      (if 42 \<le> length f \<and> ether_type f = htons ETHERTYPE_ARP \<and> ar_op (drop 14 f) = htons ARP_REQUEST \<and>
          ar_tip (drop 14 f) \<noteq> if_ip w
       then Inr (1, s', st)
       else rbind (sr_handlepacket (ve_adv e) (ve_blk e) (ve_now e) (vs_router st) f (length f) nm)
              (\<lambda>r. Inr (1, s', st\<lparr>vs_router := r, vs_log := logged (ve_time e) f (vs_log st)\<rparr>)))"
proof -
  define body where "body = name_field 16 nm @ f"
  have l: "length (name_field 16 nm) = 16" using assms(3) by (simp add: name_field_def)
  have m: "payload s = vns_message VNSPACKET body @ behind"
    by (simp add: assms(2) vns_packet_def vns_message_def body_def l VNSPACKET_def add.commute)
  let ?buf = "store32 (htonl (of_nat (8 + length body))) @ store32 VNSPACKET @ body"
  have n: "drop 24 ?buf = f" "24 \<le> length ?buf" by (simp_all add: body_def l)
  have "drop 8 ?buf = string_bytes nm @ 0 # (replicate (15 - length nm) 0 @ f)"
    using name_field_string[of nm 16] assms(3) by (simp add: body_def)
  then have nm: "frame_name ?buf = Inr nm"
    unfolding frame_name_def Let_def using c_string_name[OF assms(4)] by (simp only: simp_thms if_True)
  have "int (length ?buf) - 24 = int (length f)" by (simp add: body_def l)
  note lg = sr_log_packet_logged[OF this]
  have "handle_message e VNSPACKET ?buf st = handle_frame e ?buf st" by (simp add: handle_message_def)
  also have "\<dots> = (if 42 \<le> length f \<and> ether_type f = htons ETHERTYPE_ARP \<and> ar_op (drop 14 f) = htons ARP_REQUEST \<and>
          ar_tip (drop 14 f) \<noteq> if_ip w then Inr (1, st)
       else rbind (sr_handlepacket (ve_adv e) (ve_blk e) (ve_now e) (vs_router st) f (length f) nm)
              (\<lambda>r. Inr (1, st\<lparr>vs_router := r, vs_log := logged (ve_time e) f (vs_log st)\<rparr>)))"
    using n nm assms(6,7) lg by (auto simp: handle_frame_def sr_arp_req_not_for_us_def hdr_lens ARP_HDR_LEN_def Let_def)
  finally have h: "handle_message e VNSPACKET ?buf st = \<dots>" .
  obtain s' where "payload s' = behind" "Broken \<notin> set s'" "sr_read_from_server_expect e 0 s st =
      rbind (handle_message e VNSPACKET ?buf st) (\<lambda>(ret, st'). Inr (ret, s', st'))"
    using read_message[OF assms(1) m _ disjI1[OF refl], of e st] assms(5) l by (auto simp: body_def)
  moreover have "rbind (rbind m k) g = rbind m (\<lambda>x. rbind (k x) g)" for m :: "router_state result"
      and k :: "router_state \<Rightarrow> (int \<times> vns_state) result" and g :: "int \<times> vns_state \<Rightarrow> (int \<times> sock_event list \<times> vns_state) result"
    by (cases m) simp_all
  ultimately show ?thesis unfolding h by auto
qed

section \<open>The interfaces, and the start\<close>

definition hw_bytes :: "c_hw_entry \<Rightarrow> bytes" where "hw_bytes x = store32 (mKey x) @ hw_value x"

lemma hw_entries_Cons:
  assumes "length h = 8" "length (hw_value x) = 32"
  shows "hw_entries (h @ hw_bytes x @ r) = x # hw_entries (h @ r)"
proof -
  have l: "(length (h @ hw_bytes x @ r) - 8) div 36 = Suc ((length (h @ r) - 8) div 36)"
    using assms by (simp add: hw_bytes_def)
  have d: "drop (8 + 36 * Suc i) (h @ hw_bytes x @ r) = drop (8 + 36 * i) (h @ r)"
      "drop (12 + 36 * Suc i) (h @ hw_bytes x @ r) = drop (12 + 36 * i) (h @ r)" for i
    using assms by (simp_all add: hw_bytes_def)
  have "drop 8 (h @ hw_bytes x @ r) = store32 (mKey x) @ hw_value x @ r"
      "drop 12 (h @ hw_bytes x @ r) = hw_value x @ r" using assms by (simp_all add: hw_bytes_def)
  then show ?thesis
    using assms(2) unfolding hw_entries_def l upt_conv_Cons[OF zero_less_Suc] map_Suc_upt[symmetric]
    by (simp only: list.map map_map o_def d mult_0_right add_0_right append_take_drop_id)
       (simp add: hw_bytes_def)
qed

lemma hw_entries_bytes:
  assumes "length h = 8" "\<forall>x \<in> set es. length (hw_value x) = 32"
  shows "hw_entries (h @ concat (map hw_bytes es)) = es"
  using assms(2)
proof (induction es)
  case Nil
  then show ?case using assms(1) by (simp add: hw_entries_def)
next
  case (Cons x es)
  then show ?case using hw_entries_Cons[OF assms(1), of x "concat (map hw_bytes es)"] by simp
qed

definition hw_message :: "(bytes \<times> bytes \<times> bytes) list \<Rightarrow> bytes" where
  "hw_message ds = vns_message VNSHWINFO (concat (map hw_bytes (concat (map (\<lambda>(n, i, m). hw_block n i m) ds))))"

lemma length_hw_message:
  "\<forall>(n, i, m) \<in> set ds. length n = 32 \<and> length i = 32 \<and> length m = 32 \<Longrightarrow>
   length (concat (map hw_bytes (concat (map (\<lambda>(n, i, m). hw_block n i m) ds)))) = 108 * length ds"
  by (induction ds) (auto simp: hw_block_def hw_bytes_def)

text \<open>
  The start of the session. A hardware message that describes at most ten interfaces, read by a fresh router in
  whatever pieces, makes these the router's interfaces, in order. When every route of the table
  names one of them and one is \<^verbatim>\<open>eth0\<close>, the router is then in the state in which its runs begin; when a
  route does not, the main loop is told to end.
\<close>
lemma session_boots_ok:
  assumes "Broken \<notin> set s" "payload s = hw_message ds @ behind" "length ds \<le> 10"
    and "\<forall>(n, i, m) \<in> set ds. length n = 32 \<and> length i = 32 \<and> length m = 32"
    and "ri_ifs (vs_router st) = []" "ri_arp (vs_router st) = arp_init"
    and "flow_table (ri_fw (vs_router st)) = []" "ft_size (ri_fw (vs_router st)) = 0"
    and ifs: "ifs = map (hw_interface (ve_if e)) ds" "sr_get_interface ifs ''eth0'' \<noteq> None"
  shows "\<exists>r s' st'. sr_read_from_server_expect e 0 s st = Inr (r, s', st') \<and> payload s' = behind \<and> Broken \<notin> set s' \<and>
     ri_ifs (vs_router st') = ifs \<and> ri_rt (vs_router st') = ri_rt (vs_router st) \<and>
     ri_fw (vs_router st') = ri_fw (vs_router st) \<and>
     (if ri_rt (vs_router st) \<noteq> [] \<and> (\<forall>x \<in> set (ri_rt (vs_router st)). sr_get_interface ifs (rt_interface x) \<noteq> None)
      then r = 1 \<and> vs_ready st' \<and> booted (vs_router st')
      else r = - 1 \<and> vs_ready st' = vs_ready st)"
proof -
  let ?es = "concat (map (\<lambda>(n, i, m). hw_block n i m) ds)"
  let ?body = "concat (map hw_bytes ?es)" and ?r = "(vs_router st)\<lparr>ri_ifs := ifs\<rparr>"
  let ?buf = "store32 (htonl (of_nat (8 + length ?body))) @ store32 VNSHWINFO @ ?body"
  have vals: "\<forall>x \<in> set ?es. length (hw_value x) = 32" using assms(4) by (auto simp: hw_block_def)
  have "hw_entries ?buf = ?es"
    using hw_entries_bytes[OF _ vals, of "store32 (htonl (of_nat (8 + length ?body))) @ store32 VNSHWINFO"] by simp
  then have h: "sr_handle_hwinfo (ve_if e) (hw_entries ?buf) (ri_ifs (vs_router st)) = Inr (length ?es, ifs)"
    using assms(5) ifs(1) by (simp add: sr_handle_hwinfo_def hw_blocks_run)
  obtain zero where z: "sr_get_interface ifs ''eth0'' = Some zero" using ifs(2) by auto
  have "length ifs \<le> 10" using assms(3) ifs(1) by simp
  then obtain os where os: "pwospf_init ifs (ve_junk e) (ve_aid e) (ve_config e) (ve_now e) = Inr os"
    using pwospf_init_ok[OF z, of "ve_junk e" "ve_aid e" "ve_config e" "ve_now e"] by auto
  have msg: "handle_message e VNSHWINFO ?buf st =
      (if sr_verify_routing_table ifs (ri_rt (vs_router st)) \<noteq> 0 then Inr (- 1, st\<lparr>vs_router := ?r\<rparr>)
       else Inr (1, st\<lparr>vs_router := ?r\<lparr>ri_ospf := os\<rparr>, vs_ready := True\<rparr>))"
    using h os by (simp add: handle_message_def vns_commands handle_hwinfo_def Let_def)
  have "length ?body \<le> 9992" using length_hw_message[OF assms(4)] assms(3) by simp
  then obtain s' where s': "payload s' = behind" "sr_read_from_server_expect e 0 s st =
      rbind (handle_message e VNSHWINFO ?buf st) (\<lambda>(ret, st'). Inr (ret, s', st'))" "Broken \<notin> set s'"
    using read_message[OF assms(1) assms(2)[unfolded hw_message_def] _ disjI1[OF refl], of e st] by blast
  have "ifs \<noteq> []" using z by auto
  then have v: "sr_verify_routing_table ifs (ri_rt (vs_router st)) = 0 \<longleftrightarrow> ri_rt (vs_router st) \<noteq> [] \<and>
      (\<forall>x \<in> set (ri_rt (vs_router st)). sr_get_interface ifs (rt_interface x) \<noteq> None)"
    by (simp add: sr_verify_routing_table_ok)
  show ?thesis
  proof (cases "sr_verify_routing_table ifs (ri_rt (vs_router st)) = 0")
    case True
    then have "sr_read_from_server_expect e 0 s st =
        Inr (1, s', st\<lparr>vs_router := ?r\<lparr>ri_ospf := os\<rparr>, vs_ready := True\<rparr>)" using s'(2) msg by simp
    moreover have "booted (?r\<lparr>ri_ospf := os\<rparr>)" using os assms(6-8) unfolding booted_def by fastforce
    ultimately show ?thesis using s'(1,3) True v
      by (intro exI[of _ 1] exI[of _ s'] exI[of _ "st\<lparr>vs_router := ?r\<lparr>ri_ospf := os\<rparr>, vs_ready := True\<rparr>"]) simp
  next
    case False
    then have "sr_read_from_server_expect e 0 s st = Inr (- 1, s', st\<lparr>vs_router := ?r\<rparr>)" using s'(2) msg by simp
    then show ?thesis using s'(1,3) False v
      by (intro exI[of _ "- 1"] exI[of _ s'] exI[of _ "st\<lparr>vs_router := ?r\<rparr>"]) auto
  qed
qed

section \<open>The dialogue\<close>

lemma length_auth_key: "length junk = 65 \<Longrightarrow> length (auth_key junk f) = 65"
  using length_fgets[of AUTH_KEY_LEN f] by (simp add: auth_key_def AUTH_KEY_LEN_def Let_def string_bytes_def)

lemma auth_request_ok:
  assumes "ve_auth_key e = Some key" "key \<noteq> []" "ve_send e"
    and "length (Message_Block (ve_sha e)) = 64" "length (ve_key_buf e) = 65" "length buf \<le> 10000"
  shows "sr_handle_auth_request e buf st =
     Inr (True, st\<lparr>vs_out := vs_out st @
       [auth_reply (vs_user st) (digest_of (sha1 (drop 8 buf @ take 64 (auth_key (ve_key_buf e) key))))]\<rparr>)"
proof -
  obtain b f where key: "key = b # f" using assms(2) by (cases key) auto
  have small: "length buf - 8 < 2305843009213693888" using assms(6) by simp
  obtain c1 where c1: "SHA1Input (SHA1Reset (ve_sha e)) (drop 8 buf) (length buf - 8) = Inr c1" "seen (drop 8 buf) c1"
    using SHA1Input_seen[OF seen_Reset[OF assms(4)], of "length buf - 8" "drop 8 buf"] small by auto
  obtain c2 where c2: "SHA1Input c1 (auth_key (ve_key_buf e) key) AUTH_KEY_LEN = Inr c2"
      "seen (drop 8 buf @ take 64 (auth_key (ve_key_buf e) key)) c2"
    using SHA1Input_seen[OF c1(2), of AUTH_KEY_LEN "auth_key (ve_key_buf e) key"] length_auth_key[OF assms(5)] small
    by (auto simp: AUTH_KEY_LEN_def)
  from SHA1Result_seen[OF c2(2)] show ?thesis
    using assms(1,3) c1(1) c2(1) by (auto simp: sr_handle_auth_request_def key)
qed

lemma rtable_ok:
  assumes "length h = 32" "0 \<in> set h" "length d \<le> 9960" "length pre = 8"
    and "ve_writable e (''rtable.'' @ c_string h)"
  shows "sr_handle_rtable e (pre @ h @ d) st =
     Inr (True, st\<lparr>vs_files := vs_files st @ [(''rtable.'' @ c_string h, d)]\<rparr>)"
proof -
  have "\<exists>x \<in> set h. \<not> x \<noteq> 0" using assms(2) by auto
  then have c: "c_string (h @ d) = c_string h" by (auto simp: c_string_def takeWhile_append1)
  have "length (takeWhile (\<lambda>b. b \<noteq> 0) h) \<le> 32" using length_takeWhile_le[of _ h] assms(1) by metis
  then have l: "length (c_string h) \<le> 32" by (simp add: c_string_def)
  have "(of_nat (length (pre @ h @ d)) - 8 - of_nat IDSIZE :: u32) = of_nat (length d)"
    using assms(1,4) by (simp add: IDSIZE_def)
  moreover have "unat (of_nat (length d) :: u32) = length d" using assms(3) by (simp add: unat_of_nat)
  ultimately show ?thesis
    using assms c l by (simp add: sr_handle_rtable_def read_string_def IDSIZE_def)
qed

lemma session_opens_ok:
  assumes "Broken \<notin> set s"
    and "payload s = vns_message VNS_AUTH_REQUEST salt @ vns_message VNS_AUTH_STATUS (ok # note) @
       (if vs_template st = '''' then [] else vns_message VNS_RTABLE (host @ table)) @ behind"
    and "length salt \<le> 9992" "ok \<noteq> 0" "length note \<le> 9991"
    and "ve_auth_key e1 = Some key" "key \<noteq> []" "ve_send e1" "ve_send e2"
    and "length (Message_Block (ve_sha e1)) = 64" "length (ve_key_buf e1) = 65"
    and "vs_template st = '''' \<or>
       length host = 32 \<and> 0 \<in> set host \<and> length table \<le> 9960 \<and> ve_writable e3 (''rtable.'' @ c_string host)"
  shows "\<exists>s' st'. sr_connect_to_server e1 e2 e3 s st = Inr (0, s', st') \<and> payload s' = behind \<and> Broken \<notin> set s' \<and>
     vs_out st' = vs_out st @
       [auth_reply (vs_user st) (digest_of (sha1 (salt @ take 64 (auth_key (ve_key_buf e1) key)))), open_message st] \<and>
     vs_files st' = vs_files st @ (if vs_template st = '''' then [] else [(''rtable.'' @ c_string host, table)]) \<and>
     vs_router st' = vs_router st"
proof -
  let ?reply = "auth_reply (vs_user st) (digest_of (sha1 (salt @ take 64 (auth_key (ve_key_buf e1) key))))"
  let ?st1 = "st\<lparr>vs_out := vs_out st @ [?reply]\<rparr>" and ?st3 = "st\<lparr>vs_out := vs_out st @ [?reply, open_message st]\<rparr>"
  have "handle_message e1 VNS_AUTH_REQUEST (store32 x @ store32 VNS_AUTH_REQUEST @ salt) st = Inr (1, ?st1)" for x
    using auth_request_ok[OF assms(6-8,10,11), of "store32 x @ store32 VNS_AUTH_REQUEST @ salt" st] assms(3)
    by (simp add: handle_message_def vns_commands as_status_def)
  then obtain s1 where s1: "sr_read_from_server_expect e1 VNS_AUTH_REQUEST s st = Inr (1, s1, ?st1)" "Broken \<notin> set s1"
      "payload s1 = vns_message VNS_AUTH_STATUS (ok # note) @
         (if vs_template st = '''' then [] else vns_message VNS_RTABLE (host @ table)) @ behind"
    using read_message[OF assms(1,2,3) disjI2[OF refl], of e1 st] by auto
  have "handle_message e2 VNS_AUTH_STATUS (store32 x @ store32 VNS_AUTH_STATUS @ ok # note) ?st1 = Inr (1, ?st1)" for x
    using assms(4) by (simp add: handle_message_def vns_commands as_status_def sr_handle_auth_status_def)
  then obtain s2 where s2: "sr_read_from_server_expect e2 VNS_AUTH_STATUS s1 ?st1 = Inr (1, s2, ?st1)" "Broken \<notin> set s2"
      "payload s2 = (if vs_template st = '''' then [] else vns_message VNS_RTABLE (host @ table)) @ behind"
    using read_message[OF s1(2,3) _ disjI2[OF refl], of e2 ?st1] assms(5) by auto
  have open_eq: "open_message ?st1 = open_message st" by (simp add: open_message_def open_command_def open_template_def)
  show ?thesis
  proof (cases "vs_template st = ''''")
    case True
    then show ?thesis using s1(1) s2 assms(9) open_eq by (simp add: sr_connect_to_server_def Let_def)
  next
    case False
    then have T: "length host = 32" "0 \<in> set host" "length table \<le> 9960" "ve_writable e3 (''rtable.'' @ c_string host)"
      using assms(12) by auto
    let ?st4 = "?st3\<lparr>vs_files := vs_files st @ [(''rtable.'' @ c_string host, table)]\<rparr>"
    have "handle_message e3 VNS_RTABLE (store32 x @ store32 VNS_RTABLE @ host @ table) ?st3 = Inr (1, ?st4)" for x
      using rtable_ok[OF T(1-3) _ T(4), of "store32 x @ store32 VNS_RTABLE" ?st3]
      by (simp add: handle_message_def vns_commands as_status_def)
    moreover have p2: "payload s2 = vns_message VNS_RTABLE (host @ table) @ behind" using s2(3) False by simp
    ultimately obtain s3 where s3: "sr_read_from_server_expect e3 VNS_RTABLE s2 ?st3 = Inr (1, s3, ?st4)"
        "payload s3 = behind" "Broken \<notin> set s3"
      using read_message[OF s2(2) p2 _ disjI2[OF refl], of e3 ?st3] T(1,3) by auto
    then show ?thesis using s1(1) s2 assms(9) open_eq False by (simp add: sr_connect_to_server_def Let_def)
  qed
qed

text \<open>
  The session opens. When the server sends its authentication request, a positive status and, for a template,
  the routing table, in whatever pieces, \<^verbatim>\<open>sr_connect_to_server\<close> succeeds: it has answered with the user's
  name and the SHA-1 of salt and key, then asked for the topology or the template, has stored the
  table, and has left everything behind these messages unread.
\<close>
theorem session_opens:
  assumes "Broken \<notin> set s"
    and "payload s = vns_message VNS_AUTH_REQUEST salt @ vns_message VNS_AUTH_STATUS (ok # note) @
       (if vs_template st = '''' then [] else vns_message VNS_RTABLE (host @ table)) @ behind"
    and "length salt \<le> 9992" "ok \<noteq> 0" "length note \<le> 9991"
    and "ve_auth_key e1 = Some key" "key \<noteq> []" "ve_send e1" "ve_send e2"
    and "length (Message_Block (ve_sha e1)) = 64" "length (ve_key_buf e1) = 65"
    and "vs_template st = '''' \<or>
       length host = 32 \<and> 0 \<in> set host \<and> length table \<le> 9960 \<and> ve_writable e3 (''rtable.'' @ c_string host)"
  shows "\<exists>s' st'. sr_connect_to_server e1 e2 e3 s st = Inr (0, s', st') \<and> payload s' = behind \<and> Broken \<notin> set s' \<and>
     vs_out st' = vs_out st @
       [auth_reply (vs_user st) (digest_of (sha1 (salt @ take 64 (auth_key (ve_key_buf e1) key)))), open_message st] \<and>
     vs_files st' = vs_files st @ (if vs_template st = '''' then [] else [(''rtable.'' @ c_string host, table)]) \<and>
     vs_router st' = vs_router st"
  using assms by (rule session_opens_ok)

text \<open>
  C39. What a stream does that breaks off or lies. Without an error on the socket, a message is handled exactly when it is
  complete and its length field lies between 8 and 10000. A longer one ends the loop; a length below 8 is written
  past the block allocated for it; and when the peer closes the connection before the message is
  complete, the reading loop never ends, because it takes the 0 of \<^verbatim>\<open>recv\<close> for progress.
\<close>
theorem read_outcome:
  assumes "Broken \<notin> set s" "L = unat (ntohl (value32 (payload s)))"
    and "R = sr_read_from_server_expect e expected s st"
  shows "if length (payload s) < 4 then R = Inl Diverges
    else if 10000 < L then \<exists>s'. R = Inr (- 1, s', st)
    else if L < 4 then R = Inl Out_of_bounds
    else if length (payload s) < L then R = Inl Diverges
    else if L < 8 then R = Inl Out_of_bounds
    else \<exists>s' command. payload s' = drop L (payload s) \<and> Broken \<notin> set s' \<and>
      command = ntohl (value32 (drop 4 (payload s))) \<and>
      R = (if expected \<noteq> 0 \<and> command \<noteq> expected \<and> command \<noteq> VNSCLOSE then Inr (- 1, s', st)
           else rbind (handle_message e command
                  (store32 (htonl (of_nat L)) @ store32 command @ drop 8 (take L (payload s))) st)
                (\<lambda>(ret, st'). Inr (ret, s', st')))"
  unfolding assms(2,3) by (rule read_outcome_ok[OF assms(1)])

section \<open>Examples\<close>

definition sample_env :: vns_env where
  "sample_env = \<lparr>ve_now = 100, ve_time = \<lparr>tv_sec = 100, tv_usec = 0\<rparr>, ve_blk = replicate 2048 0, ve_adv = (\<lambda>_. (0, 0)), ve_if = sample_if, ve_junk = 0,
     ve_aid = 0, ve_config = None, ve_auth_key = Some (''key'' @ [CHR 0x0A]), ve_key_buf = replicate 65 9,
     ve_sha = blank, ve_writable = (\<lambda>_. True), ve_send = True\<rparr>"

definition sample_state :: vns_state where
  "sample_state = \<lparr>vs_router = sample_router, vs_ready = True, vs_user = ''me'', vs_host = ''vrhost'',
     vs_template = '''', vs_topo_id = 5, vs_files = [], vs_out = [], vs_log = Some (sf_write_header 1 0 1024)\<rparr>"

text \<open>The message arrives in two pieces with a signal between them.\<close>

definition in_pieces :: "bytes \<Rightarrow> sock_event list" where
  "in_pieces b = [Segment (take 5 b), Interrupt, Segment (drop 5 b)]"

lemma in_pieces [simp]: "payload (in_pieces b) = b" "Broken \<notin> set (in_pieces b)"
  by (simp_all add: in_pieces_def)

theorem frames_delivered_witness:
  "\<exists>s'. payload s' = [] \<and> sr_read_from_server_expect sample_env 0 (in_pieces (vns_packet (''eth0'', eth @ ping @ text10))) sample_state =
     rbind (sr_handlepacket (\<lambda>_. (0, 0)) (replicate 2048 0) 100 sample_router (eth @ ping @ text10) 44 ''eth0'')
       (\<lambda>r. Inr (1, s', sample_state\<lparr>vs_router := r,
         vs_log := Some (sf_write_header 1 0 1024 @ log_bytes [(\<lparr>tv_sec = 100, tv_usec = 0\<rparr>, eth @ ping @ text10)])\<rparr>))"
proof -
  have "ether_type (eth @ ping @ text10) \<noteq> htons ETHERTYPE_ARP" "length (eth @ ping @ text10) = 44" by code_simp+
  moreover have "sr_get_interface (ri_ifs sample_router) ''eth0'' = Some sample_if"
    by (simp add: sample_router_def sample_if_def)
  ultimately show ?thesis
    using frames_delivered[of "in_pieces (vns_packet (''eth0'', eth @ ping @ text10))" "''eth0''" "eth @ ping @ text10" "[]" sample_state sample_if sample_env]
    by (simp add: sample_state_def sample_env_def logged_def) blast
qed

definition described :: "(bytes \<times> bytes \<times> bytes) list" where
  "described = [(name_field 32 ''eth0'', 10 # 0 # 0 # 2 # replicate 28 0, 2 # 0 # 0 # 0 # 0 # 1 # replicate 26 0)]"

lemma described_names: "map if_name (map (hw_interface sample_if) described) = [''eth0'']"
proof -
  have "c_string (name_field 32 ''eth0'') = ''eth0''"
    using name_field_string[of "''eth0''" 32] c_string_name(1)[of "''eth0''"] by simp
  then show ?thesis by (simp add: described_def hw_interface_def sr_IFACE_NAMELEN_def)
qed

theorem session_opens_witness:
  "\<exists>s' st'. sr_connect_to_server sample_env sample_env sample_env
     (in_pieces (vns_message VNS_AUTH_REQUEST [1, 2] @ vns_message VNS_AUTH_STATUS [1] @ [7])) sample_state = Inr (0, s', st') \<and>
     payload s' = [7] \<and> length (vs_out st') = 2 \<and>
     hd (vs_out st') = auth_reply ''me'' (digest_of (sha1 ([1, 2] @ [107, 101, 121, 10, 0] @ replicate 59 9)))"
proof -
  have "fgets 64 (''key'' @ [CHR 0x0A]) = ''key'' @ [CHR 0x0A]" by code_simp
  moreover have "string_bytes (''key'' @ [CHR 0x0A]) = [107, 101, 121, 10]" by code_simp
  ultimately have "take 64 (auth_key (replicate 65 9) (''key'' @ [CHR 0x0A])) = [107, 101, 121, 10, 0] @ replicate 59 9"
    by (simp add: auth_key_def AUTH_KEY_LEN_def)
  then show ?thesis
    using session_opens[of "in_pieces (vns_message VNS_AUTH_REQUEST [1, 2] @ vns_message VNS_AUTH_STATUS [1] @ [7])"
        "[1, 2]" 1 "[]" sample_state "replicate 32 0" "[]" "[7]" sample_env "''key'' @ [CHR 0x0A]" sample_env sample_env]
    by (auto simp: sample_state_def sample_env_def blank_def)
qed

theorem read_outcome_witness:
  "sr_read_from_server_expect sample_env 0 [Segment [0, 0], Interrupt] sample_state = Inl Diverges \<and>
   sr_read_from_server_expect sample_env 0 [Segment [0, 0, 0, 7, 1, 2, 3]] sample_state = Inl Out_of_bounds"
proof
  show "sr_read_from_server_expect sample_env 0 [Segment [0, 0], Interrupt] sample_state = Inl Diverges"
    using read_outcome[of "[Segment [0, 0], Interrupt]" _ _ sample_env 0 sample_state] by simp
  have "unat (ntohl (value32 [0, 0, 0, 7, 1, 2, 3])) = 7" by code_simp
  then show "sr_read_from_server_expect sample_env 0 [Segment [0, 0, 0, 7, 1, 2, 3]] sample_state = Inl Out_of_bounds"
    using read_outcome[of "[Segment [0, 0, 0, 7, 1, 2, 3]]" _ _ sample_env 0 sample_state] by simp
qed

end
