(* ===== verification/Options.thy ===== *)
theory Options
  imports Vns
begin

text \<open>
  The command line (\<^verbatim>\<open>sr_main.c\<close>): the options as \<^verbatim>\<open>getopt\<close> delivers them, the values that \<^verbatim>\<open>main\<close> makes of
  them, and the character fields of \<^verbatim>\<open>struct sr_instance\<close> into which it copies some.
\<close>

section \<open>getopt and atoi\<close>

text \<open>
  The C library's \<^verbatim>\<open>getopt\<close> over the arguments behind the program's name: an unknown option and one
  without its argument are \<^verbatim>\<open>?\<close>, other words are passed over, and \<^verbatim>\<open>--\<close> ends the options. \<open>opt_kind\<close> looks an
  option up in the option string: \<open>Some True\<close> for one with an argument.
\<close>

fun opt_kind :: "string \<Rightarrow> char \<Rightarrow> bool option" where
  "opt_kind [] c = None"
| "opt_kind (x # xs) c =
     (if c = CHR '':'' then None
      else if x = c then Some (xs \<noteq> [] \<and> hd xs = CHR '':'')
      else opt_kind xs c)"

function getopt :: "string \<Rightarrow> string \<Rightarrow> string list \<Rightarrow> (char \<times> string) list" where
  "getopt os [] [] = []"
| "getopt os [] (a # as) =
     (if a = ''--'' then []
      else if 2 \<le> length a \<and> hd a = CHR ''-'' then getopt os (tl a) as
      else getopt os [] as)"
| "getopt os (c # cs) as =
     (case opt_kind os c of
        None \<Rightarrow> (CHR ''?'', []) # getopt os cs as
      | Some False \<Rightarrow> (c, []) # getopt os cs as
      | Some True \<Rightarrow>
          if cs \<noteq> [] then (c, cs) # getopt os [] as
          else if as = [] then [(CHR ''?'', [])]
          else (c, hd as) # getopt os [] (tl as))"
  by pat_completeness auto
termination
proof (relation "measure (\<lambda>(os, cs, as). length cs + sum_list (map (\<lambda>a. length a + 1) as))")
  show "((os, [], tl as), os, c # cs, as) \<in> measure (\<lambda>(os, cs, as). length cs + sum_list (map (\<lambda>a. length a + 1) as))"
    for os c cs and as :: "string list"
    by (cases as) simp_all
qed auto

definition atoi :: "string \<Rightarrow> int" where
  "atoi l =
     (let s = dropWhile isspace l;
          neg = (s \<noteq> [] \<and> hd s = CHR ''-'');
          s1 = (if s \<noteq> [] \<and> hd s \<in> {CHR ''-'', CHR ''+''} then tl s else s);
          n = int (number 10 digit_val (takeWhile isdigit s1))
      in sint (word_of_int (if neg then max (- (2 ^ 63)) (- n) else min (2 ^ 63 - 1) n) :: u32))"

section \<open>The options of the program\<close>

record options =
  op_auth_key_file :: string
  op_host :: string
  op_user :: "string option"
  op_server :: string
  op_rtable :: string
  op_template :: "string option"
  op_port :: u32
  op_topo :: u32
  op_logfile :: "string option"

definition DEFAULT_PORT :: u32 where "DEFAULT_PORT = 3250"

definition default_options :: options where
  "default_options = \<lparr>op_auth_key_file = ''auth_key'', op_host = ''vrhost'', op_user = None,
     op_server = ''171.67.71.18'', op_rtable = ''rtable'', op_template = None, op_port = DEFAULT_PORT, op_topo = 0,
     op_logfile = None\<rparr>"

definition optstring :: string where "optstring = ''ha:s:v:p:u:t:r:l:T:''"

definition set_option :: "char \<Rightarrow> string \<Rightarrow> options \<Rightarrow> options" where
  "set_option c arg opts =
     (if c = CHR ''p'' then opts\<lparr>op_port := word_of_int (atoi arg)\<rparr>
      else if c = CHR ''t'' then opts\<lparr>op_topo := word_of_int (atoi arg)\<rparr>
      else if c = CHR ''a'' then opts\<lparr>op_auth_key_file := arg\<rparr>
      else if c = CHR ''v'' then opts\<lparr>op_host := arg\<rparr>
      else if c = CHR ''u'' then opts\<lparr>op_user := Some arg\<rparr>
      else if c = CHR ''s'' then opts\<lparr>op_server := arg\<rparr>
      else if c = CHR ''l'' then opts\<lparr>op_logfile := Some arg\<rparr>
      else if c = CHR ''r'' then opts\<lparr>op_rtable := arg\<rparr>
      else if c = CHR ''T'' then opts\<lparr>op_template := Some arg\<rparr>
      else opts)"

text \<open>The loop over the options; \<open>None\<close> is the \<^verbatim>\<open>exit(0)\<close> behind the usage.\<close>

fun option_loop :: "(char \<times> string) list \<Rightarrow> options \<Rightarrow> options option" where
  "option_loop [] opts = Some opts"
| "option_loop ((c, arg) # es) opts = (if c = CHR ''h'' then None else option_loop es (set_option c arg opts))"

definition read_options :: "string list \<Rightarrow> options option" where
  "read_options argv = option_loop (getopt optstring [] argv) default_options"

definition usage :: "string \<Rightarrow> string" where
  "usage argv0 =
     ''Simple Router Client'' @ [CHR 0x0A] @
     ''Format: '' @ argv0 @ '' [-h] [-v host] [-s server] [-p port] '' @ [CHR 0x0A] @
     ''           [-T template_name] [-u username] [-a auth_key_filename]'' @ [CHR 0x0A] @
     ''           [-t topo id] [-r routing table] '' @ [CHR 0x0A] @
     ''           [-l log file] '' @ [CHR 0x0A] @
     ''   defaults server='' @ op_server default_options @ '' port='' @ dec (unat DEFAULT_PORT) @ '' host='' @
     op_host default_options @ ''  '' @ [CHR 0x0A]"

section \<open>Options are read as they are given\<close>

text \<open>An option with its value, in the same word or in the next.\<close>

definition spell :: "bool \<times> char \<times> string \<Rightarrow> string list" where
  "spell = (\<lambda>(joined, c, v). if joined \<and> v \<noteq> [] then [CHR ''-'' # c # v] else [[CHR ''-'', c], v])"

definition valued :: "char set" where "valued = set ''asvputrlT''"

lemma valued_kind: "c \<in> valued \<Longrightarrow> opt_kind optstring c = Some True \<and> c \<noteq> CHR ''h'' \<and> c \<noteq> CHR ''-''"
proof -
  have "\<forall>c \<in> set ''asvputrlT''. opt_kind optstring c = Some True \<and> c \<noteq> CHR ''h'' \<and> c \<noteq> CHR ''-''" by code_simp
  then show "c \<in> valued \<Longrightarrow> opt_kind optstring c = Some True \<and> c \<noteq> CHR ''h'' \<and> c \<noteq> CHR ''-''" unfolding valued_def by blast
qed

lemma getopt_spell:
  assumes "snd x = (c, v)" "c \<in> valued"
  shows "getopt optstring [] (spell x @ as) = (c, v) # getopt optstring [] as"
  using valued_kind[OF assms(2)] assms(1) by (cases x) (auto simp: spell_def)

lemma getopt_spells:
  assumes "\<forall>x \<in> set xs. fst (snd x) \<in> valued"
  shows "getopt optstring [] (concat (map spell xs) @ as) = map snd xs @ getopt optstring [] as"
  using assms
proof (induction xs)
  case (Cons x xs)
  then show ?case using getopt_spell[of x "fst (snd x)" "snd (snd x)"] by simp
qed simp

text \<open>The value an option has in the end: the last one given, or the default.\<close>

definition last_value :: "char \<Rightarrow> (char \<times> string) list \<Rightarrow> string option" where
  "last_value c es = map_of (rev es) c"

definition settle :: "(char \<times> string) list \<Rightarrow> options \<Rightarrow> options" where
  "settle es d =
     (let val = (\<lambda>c. last_value c es)
      in \<lparr>op_auth_key_file = case_option (op_auth_key_file d) id (val CHR ''a''),
         op_host = case_option (op_host d) id (val CHR ''v''),
         op_user = case_option (op_user d) Some (val CHR ''u''),
         op_server = case_option (op_server d) id (val CHR ''s''),
         op_rtable = case_option (op_rtable d) id (val CHR ''r''),
         op_template = case_option (op_template d) Some (val CHR ''T''),
         op_port = case_option (op_port d) (\<lambda>a. word_of_int (atoi a)) (val CHR ''p''),
         op_topo = case_option (op_topo d) (\<lambda>a. word_of_int (atoi a)) (val CHR ''t''),
         op_logfile = case_option (op_logfile d) Some (val CHR ''l'')\<rparr>)"

lemma last_value_snoc: "last_value c (es @ [(k, v)]) = (if c = k then Some v else last_value c es)"
  by (simp add: last_value_def)

lemma settle_snoc: "settle (es @ [(c, v)]) d = set_option c v (settle es d)"
  unfolding settle_def set_option_def last_value_snoc Let_def by (cases d) simp

lemma option_loop_snoc: "option_loop (es @ [e]) d = Option.bind (option_loop es d) (option_loop [e])"
  by (induction es d rule: option_loop.induct) auto

lemma option_loop_settle: "CHR ''h'' \<notin> fst ` set es \<Longrightarrow> option_loop es d = Some (settle es d)"
proof (induction es rule: rev_induct)
  case Nil
  then show ?case by (simp add: settle_def last_value_def)
next
  case (snoc e es)
  then show ?case by (cases e) (auto simp: option_loop_snoc settle_snoc)
qed

lemma atoi_dec:
  assumes "n < 2 ^ 31"
  shows "atoi (dec n) = int n"
proof -
  obtain c cs where d: "dec n = c # cs" "isdigit c" using dec_facts[of n] by (cases "dec n") auto
  have "\<not> isspace c" using not_digit_space[OF d(2)] by simp
  moreover have "c \<noteq> CHR ''-''" "c \<noteq> CHR ''+''" using d(2) by (auto simp: isdigit_def)
  moreover have t: "takeWhile isdigit cs = cs" using dec_facts[of n] by (simp add: takeWhile_eq_all_conv d(1))
  moreover have "number 10 digit_val (c # cs) = n" using dec_facts[of n] by (simp add: d(1))
  moreover have "min 9223372036854775807 (int n) = int n" using assms by simp
  moreover have "sint (of_nat n :: u32) = int n"
    using assms signed_of_int[of "int n", where 'b = 32 and 'a = int] by (simp add: signed_take_bit_int_eq_self)
  ultimately show ?thesis using d(2) by (simp add: atoi_def d(1) t Let_def)
qed

text \<open>
  The command line. Whatever options with values are given, joined or in two words, in whatever order
  and however often, the last value of each counts and the others have their defaults; a \<^verbatim>\<open>-h\<close>
  behind any of them ends the program with the usage, and nothing behind \<^verbatim>\<open>--\<close> is looked at.
\<close>
theorem options_read:
  assumes "\<forall>x \<in> set xs. fst (snd x) \<in> valued"
  shows "read_options (concat (map spell xs)) = Some (settle (map snd xs) default_options) \<and>
     read_options (concat (map spell xs) @ ''--'' # others) = read_options (concat (map spell xs)) \<and>
     read_options (concat (map spell xs) @ ''-h'' # others) = None"
proof -
  have h: "CHR ''h'' \<notin> fst ` set (map snd xs)" using assms valued_kind by fastforce
  have e: "getopt optstring [] (concat (map spell xs)) = map snd xs" using getopt_spells[OF assms, of "[]"] by simp
  have "opt_kind optstring CHR ''h'' = Some False" by (simp add: optstring_def)
  moreover have "option_loop (es @ (CHR ''h'', a) # fs) d = None" for es fs a d
    by (induction es d rule: option_loop.induct) auto
  ultimately have "read_options (concat (map spell xs) @ ''-h'' # others) = None"
    using getopt_spells[OF assms, of "''-h'' # others"] by (simp add: read_options_def)
  then show ?thesis
    using e option_loop_settle[OF h] getopt_spells[OF assms, of "''--'' # others"] by (simp add: read_options_def)
qed

theorem options_read_witness:
  "\<exists>opts. read_options [''-p3251'', ''-v'', ''vhost1'', ''-t'', ''5'', ''-p'', ''80''] = Some opts \<and>
     op_port opts = 80 \<and> op_host opts = ''vhost1'' \<and> op_topo opts = 5 \<and> op_user opts = None \<and>
     op_rtable opts = ''rtable'' \<and>
   read_options [''-p3251'', ''-v'', ''vhost1'', ''-t'', ''5'', ''-p'', ''80'', ''-h''] = None"
proof -
  let ?xs = "[(True, CHR ''p'', ''3251''), (False, CHR ''v'', ''vhost1''), (False, CHR ''t'', ''5''), (False, CHR ''p'', ''80'')]"
  have v: "\<forall>x \<in> set ?xs. fst (snd x) \<in> valued" by (simp add: valued_def)
  have s: "concat (map spell ?xs) = [''-p3251'', ''-v'', ''vhost1'', ''-t'', ''5'', ''-p'', ''80'']" by (simp add: spell_def)
  have "atoi ''80'' = 80" "atoi ''5'' = 5" by code_simp+
  then show ?thesis
    using options_read[OF v, of "[]"] unfolding s by (simp add: settle_def last_value_def default_options_def)
qed

section \<open>The fields of the instance\<close>

text \<open>
  \<^verbatim>\<open>strncpy\<close> ends a name with a NUL only where the field has room for one. The fields lie one behind the other:
  user, host, template, key file, topology, and the server's address, whose first two bytes are
  \<^verbatim>\<open>AF_INET\<close>. A name is what is read up to the next NUL. (Without a template only the first byte of its
  field is set; no name reaches the others.)
\<close>

definition instance_bytes :: "options \<Rightarrow> string \<Rightarrow> bytes" where
  "instance_bytes opts user =
     name_field 32 user @ name_field 32 (op_host opts) @
     name_field 30 (case op_template opts of None \<Rightarrow> '''' | Some t \<Rightarrow> t) @
     name_field 64 (op_auth_key_file opts) @ store16 (ucast (op_topo opts)) @ [2, 0]"

definition instance_string :: "nat \<Rightarrow> options \<Rightarrow> string \<Rightarrow> string" where
  "instance_string k opts user = c_string (drop k (instance_bytes opts user))"

definition USER :: nat where "USER = 0"
definition HOST :: nat where "HOST = 32"
definition TEMPLATE :: nat where "TEMPLATE = 64"
definition AUTH_KEY_FN :: nat where "AUTH_KEY_FN = 94"

lemmas field_offsets = USER_def HOST_def TEMPLATE_def AUTH_KEY_FN_def

text \<open>The user's name: from the command line, or from the password file (\<open>None\<close>: no entry).\<close>

definition sr_set_user :: "string option \<Rightarrow> string" where
  "sr_set_user pw = (case pw of None \<Rightarrow> ''something_silly'' | Some n \<Rightarrow> n)"

definition user_name :: "string option \<Rightarrow> options \<Rightarrow> string" where
  "user_name pw opts = (case op_user opts of None \<Rightarrow> sr_set_user pw | Some u \<Rightarrow> u)"

definition fits :: "nat \<Rightarrow> string \<Rightarrow> bool" where "fits n s \<longleftrightarrow> length s < n \<and> CHR 0x00 \<notin> set s"

lemma length_name_field [simp]: "length (name_field n s) = n"
  by (simp add: name_field_def)

lemma c_string_field: "fits n s \<Longrightarrow> c_string (name_field n s @ r) = s"
  using name_field_string[of s n] c_string_name(1)[of s "replicate (n - length s - 1) 0 @ r"] by (simp add: fits_def)

lemma name_field_full: "n \<le> length s \<Longrightarrow> name_field n s = string_bytes (take n s)"
  by (simp add: name_field_def string_bytes_def take_map)

lemma nonzero_char: "c \<noteq> CHR 0x00 \<Longrightarrow> (of_nat (of_char c) :: u8) \<noteq> 0"
proof
  assume c: "c \<noteq> CHR 0x00" "(of_nat (of_char c) :: u8) = 0"
  have "(of_char c :: nat) < 256" by simp
  then have "unat (of_nat (of_char c) :: u8) = of_char c" by (simp add: unat_of_nat)
  then have "(of_char c :: nat) = of_char CHR 0x00" using c(2) by simp
  then show False using c(1) by (simp only: of_char_eq_iff)
qed

lemma byte_char: "char_of (unat (of_nat (of_char c) :: u8)) = c" for c :: char
proof -
  have "(of_char c :: nat) < 256" by simp
  then show ?thesis by (simp add: unat_of_nat)
qed

text \<open>A field that is full runs on into the next.\<close>

lemma c_string_runs_on:
  assumes "n \<le> length s" "CHR 0x00 \<notin> set (take n s)"
  shows "c_string (name_field n s @ r) = take n s @ c_string r"
proof -
  have nz: "b \<noteq> 0" if b: "b \<in> set (string_bytes (take n s))" for b
  proof -
    obtain c where "c \<in> set (take n s)" "b = of_nat (of_char c)" using b unfolding string_bytes_def list.set_map by blast
    then show "b \<noteq> 0" using nonzero_char[of c] assms(2) by metis
  qed
  have "map (\<lambda>b. char_of (unat b)) (string_bytes (take n s)) = take n s"
    by (simp add: string_bytes_def o_def byte_char)
  then show ?thesis
    using takeWhile_append2[of "string_bytes (take n s)" "\<lambda>b. b \<noteq> 0" r, OF nz]
    by (simp add: c_string_def name_field_full[OF assms(1)])
qed

lemma instance_names_ok:
  assumes "fits 32 (op_host opts)"
  shows "instance_string HOST opts user = op_host opts \<and>
     (fits 30 (case op_template opts of None \<Rightarrow> '''' | Some t \<Rightarrow> t) \<longrightarrow>
        instance_string TEMPLATE opts user = (case op_template opts of None \<Rightarrow> '''' | Some t \<Rightarrow> t)) \<and>
     (fits 64 (op_auth_key_file opts) \<longrightarrow> instance_string AUTH_KEY_FN opts user = op_auth_key_file opts) \<and>
     (fits 32 user \<longrightarrow> instance_string USER opts user = user) \<and>
     (32 \<le> length user \<and> CHR 0x00 \<notin> set user \<longrightarrow> instance_string USER opts user = take 32 user @ op_host opts)"
proof -
  define t where "t = (case op_template opts of None \<Rightarrow> '''' | Some t \<Rightarrow> t)"
  define k where "k = op_auth_key_file opts"
  define r where "r = store16 (ucast (op_topo opts)) @ [2, 0]"
  have i: "instance_bytes opts user = name_field 32 user @ name_field 32 (op_host opts) @ name_field 30 t @ name_field 64 k @ r"
    by (simp add: instance_bytes_def t_def k_def r_def)
  have h: "instance_string HOST opts user = op_host opts"
    using c_string_field[OF assms] by (simp add: instance_string_def i HOST_def)
  have t: "fits 30 t \<longrightarrow> instance_string TEMPLATE opts user = t"
    using c_string_field[of 30 t] by (simp add: instance_string_def i TEMPLATE_def)
  have k: "fits 64 k \<longrightarrow> instance_string AUTH_KEY_FN opts user = k"
    using c_string_field[of 64 k] by (simp add: instance_string_def i AUTH_KEY_FN_def)
  have u: "fits 32 user \<longrightarrow> instance_string USER opts user = user"
    using c_string_field[of 32 user] by (simp add: instance_string_def i USER_def)
  have "CHR 0x00 \<notin> set user \<Longrightarrow> CHR 0x00 \<notin> set (take 32 user)" by (meson in_set_takeD)
  then have l: "32 \<le> length user \<and> CHR 0x00 \<notin> set user \<longrightarrow> instance_string USER opts user = take 32 user @ op_host opts"
    using c_string_runs_on[of 32 user] c_string_field[OF assms] by (simp add: instance_string_def i USER_def)
  show ?thesis using h t k u l unfolding t_def k_def by blast
qed

text \<open>
  Names of the instance. User, host, template and key file that are shorter than their fields are what
  the options say. A user name of 32 characters or more is not: what is read as the user, and
  sent to the server with the answer to its challenge, are the first 32 characters with the host's name behind them.
\<close>
theorem instance_names:
  assumes "fits 32 (op_host opts)"
  shows "instance_string HOST opts user = op_host opts \<and>
     (fits 30 (case op_template opts of None \<Rightarrow> '''' | Some t \<Rightarrow> t) \<longrightarrow>
        instance_string TEMPLATE opts user = (case op_template opts of None \<Rightarrow> '''' | Some t \<Rightarrow> t)) \<and>
     (fits 64 (op_auth_key_file opts) \<longrightarrow> instance_string AUTH_KEY_FN opts user = op_auth_key_file opts) \<and>
     (fits 32 user \<longrightarrow> instance_string USER opts user = user) \<and>
     (32 \<le> length user \<and> CHR 0x00 \<notin> set user \<longrightarrow> instance_string USER opts user = take 32 user @ op_host opts)"
  using assms by (rule instance_names_ok)

theorem instance_names_witness:
  "instance_string USER (default_options\<lparr>op_host := ''vhost1''\<rparr>) (replicate 40 CHR ''x'') = replicate 32 CHR ''x'' @ ''vhost1''"
  using instance_names[of "default_options\<lparr>op_host := ''vhost1''\<rparr>" "replicate 40 CHR ''x''"]
  by (simp add: fits_def)

end
