(* ===== verification/Print.thy ===== *)
theory Print
  imports Config Arp_Cache Forwarding
begin

text \<open>
  What the router shows of its state: the text of the printing functions of all parts, both output
  streams taken together in the order of the calls (the Makefile defines \<^verbatim>\<open>_DEBUG_\<close>, so that \<^verbatim>\<open>Debug\<close> prints).
  Two of them matter beyond the screen: the lines of the rule table are those that \<^verbatim>\<open>init_rules_table\<close>
  reads, and the topology is printed in the middle of its changes, following its pointers.
\<close>

section \<open>Numbers and addresses\<close>

definition hex_digit :: "nat \<Rightarrow> char" where
  "hex_digit d = char_of (if d < 10 then 48 + d else 87 + d)"

text \<open>\<^verbatim>\<open>%02x\<close> of a byte; \<^verbatim>\<open>DebugMAC\<close> prints six of them.\<close>

definition hex_byte :: "u8 \<Rightarrow> string" where
  "hex_byte b = [hex_digit (unat b div 16), hex_digit (unat b mod 16)]"

definition debug_mac :: "mac \<Rightarrow> string" where
  "debug_mac m = concat (map (\<lambda>i. hex_byte (m ! i) @ '':'') [0..<5]) @ hex_byte (m ! 5)"

abbreviation TAB :: string where "TAB \<equiv> [CHR 0x09]"
abbreviation NL :: string where "NL \<equiv> [CHR 0x0A]"

section \<open>Lists\<close>

definition sr_print_if :: "sr_if \<Rightarrow> string" where
  "sr_print_if w =
     if_name w @ TAB @ ''HWaddr'' @ debug_mac (if_addr w) @ NL @ TAB @ ''inet addr '' @ inet_ntoa (if_ip w) @ NL"

definition sr_print_if_list :: "sr_if list \<Rightarrow> string" where
  "sr_print_if_list ifs =
     (if ifs = [] then '' Interface list empty '' @ NL else concat (map sr_print_if ifs))"

definition sr_print_routing_table :: "sr_rt list \<Rightarrow> string" where
  "sr_print_routing_table tab =
     (if tab = [] then '' *warning* Routing table empty '' @ NL
      else ''Destination'' @ TAB @ ''Gateway'' @ TAB @ TAB @ ''Mask'' @ TAB @ ''Iface'' @ NL @
           concat (map sr_print_routing_entry tab))"

definition print_cache_entry :: "arp_cache_entry \<Rightarrow> string" where
  "print_cache_entry e =
     ''IP: '' @ inet_ntoa (ip_add e) @ '' MAC: '' @ debug_mac (ac_mac e) @ '' Time when Invalid: '' @
     dec (nat (timenotvalid e mod 2 ^ 64)) @ NL"

definition print_cache :: "arp_cache_entry list \<Rightarrow> string" where
  "print_cache c =
     ''---ARP CACHE---'' @ NL @
     (if c = [] then '' ARP Cache is Empty.'' @ NL else concat (map print_cache_entry c))"

definition print_ft_entry :: "'p conn_scheme \<Rightarrow> string" where
  "print_ft_entry e =
     inet_ntoa (c_ip_s e) @ TAB @ TAB @ inet_ntoa (c_ip_d e) @ TAB @ dec (unat (c_protocol e)) @ TAB @
     dec (unat (c_port_s e)) @ TAB @ TAB @ dec (unat (c_port_d e)) @ NL"

definition ft_heading :: string where
  "ft_heading =
     ''Source IP'' @ TAB @ TAB @ ''Dest IP'' @ TAB @ TAB @ ''Prot'' @ TAB @ ''Source Port'' @ TAB @ ''Dest Port'' @ NL"

definition print_rule_table :: "firewall \<Rightarrow> string" where
  "print_rule_table fw = ''-----Rule Table-----'' @ NL @ ft_heading @ concat (map print_ft_entry (rules fw))"

definition print_flow_table :: "firewall \<Rightarrow> string" where
  "print_flow_table fw = ''-----Flow Table-----'' @ NL @ ft_heading @ concat (map print_ft_entry (flow_table fw))"

definition print_if_config :: "firewall \<Rightarrow> string" where
  "print_if_config fw =
     ''Interface Config:'' @ NL @
     ''External interfaces:'' @ TAB @ concat (map (\<lambda>n. n @ TAB) (exter fw)) @ NL @
     ''Internal interfaces:'' @ TAB @ concat (map (\<lambda>n. n @ TAB) (inter fw)) @ NL"

definition print_nbr :: "neighbor \<Rightarrow> string" where
  "print_nbr n = inet_ntoa (nb_id n) @ '',  ''"

definition print_nbr_list :: "pwospf_if list \<Rightarrow> string" where
  "print_nbr_list ws =
     ''---NEIGHBOR LIST---'' @ NL @
     concat (map (\<lambda>w. pif_name w @ '': '' @ concat (map print_nbr (pif_neighbors w)) @ NL) ws)"

definition print_ftable :: "ftable_entry list \<Rightarrow> string" where
  "print_ftable ft =
     ''--- FORWARDING TABLE ---'' @ NL @
     concat (map (\<lambda>e. ''Prefix: '' @ inet_ntoa (ft_prefix e) @ ''   '' @ ''Mask: '' @ inet_ntoa (ft_mask e) @ ''   '' @
       ''Next Hop: '' @ inet_ntoa (ft_next_hop e) @ ''   '' @ ''Interface: '' @ ft_interface e @ NL) ft) @ NL"

definition print_subs :: "route list \<Rightarrow> string" where
  "print_subs ads =
     ''----Routes----'' @ NL @
     concat (map (\<lambda>a. ''Subnet: '' @ inet_ntoa (prefix a) @ '', '' @ ''Mask: '' @ inet_ntoa (rmask a) @ '', '' @
       ''RID: '' @ inet_ntoa (r_id a) @ '' '' @ ''Next Hop: '' @ inet_ntoa (rnext_hop a) @ '' '' @ NL) ads) @ NL"

text \<open>Subnet, mask and identifier of the advertisements of an update.\<close>

definition print_ads :: "(u32 \<times> u32 \<times> u32) list \<Rightarrow> string" where
  "print_ads ads =
     ''----ADVERTISEMENTS----'' @ NL @
     concat (map (\<lambda>(sub, msk, ident). ''Subnet: '' @ inet_ntoa sub @ '', '' @ ''Mask: '' @ inet_ntoa msk @ '', '' @
       ''RID: '' @ inet_ntoa ident @ '' '' @ NL) ads) @ NL"

section \<open>The topology\<close>

text \<open>Printing what pointers lead to.\<close>

primrec print_each :: "('a \<Rightarrow> string result) \<Rightarrow> 'a list \<Rightarrow> string result" where
  "print_each f [] = Inr []"
| "print_each f (x # xs) = rbind (f x) (\<lambda>t. rbind (print_each f xs) (\<lambda>ts. Inr (t @ ts)))"

definition print_subnet :: "route \<Rightarrow> string" where
  "print_subnet r =
     ''Prefix: '' @ inet_ntoa (prefix r) @ '', '' @ ''Mask: '' @ inet_ntoa (rmask r) @ '', '' @
     ''RID: '' @ inet_ntoa (r_id r) @ NL @ '' ''"

definition print_rt :: "topo \<Rightarrow> nat \<Rightarrow> string result" where
  "print_rt s a =
     rbind (deref s a) (\<lambda>r.
     rbind (print_each (\<lambda>b. rbind (deref s b) (\<lambda>q. Inr ('' '' @ inet_ntoa (rid q) @ '', ''))) (adjacencies r)) (\<lambda>adjs.
       Inr (''ID: '' @ inet_ntoa (rid r) @ NL @ ''Adjacencies:'' @ adjs @ NL @ ''Subnets:'' @
            concat (map print_subnet (subnets r)))))"

definition print_topo :: "topo \<Rightarrow> string result" where
  "print_topo s =
     rbind (print_each (\<lambda>a. rbind (print_rt s a) (\<lambda>t. Inr (t @ NL))) (network s)) (\<lambda>ts.
       Inr (''---TOPOLOGY---'' @ NL @ NL @ ts @ NL))"

lemma print_each_ok: "\<forall>x \<in> set xs. f x = Inr (g x) \<Longrightarrow> print_each f xs = Inr (concat (map g xs))"
  by (induction xs) simp_all

lemma print_each_Inr: "print_each f xs = Inr t \<Longrightarrow> \<forall>x \<in> set xs. \<exists>u. f x = Inr u"
  by (induction xs arbitrary: t) (auto simp: rbind_eq_Inr)

lemma print_each_Inl: "print_each f xs = Inl e \<Longrightarrow> \<exists>x \<in> set xs. f x = Inl e"
  by (induction xs) (auto simp: rbind_eq_Inl)

lemma print_each_fault:
  assumes "\<And>x e. f x = Inl e \<Longrightarrow> e = u" "\<exists>x \<in> set xs. f x = Inl u"
  shows "print_each f xs = Inl u"
proof (cases "print_each f xs")
  case (Inl e)
  then show ?thesis using print_each_Inl[OF Inl] assms(1) by blast
next
  case (Inr t)
  then show ?thesis using print_each_Inr[OF Inr] assms(2) by force
qed

text \<open>What is shown of a router: its identifier, those of its adjacencies, its subnets.\<close>

definition router_text :: "topo \<Rightarrow> nat \<Rightarrow> string" where
  "router_text s a =
     ''ID: '' @ inet_ntoa (rid (rt s a)) @ NL @ ''Adjacencies:'' @
     concat (map (\<lambda>b. '' '' @ inet_ntoa (rid (rt s b)) @ '', '') (adjacencies (rt s a))) @ NL @ ''Subnets:'' @
     concat (map print_subnet (subnets (rt s a)))"

text \<open>
  Printing the topology is safe. In a well-formed database \<^verbatim>\<open>print_topo\<close>, which is called in the middle of
  each update and each expiry, follows no freed pointer and shows every linked router once, in order,
  with the identifiers of its neighbours; if a linked router has been freed, or has an adjacency that has, it
  reads freed memory.
\<close>
theorem print_topo_safe:
  "(wf_topo s \<longrightarrow>
     print_topo s = Inr (''---TOPOLOGY---'' @ NL @ NL @ concat (map (\<lambda>a. router_text s a @ NL) (network s)) @ NL)) \<and>
   ((\<exists>a \<in> set (network s). \<not> alive s a \<or> (\<exists>b \<in> set (adjacencies (rt s a)). \<not> alive s b)) \<longrightarrow>
     print_topo s = Inl Use_after_free)"
proof (intro conjI impI)
  assume wf: "wf_topo s"
  have "print_rt s a = Inr (router_text s a)" if "a \<in> set (network s)" for a
  proof -
    have "\<forall>b \<in> set (adjacencies (rt s a)). rbind (deref s b) (\<lambda>q. Inr ('' '' @ inet_ntoa (rid q) @ '', '')) =
        Inr ('' '' @ inet_ntoa (rid (rt s b)) @ '', '')"
      using wf_adj[OF wf that] wf by auto
    from print_each_ok[OF this] show ?thesis using wf that by (simp add: print_rt_def router_text_def)
  qed
  then show "print_topo s = Inr (''---TOPOLOGY---'' @ NL @ NL @ concat (map (\<lambda>a. router_text s a @ NL) (network s)) @ NL)"
    by (simp add: print_topo_def print_each_ok[where g = "\<lambda>a. router_text s a @ NL"])
next
  have d: "\<not> alive s b \<Longrightarrow> deref s b = Inl Use_after_free" for b by (auto simp: deref_def alive_def)
  have dl: "deref s b = Inl e \<Longrightarrow> e = Use_after_free" for b e
    by (auto simp: deref_def split: if_splits option.splits)
  have rl: "print_rt s a = Inl e \<Longrightarrow> e = Use_after_free" for a e
    unfolding print_rt_def by (auto simp: rbind_eq_Inl dest!: print_each_Inl dl)
  assume "\<exists>a \<in> set (network s). \<not> alive s a \<or> (\<exists>b \<in> set (adjacencies (rt s a)). \<not> alive s b)"
  then obtain a where a: "a \<in> set (network s)" "\<not> alive s a \<or> (\<exists>b \<in> set (adjacencies (rt s a)). \<not> alive s b)" by blast
  have "print_rt s a = Inl Use_after_free"
  proof (cases "alive s a")
    case True
    then obtain b where b: "b \<in> set (adjacencies (rt s a))" "\<not> alive s b" using a(2) by blast
    have "print_each (\<lambda>b. rbind (deref s b) (\<lambda>q. Inr ('' '' @ inet_ntoa (rid q) @ '', ''))) (adjacencies (rt s a)) =
        Inl Use_after_free"
      by (rule print_each_fault) (use dl b d in \<open>auto simp: rbind_eq_Inl\<close>)
    then show ?thesis using True by (simp add: print_rt_def)
  qed (simp add: print_rt_def d)
  then have "print_each (\<lambda>a. rbind (print_rt s a) (\<lambda>t. Inr (t @ NL))) (network s) = Inl Use_after_free"
    by (intro print_each_fault) (use rl a(1) in \<open>auto simp: rbind_eq_Inl\<close>)
  then show "print_topo s = Inl Use_after_free" by (simp add: print_topo_def)
qed

theorem print_topo_safe_witness:
  "print_topo (alone 0 1) =
     Inr (''---TOPOLOGY---'' @ NL @ NL @ ''ID: 1.0.0.0'' @ NL @ ''Adjacencies:'' @ NL @ ''Subnets:'' @ NL @ NL) \<and>
   print_topo ((alone 0 1)\<lparr>store := []\<rparr>) = Inl Use_after_free"
proof -
  have n: "network (alone 0 1) = [0]" "rt (alone 0 1) 0 = new_router 0 1"
    by (simp_all add: alone_def add_new_router_def rt_def)
  have "inet_ntoa 1 = ''1.0.0.0''" by code_simp
  then have t: "router_text (alone 0 1) 0 = ''ID: 1.0.0.0'' @ NL @ ''Adjacencies:'' @ NL @ ''Subnets:''"
    by (simp add: router_text_def n new_router_def)
  have "\<not> alive ((alone 0 1)\<lparr>store := []\<rparr>) 0" by (simp add: alive_def)
  then show ?thesis
    using print_topo_safe[of "alone 0 1"] print_topo_safe[of "(alone 0 1)\<lparr>store := []\<rparr>"] wf_alone[of 0 1] n(1)
    by (simp add: t)
qed

section \<open>The rules, printed and read\<close>

lemma dec_plain_prefix: "\<forall>c \<in> set (dec n). isdigit c" "dec n \<noteq> []" "number 10 digit_val (dec n) = n"
  using dec_facts[of n] by blast+

lemma scan_u_dec:
  assumes "blank_str ws" "n < 2 ^ 64" "s = [] \<or> \<not> isdigit (hd s)"
  shows "scan_u (ws @ dec n @ s) = Some (of_nat n, s)"
proof -
  obtain c cs where d: "dec n = c # cs" using dec_plain_prefix(2)[of n] by (cases "dec n") auto
  have c: "isdigit c" using dec_plain_prefix(1)[of n] d by simp
  have "dropWhile isspace (ws @ dec n @ s) = dec n @ s"
    using digits_then(2)[of ws isspace "dec n @ s"] assms(1) not_digit_space[OF c] d by (auto simp: blank_str_def)
  moreover have "takeWhile isdigit (dec n @ s) = dec n" "dropWhile isdigit (dec n @ s) = s"
    using dec_plain_prefix(1)[of n] assms(3) by (intro digits_then; auto)+
  moreover have "c \<noteq> CHR ''-''" "c \<noteq> CHR ''+''" using c by (auto simp: isdigit_def)
  ultimately show ?thesis using assms(2) dec_plain_prefix(3)[of n] by (simp add: scan_u_def Let_def d)
qed

lemma rule_line:
  fixes r :: "'p conn_scheme"
  shows "\<exists>l. print_ft_entry r = l @ NL \<and> CHR 0x0A \<notin> set l \<and> length l < 8191 \<and> c_line (l @ NL) = l @ NL \<and>
     (\<forall>a b. \<exists>t. scan_strings [a, b] (l @ NL) = Inr ([inet_ntoa (c_ip_s r), inet_ntoa (c_ip_d r)], Some t) \<and>
        (\<forall>x y z. scan_nums [x, y, z] t =
           [of_nat (unat (c_protocol r)), of_nat (unat (c_port_s r)), of_nat (unat (c_port_d r))]))"
proof -
  let ?s = "inet_ntoa (c_ip_s r)" and ?d = "inet_ntoa (c_ip_d r)"
    and ?p = "dec (unat (c_protocol r))" and ?x = "dec (unat (c_port_s r))" and ?y = "dec (unat (c_port_d r))"
  let ?t = "TAB @ ?p @ TAB @ ?x @ [CHR 0x09, CHR 0x09] @ ?y @ NL"
  let ?l = "?s @ [CHR 0x09, CHR 0x09] @ ?d @ TAB @ ?p @ TAB @ ?x @ [CHR 0x09, CHR 0x09] @ ?y"
  have bl: "blank_str []" "blank_str TAB" "blank_str [CHR 0x09, CHR 0x09]" by (simp_all add: blank_str_def)
  have nd: "\<not> isdigit CHR 0x09" "\<not> isdigit CHR 0x0A" by (simp_all add: isdigit_def)
  have s: "scan_strings [a, b] (?l @ NL) = Inr ([?s, ?d], Some ?t)" for a b
    using scan_strings_word[OF plain_ntoa bl(1), of "[CHR 0x09, CHR 0x09] @ ?d @ ?t" a "[b]" "c_ip_s r"]
      scan_strings_word[OF plain_ntoa bl(3), of ?t b "[]" "c_ip_d r"]
    by simp
  have b: "unat (c_protocol r) < 2 ^ 8" "unat (c_port_s r) < 2 ^ 16" "unat (c_port_d r) < 2 ^ 16"
    using unsigned_less[of "c_protocol r", where ?'a = nat] unsigned_less[of "c_port_s r", where ?'a = nat]
      unsigned_less[of "c_port_d r", where ?'a = nat] by simp_all
  have n: "scan_nums [x, y, z] ?t = [of_nat (unat (c_protocol r)), of_nat (unat (c_port_s r)), of_nat (unat (c_port_d r))]" for x y z
    using scan_u_dec[OF bl(2), of "unat (c_protocol r)" "TAB @ ?x @ [CHR 0x09, CHR 0x09] @ ?y @ NL"]
      scan_u_dec[OF bl(2), of "unat (c_port_s r)" "[CHR 0x09, CHR 0x09] @ ?y @ NL"]
      scan_u_dec[OF bl(3), of "unat (c_port_d r)" NL] b nd by simp
  have dg: "CHR 0x0A \<notin> set (dec n) \<and> CHR 0x00 \<notin> set (dec n)" for n
    using dec_plain_prefix(1)[of n] by (auto simp: isdigit_def)
  have pl: "CHR 0x0A \<notin> set t \<and> CHR 0x00 \<notin> set t \<and> length t \<le> 31" if "plain t" for t
    using that isspace_consts(2) unfolding plain_def by blast
  have ld: "length (dec n) \<le> 9" if "n < 2 ^ 16" for n
    using that by (simp add: dec.simps[of n] dec.simps[of "n div 10"] dec.simps[of "n div 10 div 10"]
        dec.simps[of "n div 10 div 10 div 10"] dec.simps[of "n div 10 div 10 div 10 div 10"])
  have "length ?l < 8191"
    using pl[OF plain_ntoa, of "c_ip_s r"] pl[OF plain_ntoa, of "c_ip_d r"] ld[of "unat (c_protocol r)"]
      ld[OF b(2)] ld[OF b(3)] b(1) by simp
  moreover have "CHR 0x0A \<notin> set ?l" "CHR 0x00 \<notin> set ?l" using pl[OF plain_ntoa] dg by simp_all
  moreover from this(2) have "c_line (?l @ NL) = ?l @ NL"
    unfolding c_line_def by (intro takeWhile_eq_all_conv[THEN iffD2]) auto
  moreover have "print_ft_entry r = ?l @ NL" by (simp add: print_ft_entry_def)
  ultimately show ?thesis using s n by (intro exI[of _ ?l]) blast
qed

text \<open>The rule that a line adds: addresses, protocol and ports, no time and no updates.\<close>

abbreviation conn_of :: "'p conn_scheme \<Rightarrow> conn" where "conn_of \<equiv> conn.truncate"

lemma ucast_widened [simp]: "ucast (ucast (p :: u8) :: u32) = p" "ucast (ucast (q :: u16) :: u32) = q"
  by (auto intro!: bit_word_eqI simp: bit_simps)

lemma read_rule:
  fixes r :: "'p conn_scheme"
  assumes "length bufs = 2" "length nums = 3"
  shows "\<exists>ns. length ns = 3 \<and> (\<forall>f. load_rule_lines bufs nums (file_lines (print_ft_entry r @ f)) fw =
     load_rule_lines [inet_ntoa (c_ip_s r), inet_ntoa (c_ip_d r)] ns (file_lines f) (add_rule fw (conn_of r))) \<and>
     ns = [of_nat (unat (c_protocol r)), of_nat (unat (c_port_s r)), of_nat (unat (c_port_d r))]"
proof -
  obtain l where l: "print_ft_entry r = l @ NL" "CHR 0x0A \<notin> set l" "length l < 8191" "c_line (l @ NL) = l @ NL"
     "\<forall>a b. \<exists>t. scan_strings [a, b] (l @ NL) = Inr ([inet_ntoa (c_ip_s r), inet_ntoa (c_ip_d r)], Some t) \<and>
        (\<forall>x y z. scan_nums [x, y, z] t =
           [of_nat (unat (c_protocol r)), of_nat (unat (c_port_s r)), of_nat (unat (c_port_d r))])"
    using rule_line[of r] by blast
  obtain a b where bufs: "bufs = [a, b]" using assms(1) by (auto simp: numeral_eq_Suc length_Suc_conv)
  obtain x y z where nums: "nums = [x, y, z]" using assms(2) by (auto simp: numeral_eq_Suc length_Suc_conv)
  obtain t where t: "scan_strings [a, b] (l @ NL) = Inr ([inet_ntoa (c_ip_s r), inet_ntoa (c_ip_d r)], Some t)"
    "scan_nums [x, y, z] t = [of_nat (unat (c_protocol r)), of_nat (unat (c_port_s r)), of_nat (unat (c_port_d r))]"
    using l(5) by blast
  show ?thesis
    using l(1-4) t by (simp add: file_lines_line bufs nums inet_aton_ntoa Let_def conn.truncate_def)
qed

lemma read_rules:
  fixes rs :: "'p conn_scheme list"
  assumes "length bufs = 2" "length nums = 3"
  shows "\<exists>bufs' nums'. length bufs' = 2 \<and> length nums' = 3 \<and>
     (rs \<noteq> [] \<longrightarrow> bufs' = [inet_ntoa (c_ip_s (last rs)), inet_ntoa (c_ip_d (last rs))] \<and>
        nums' = [ucast (c_protocol (last rs)), ucast (c_port_s (last rs)), ucast (c_port_d (last rs))]) \<and>
     load_rule_lines bufs nums (file_lines (concat (map print_ft_entry rs) @ f)) fw =
     load_rule_lines bufs' nums' (file_lines f) (foldl (\<lambda>fw r. add_rule fw (conn_of r)) fw rs)"
  using assms
proof (induction rs arbitrary: bufs nums fw)
  case (Cons r rs)
  let ?b = "[inet_ntoa (c_ip_s r), inet_ntoa (c_ip_d r)]"
    and ?n = "[ucast (c_protocol r), ucast (c_port_s r), ucast (c_port_d r)] :: u32 list"
  have 1: "load_rule_lines bufs nums (file_lines (print_ft_entry r @ concat (map print_ft_entry rs) @ f)) fw =
      load_rule_lines ?b ?n (file_lines (concat (map print_ft_entry rs) @ f)) (add_rule fw (conn_of r))"
    using read_rule[OF Cons.prems, of r fw] by auto
  obtain bufs' nums' where "length bufs' = 2" "length nums' = 3"
     "rs \<noteq> [] \<longrightarrow> bufs' = [inet_ntoa (c_ip_s (last rs)), inet_ntoa (c_ip_d (last rs))] \<and>
        nums' = [ucast (c_protocol (last rs)), ucast (c_port_s (last rs)), ucast (c_port_d (last rs))]"
     "load_rule_lines ?b ?n (file_lines (concat (map print_ft_entry rs) @ f)) (add_rule fw (conn_of r)) =
      load_rule_lines bufs' nums' (file_lines f) (foldl (\<lambda>fw r. add_rule fw (conn_of r)) (add_rule fw (conn_of r)) rs)"
    using Cons.IH[of ?b ?n "add_rule fw (conn_of r)"] by auto
  then show ?case using 1
    by (cases "rs = []") (auto intro!: exI[of _ ?b] exI[of _ ?n])
qed auto

lemma add_rules: "foldl (\<lambda>fw r. add_rule fw (conn_of r)) fw rs = fw\<lparr>rules := rules fw @ map (\<lambda>r. new_entry (conn_of r) 0) rs\<rparr>"
  by (induction rs arbitrary: fw) (simp_all add: add_rule_def)

lemma new_entry_truncate: "new_entry (conn_of r) 0 = r" if "exp_time r = 0" "ttl_updates r = 0"
  using that by (simp add: new_entry_def conn.truncate_def)

lemma rules_read_ok:
  assumes "\<forall>r \<in> set rs. exp_time r = 0 \<and> ttl_updates r = 0" "length junk = 2" "length nums = 3"
  shows "init_rules_table junk nums (Some (concat (map print_ft_entry rs))) fw = Inr (True, fw\<lparr>rules := rules fw @ rs\<rparr>) \<and>
     (rs \<noteq> [] \<longrightarrow> init_rules_table junk nums (Some (concat (map print_ft_entry rs) @ NL)) fw =
        Inr (True, fw\<lparr>rules := rules fw @ rs @ [last rs]\<rparr>))"
proof -
  have nil: "file_lines [] = []" by (simp add: file_lines.simps)
  have one: "file_lines NL = [NL]" using file_lines_line[of "[]" "[]"] nil by simp
  have e: "map (\<lambda>r. new_entry (conn_of r) 0) rs = rs" using assms(1) by (intro map_idI) (auto intro: new_entry_truncate)
  have a: "foldl (\<lambda>fw r. add_rule fw (conn_of r)) fw rs = fw\<lparr>rules := rules fw @ rs\<rparr>" by (simp add: add_rules e)
  have "init_rules_table junk nums (Some (concat (map print_ft_entry rs) @ [])) fw = Inr (True, fw\<lparr>rules := rules fw @ rs\<rparr>)"
    using read_rules[OF assms(2,3), of rs "[]" fw] nil by (auto simp: init_rules_table_def a)
  moreover have "init_rules_table junk nums (Some (concat (map print_ft_entry rs) @ NL)) fw =
        Inr (True, fw\<lparr>rules := rules fw @ rs @ [last rs]\<rparr>)" if ne: "rs \<noteq> []"
  proof -
    let ?r = "last rs"
    have "exp_time ?r = 0" "ttl_updates ?r = 0" using assms(1) ne by simp_all
    then have "load_rule_lines [inet_ntoa (c_ip_s ?r), inet_ntoa (c_ip_d ?r)]
        [ucast (c_protocol ?r), ucast (c_port_s ?r), ucast (c_port_d ?r)] [NL] (fw\<lparr>rules := rules fw @ rs\<rparr>) =
        Inr (True, fw\<lparr>rules := rules fw @ rs @ [?r]\<rparr>)"
      using new_entry_truncate[of ?r]
      by (simp add: c_line_def scan_s_def inet_aton_ntoa add_rule_def Let_def conn.truncate_def)
    then show ?thesis using read_rules[OF assms(2,3), of rs NL fw] ne one by (auto simp: init_rules_table_def a)
  qed
  ultimately show ?thesis by simp
qed

text \<open>
  The rules are read as they are printed. A file with the entries of \<^verbatim>\<open>print_rule_table\<close>, without its
  heading, is one from which \<^verbatim>\<open>init_rules_table\<close> builds exactly these rules, in order, behind those
  there are; a blank line at its end repeats the last rule, because what the previous line left is used again.
\<close>
theorem rules_read:
  assumes "\<forall>r \<in> set rs. exp_time r = 0 \<and> ttl_updates r = 0" "length junk = 2" "length nums = 3"
  shows "init_rules_table junk nums (Some (concat (map print_ft_entry rs))) fw = Inr (True, fw\<lparr>rules := rules fw @ rs\<rparr>) \<and>
     (rs \<noteq> [] \<longrightarrow> init_rules_table junk nums (Some (concat (map print_ft_entry rs) @ NL)) fw =
        Inr (True, fw\<lparr>rules := rules fw @ rs @ [last rs]\<rparr>))"
  using assms by (rule rules_read_ok)

definition web_rule :: ft_entry where
  "web_rule = \<lparr>c_ip_s = load32 128 220 224 95, c_ip_d = load32 171 67 241 245, c_protocol = 6, c_port_s = 0,
     c_port_d = 80, exp_time = 0, ttl_updates = 0\<rparr>"

theorem rules_read_witness:
  "init_rules_table [[], []] [1, 2, 3] (Some (''128.220.224.95'' @ TAB @ TAB @ ''171.67.241.245'' @ TAB @ ''6'' @ TAB @ ''0'' @
     TAB @ TAB @ ''80'' @ NL)) empty_fw = Inr (True, empty_fw\<lparr>rules := [web_rule]\<rparr>)"
proof -
  have "print_ft_entry web_rule = ''128.220.224.95'' @ TAB @ TAB @ ''171.67.241.245'' @ TAB @ ''6'' @ TAB @ ''0'' @
     TAB @ TAB @ ''80'' @ NL" by code_simp
  then show ?thesis
    using rules_read[of "[web_rule]" "[[], []]" "[1, 2, 3]" empty_fw] by (simp add: web_rule_def empty_fw_def)
qed

end
