(* ===== verification/Startup.thy ===== *)
theory Startup
  imports Options Print
begin

text \<open>
  From the command line to the main loop (\<^verbatim>\<open>sr_main.c\<close>, \<^verbatim>\<open>sr_init\<close> in \<^verbatim>\<open>sr_router.c\<close>): the routing table, the
  packet log, the session, the firewall's files, and the state in which the first frame finds the router.
\<close>

section \<open>Definitions\<close>

text \<open>
  The machine: the files that can be read and those that can be written, the password file's entry for
  the user, the address that \<^verbatim>\<open>gethostbyname\<close> finds, and which addresses and ports a socket connects to.
\<close>

type_synonym files = "string \<Rightarrow> string option"

record machine =
  mc_files :: files
  mc_opens :: "string \<Rightarrow> bool"
  mc_login :: "string option"
  mc_resolve :: "string \<Rightarrow> u32 option"
  mc_connects :: "u32 \<Rightarrow> u16 \<Rightarrow> bool"

text \<open>
  What uninitialised buffers hold: the four of \<^verbatim>\<open>sr_load_rt\<close>, the two and three of \<^verbatim>\<open>init_rules_table\<close>, the
  two of \<^verbatim>\<open>init_if_config\<close>.
\<close>

record buffers =
  bf_rt :: "string list"
  bf_rules :: "string list"
  bf_nums :: "u32 list"
  bf_if :: "string list"

definition no_fw :: firewall where
  "no_fw = \<lparr>rules = [], flow_table = [], ft_size = 0, inter = [], exter = []\<rparr>"

definition sr_init :: "buffers \<Rightarrow> files \<Rightarrow> router_state \<Rightarrow> router_state result" where
  "sr_init bf fs r =
     rbind (init_rules_table (bf_rules bf) (bf_nums bf) (fs ''rules'') no_fw) (\<lambda>(ok, fw1).
     rbind (rassert ok) (\<lambda>_.
     rbind (init_if_config_file (bf_if bf) (fs ''if_config'') fw1) (\<lambda>(ok2, fw2).
     rbind (rassert ok2) (\<lambda>_. Inr (r\<lparr>ri_fw := fw2, ri_arp := arp_init\<rparr>)))))"

text \<open>
  The lines of \<^verbatim>\<open>ospf_config\<close>, from which \<^verbatim>\<open>pwospf_init\<close> takes the area: what \<^verbatim>\<open>sscanf\<close> finds on each.
\<close>

definition config_numbers :: "string \<Rightarrow> u32 option list" where
  "config_numbers f = map (\<lambda>l. map_option fst (scan_u (c_line l))) (file_lines f)"

lemma length_dec_pow: "n < 10 ^ Suc k \<Longrightarrow> length (dec n) \<le> Suc k"
proof (induction k arbitrary: n)
  case 0
  then show ?case by (simp add: dec.simps[of n])
next
  case (Suc k)
  then have "n div 10 < 10 ^ Suc k" by (simp add: less_mult_imp_div_less)
  with Suc.IH show ?case by (simp add: dec.simps[of n])
qed

text \<open>A file with the number of the area on its line.\<close>

lemma area_read:
  fixes area :: u32
  shows "read_config junk (Some (config_numbers (dec (unat area) @ NL))) = area"
proof -
  have a: "unat area < 2 ^ 32" using unsigned_less[of area, where ?'a = nat] by simp
  then have l: "length (dec (unat area)) < 8191" using length_dec_pow[of "unat area" 9] by simp
  have d: "CHR 0x0A \<notin> set (dec (unat area))" "CHR 0x00 \<notin> set (dec (unat area))"
    using dec_plain_prefix(1)[of "unat area"] by (auto simp: isdigit_def)
  have "c_line (dec (unat area) @ NL) = dec (unat area) @ NL"
    unfolding c_line_def using d(2) by (intro takeWhile_eq_all_conv[THEN iffD2]) auto
  moreover have "scan_u (dec (unat area) @ NL) = Some (of_nat (unat area), NL)"
    using scan_u_dec[of "[]" "unat area" NL] a by (simp add: blank_str_def isdigit_def)
  moreover have "file_lines [] = []" by (simp add: file_lines.simps)
  ultimately show ?thesis
    by (simp add: config_numbers_def file_lines_line[OF d(1) l] read_config_def)
qed

text \<open>The file system after the session's writes.\<close>

definition with_written :: "(string \<times> bytes) list \<Rightarrow> files \<Rightarrow> files" where
  "with_written ws fs name =
     (case map_of (rev ws) name of
        Some d \<Rightarrow> Some (map (\<lambda>b. char_of (unat b)) d)
      | None \<Rightarrow> fs name)"

text \<open>
  \<^verbatim>\<open>sr_connect_to_server\<close> from its beginning: the server is looked up, the socket is connected, and the
  dialogue follows.
\<close>

definition connect_and_open ::
  "machine \<Rightarrow> string \<Rightarrow> u16 \<Rightarrow> vns_env \<Rightarrow> vns_env \<Rightarrow> vns_env \<Rightarrow> sock_event list \<Rightarrow> vns_state \<Rightarrow>
   (int \<times> sock_event list \<times> vns_state) result" where
  "connect_and_open mc server port e1 e2 e3 s st =
     (case mc_resolve mc server of
        None \<Rightarrow> Inr (- 1, s, st)
      | Some addr \<Rightarrow>
          if mc_connects mc addr (htons port) then sr_connect_to_server e1 e2 e3 s st else Inr (- 1, s, st))"

text \<open>
  The pieces of \<^verbatim>\<open>main\<close>. \<open>raw\<close> is the \<^verbatim>\<open>sr_instance\<close> on the stack, of which \<^verbatim>\<open>sr_init_instance\<close> clears the lists only. The log is opened
  as \<open>open_log\<close> says, with \<open>None\<close> for the failure; the key file is read when the server asks.
\<close>

definition sr_init_instance :: "router_state \<Rightarrow> router_state" where
  "sr_init_instance raw = raw\<lparr>ri_ifs := [], ri_rt := []\<rparr>"

definition open_log :: "machine \<Rightarrow> options \<Rightarrow> bytes option option" where
  "open_log mc opts =
     (case op_logfile opts of
        None \<Rightarrow> Some None
      | Some l \<Rightarrow> map_option Some (sr_dump_open (mc_opens mc) l 0 (word_of_int PACKET_DUMP_SIZE)))"

definition instance_of :: "machine \<Rightarrow> options \<Rightarrow> router_state \<Rightarrow> sr_rt list \<Rightarrow> bytes option \<Rightarrow> vns_state" where
  "instance_of mc opts raw tab l =
     (let field = (\<lambda>k. instance_string k opts (user_name (mc_login mc) opts))
      in \<lparr>vs_router = (sr_init_instance raw)\<lparr>ri_rt := tab\<rparr>, vs_ready = False, vs_user = field USER, vs_host = field HOST,
          vs_template = field TEMPLATE, vs_topo_id = ucast (op_topo opts), vs_files = [], vs_out = [], vs_log = l\<rparr>)"

definition with_key :: "machine \<Rightarrow> options \<Rightarrow> vns_env \<Rightarrow> vns_env" where
  "with_key mc opts e =
     e\<lparr>ve_auth_key := mc_files mc (instance_string AUTH_KEY_FN opts (user_name (mc_login mc) opts))\<rparr>"

text \<open>\<^verbatim>\<open>sr_load_rt_wrap\<close>: \<open>None\<close> is the \<^verbatim>\<open>exit(1)\<close>; otherwise the table is shown between two lines.\<close>

definition sr_load_rt_wrap :: "string list \<Rightarrow> string option \<Rightarrow> sr_rt list \<Rightarrow> (sr_rt list \<times> string) option result" where
  "sr_load_rt_wrap junk f tab =
     rbind (sr_load_rt junk f tab) (\<lambda>(ret, tab').
       let line = replicate 45 CHR ''-'' @ NL
       in Inr (if ret \<noteq> 0 then None
               else Some (tab', ''Loading routing table'' @ NL @ line @ sr_print_routing_table tab' @ line)))"

lemma sr_load_rt_wrap_ok: "sr_load_rt junk f tab = Inr (0, tab') \<Longrightarrow> \<exists>t. sr_load_rt_wrap junk f tab = Inr (Some (tab', t))"
  by (simp add: sr_load_rt_wrap_def Let_def)

lemma sr_load_rt_wrap_missing: "sr_load_rt_wrap junk None tab = Inr None"
  by (simp add: sr_load_rt_wrap_def sr_load_rt_def)

text \<open>
  \<^verbatim>\<open>main\<close> up to its loop: \<open>Inl\<close> of the inner sum is the exit status, \<open>Inr\<close> the state the loop starts in.
\<close>

definition sr_main ::
  "buffers \<Rightarrow> machine \<Rightarrow> string list \<Rightarrow> router_state \<Rightarrow> vns_env \<Rightarrow> vns_env \<Rightarrow> vns_env \<Rightarrow> sock_event list \<Rightarrow>
   (int + (sock_event list \<times> vns_state)) result" where
  "sr_main bf mc argv raw e1 e2 e3 s =
     (case read_options argv of
        None \<Rightarrow> Inr (Inl 0)
      | Some opts \<Rightarrow>
          rbind (case op_template opts of
                   None \<Rightarrow> sr_load_rt_wrap (bf_rt bf) (mc_files mc (op_rtable opts)) []
                 | Some _ \<Rightarrow> Inr (Some ([], ''''))) (\<lambda>x. case x of
              None \<Rightarrow> Inr (Inl 1)
            | Some (tab, shown) \<Rightarrow>
                (case open_log mc opts of
                   None \<Rightarrow> Inr (Inl 1)
                 | Some l \<Rightarrow>
                     rbind (connect_and_open mc (op_server opts) (ucast (op_port opts))
                        (with_key mc opts e1) (with_key mc opts e2) (with_key mc opts e3) s
                        (instance_of mc opts raw tab l)) (\<lambda>(c, s1, st1).
                     if c = - 1 then Inr (Inl 1)
                     else rbind (case op_template opts of
                            None \<Rightarrow> Inr (Some (ri_rt (vs_router st1), ''''))
                          | Some _ \<Rightarrow> sr_load_rt_wrap (bf_rt bf)
                                       (with_written (vs_files st1) (mc_files mc) ''rtable.vrhost'') (ri_rt (vs_router st1))) (\<lambda>y. case y of
                         None \<Rightarrow> Inr (Inl 1)
                       | Some (tab2, shown2) \<Rightarrow>
                           rbind (sr_init bf (mc_files mc) ((vs_router st1)\<lparr>ri_rt := tab2\<rparr>)) (\<lambda>r.
                             Inr (Inr (s1, st1\<lparr>vs_router := r\<rparr>))))))))"

text \<open>
  The whole of \<^verbatim>\<open>main\<close>, over the messages of its loop: when the loop ends, the log is closed and the program
  ends with status 0. What is left is the status, the log's contents, and the instance.
\<close>

definition sr_destroy_instance :: "vns_state \<Rightarrow> bytes option \<times> vns_state" where
  "sr_destroy_instance st = (vs_log st, st\<lparr>vs_log := None\<rparr>)"

definition sr_program ::
  "buffers \<Rightarrow> machine \<Rightarrow> string list \<Rightarrow> router_state \<Rightarrow> vns_env \<Rightarrow> vns_env \<Rightarrow> vns_env \<Rightarrow> vns_env list \<Rightarrow> sock_event list \<Rightarrow>
   ((int \<times> (bytes option \<times> vns_state) option) + (sock_event list \<times> vns_state)) result" where
  "sr_program bf mc argv raw e1 e2 e3 es s =
     rbind (sr_main bf mc argv raw e1 e2 e3 s) (\<lambda>x. case x of
       Inl status \<Rightarrow> Inr (Inl (status, None))
     | Inr (s1, st1) \<Rightarrow>
         rbind (serve es s1 st1) (\<lambda>(ret, s2, st2).
           if ret = 1 then Inr (Inr (s2, st2)) else Inr (Inl (0, Some (sr_destroy_instance st2)))))"

section \<open>The way to the first frame\<close>

lemma add_rule_keeps: "flow_table (add_rule fw c) = flow_table fw \<and> ft_size (add_rule fw c) = ft_size fw"
  by (simp add: add_rule_def)

lemma load_rule_lines_keeps:
  "load_rule_lines bufs nums ls fw = Inr (ok, fw') \<Longrightarrow>
   flow_table fw' = flow_table fw \<and> ft_size fw' = ft_size fw"
proof (induction ls arbitrary: bufs nums fw)
  case (Cons l ls)
  then obtain bs r where s: "scan_strings bufs (c_line l) = Inr (bs, r)" by (auto simp: rbind_eq_Inr)
  show ?case
  proof (cases "\<exists>src dst. inet_aton (bs ! 0) = Some src \<and> inet_aton (bs ! 1) = Some dst")
    case True
    then obtain src dst where "inet_aton (bs ! 0) = Some src" "inet_aton (bs ! 1) = Some dst" by blast
    with Cons.prems s have "\<exists>ns c. load_rule_lines bs ns ls (add_rule fw c) = Inr (ok, fw')" by (auto simp: Let_def)
    with Cons.IH show ?thesis by (metis add_rule_keeps)
  next
    case False
    with Cons.prems s show ?thesis by (auto simp: Let_def split: option.splits)
  qed
qed simp

lemma init_if_config_keeps:
  "flow_table (init_if_config ls fw) = flow_table fw \<and> ft_size (init_if_config ls fw) = ft_size fw"
  by (simp add: init_if_config_def split: prod.split)

lemma init_if_config_rules:
  assumes "init_if_config_file junk f fw = Inr (ok, fw')"
  shows "rules fw' = rules fw"
  using assms by (auto simp: init_if_config_file_def rbind_eq_Inr init_if_config_def split: option.splits prod.split)

lemma sr_init_ok:
  assumes "init_rules_table (bf_rules bf) (bf_nums bf) (fs ''rules'') no_fw = Inr (True, fw1)"
    and "init_if_config_file (bf_if bf) (fs ''if_config'') fw1 = Inr (True, fw2)"
  shows "sr_init bf fs r = Inr (r\<lparr>ri_fw := fw2, ri_arp := arp_init\<rparr>) \<and> flow_table fw2 = [] \<and> ft_size fw2 = 0"
proof -
  have "flow_table fw1 = [] \<and> ft_size fw1 = 0"
    using assms(1) load_rule_lines_keeps[of _ _ _ no_fw True fw1]
    by (auto simp: init_rules_table_def no_fw_def split: option.splits)
  moreover have "flow_table fw2 = flow_table fw1 \<and> ft_size fw2 = ft_size fw1"
    using assms(2) init_if_config_keeps by (auto simp: init_if_config_file_def rbind_eq_Inr split: option.splits)
  ultimately show ?thesis using assms by (simp add: sr_init_def)
qed

text \<open>The same from a file of printed rules.\<close>

lemma sr_init_files:
  assumes "fs ''rules'' = Some (concat (map print_ft_entry rs))" "length (bf_rules bf) = 2" "length (bf_nums bf) = 3"
    and "\<forall>r \<in> set rs. exp_time r = 0 \<and> ttl_updates r = 0"
    and "init_if_config_file (bf_if bf) (fs ''if_config'') (no_fw\<lparr>rules := rs\<rparr>) = Inr (True, fw)"
  shows "sr_init bf fs r = Inr (r\<lparr>ri_fw := fw, ri_arp := arp_init\<rparr>)" "flow_table fw = []" "ft_size fw = 0" "rules fw = rs"
proof -
  have "init_rules_table (bf_rules bf) (bf_nums bf) (fs ''rules'') no_fw = Inr (True, no_fw\<lparr>rules := rs\<rparr>)"
    using rules_read_ok[OF assms(4,2,3), of no_fw] assms(1) by (simp add: no_fw_def)
  from sr_init_ok[OF this assms(5)]
  show "sr_init bf fs r = Inr (r\<lparr>ri_fw := fw, ri_arp := arp_init\<rparr>)" "flow_table fw = []" "ft_size fw = 0" by blast+
  show "rules fw = rs" using init_if_config_rules[OF assms(5)] by simp
qed

text \<open>
  C16. The start. When the options name no template and a server that can be reached, the routing table is a file of printed
  entries over the interfaces, the rules are a file of printed rules, the interface categories and the key can be read, the log, if any, can be written, and
  the server authenticates the user and describes at most ten interfaces, one of them
  \<^verbatim>\<open>eth0\<close>, \<^verbatim>\<open>main\<close> reaches its loop, and the loop's first message leaves the router in a state in which its
  runs begin: with the routes and rules of the files, the categories, and the
  interfaces described.
\<close>
theorem main_boots:
  assumes opts: "read_options argv = Some opts" "op_template opts = None"
      "mc_files mc (op_rtable opts) = Some (concat (map sr_print_routing_entry table))"
      "length (bf_rt bf) = 4" "table \<noteq> []" "\<forall>r \<in> set table. plain (rt_interface r)"
    and names: "fits 32 (op_host opts)" "fits 64 (op_auth_key_file opts)"
    and reached: "mc_resolve mc (op_server opts) = Some addr" "mc_connects mc addr (htons (ucast (op_port opts)))"
      "open_log mc opts = Some l"
    and fw: "mc_files mc ''rules'' = Some (concat (map print_ft_entry rs))" "length (bf_rules bf) = 2" "length (bf_nums bf) = 3"
      "\<forall>r \<in> set rs. exp_time r = 0 \<and> ttl_updates r = 0"
      "init_if_config_file (bf_if bf) (mc_files mc ''if_config'') (no_fw\<lparr>rules := rs\<rparr>) = Inr (True, fw)"
    and auth: "mc_files mc (op_auth_key_file opts) = Some key" "key \<noteq> []" "ve_send e1" "ve_send e2"
      "length (Message_Block (ve_sha e1)) = 64" "length (ve_key_buf e1) = 65"
    and server: "Broken \<notin> set s" "length salt \<le> 9992" "ok \<noteq> 0" "length note \<le> 9991"
      "payload s = vns_message VNS_AUTH_REQUEST salt @ vns_message VNS_AUTH_STATUS (ok # note) @ hw_message ds @ behind"
    and hw: "length ds \<le> 10" "\<forall>(n, i, m) \<in> set ds. length n = 32 \<and> length i = 32 \<and> length m = 32"
      "ifs = map (hw_interface (ve_if e4)) ds" "sr_get_interface ifs ''eth0'' \<noteq> None"
      "\<forall>r \<in> set table. sr_get_interface ifs (rt_interface r) \<noteq> None"
  shows "\<exists>s1 st1 s2 st2. sr_main bf mc argv raw e1 e2 e3 s = Inr (Inr (s1, st1)) \<and>
     serve [e4] s1 st1 = Inr (1, s2, st2) \<and> payload s2 = behind \<and> vs_ready st2 \<and> booted (vs_router st2) \<and>
     ri_ifs (vs_router st2) = ifs \<and> ri_rt (vs_router st2) = table \<and> ri_fw (vs_router st2) = fw \<and> rules fw = rs"
proof -
  let ?st = "instance_of mc opts raw table l" and ?e1 = "with_key mc opts e1" and ?e2 = "with_key mc opts e2"
    and ?e3 = "with_key mc opts e3" and ?fs = "mc_files mc"
  have f: "instance_string TEMPLATE opts (user_name (mc_login mc) opts) = ''''"
      "instance_string AUTH_KEY_FN opts (user_name (mc_login mc) opts) = op_auth_key_file opts"
    using instance_names_ok[OF names(1)] names(2) opts(2) by (auto simp: fits_def)
  have st: "vs_template ?st = ''''" "vs_router ?st = (sr_init_instance raw)\<lparr>ri_rt := table\<rparr>"
    using f(1) by (simp_all add: instance_of_def)
  have p: "payload s = vns_message VNS_AUTH_REQUEST salt @ vns_message VNS_AUTH_STATUS (ok # note) @
      (if vs_template ?st = '''' then [] else vns_message VNS_RTABLE ([] @ [])) @ hw_message ds @ behind"
    using server(5) st(1) by simp
  have k: "ve_auth_key ?e1 = Some key" "ve_send ?e1" "ve_send ?e2" "length (Message_Block (ve_sha ?e1)) = 64"
      "length (ve_key_buf ?e1) = 65" using f(2) auth by (simp_all add: with_key_def)
  obtain s1 st1 where c: "sr_connect_to_server ?e1 ?e2 ?e3 s ?st = Inr (0, s1, st1)" "payload s1 = hw_message ds @ behind"
      "Broken \<notin> set s1" "vs_router st1 = vs_router ?st"
    using session_opens_ok[OF server(1) p server(2-4) k(1) auth(2) k(2-5), of ?e3] st(1) by auto
  let ?r = "(vs_router st1)\<lparr>ri_fw := fw, ri_arp := arp_init\<rparr>"
  note i = sr_init_files[OF fw]
  have r1: "ri_rt (vs_router st1) = table" "ri_ifs (vs_router st1) = []"
    using c(4) st(2) by (simp_all add: sr_init_instance_def)
  then have t: "(vs_router st1)\<lparr>ri_rt := table\<rparr> = vs_router st1" by (cases "vs_router st1") simp
  obtain shown where ld: "sr_load_rt_wrap (bf_rt bf) (?fs (op_rtable opts)) [] = Inr (Some (table, shown))"
    using sr_load_rt_wrap_ok routing_table_read_ok[OF opts(6,4)] opts(3) by metis
  have co: "connect_and_open mc (op_server opts) (ucast (op_port opts)) ?e1 ?e2 ?e3 s ?st = Inr (0, s1, st1)"
    using reached(1,2) c(1) by (simp add: connect_and_open_def)
  have m: "sr_main bf mc argv raw e1 e2 e3 s = Inr (Inr (s1, st1\<lparr>vs_router := ?r\<rparr>))"
    using opts(1,2) reached(3) r1(1) t by (simp add: sr_main_def ld co i(1))
  obtain s2 st2 where "sr_read_from_server_expect e4 0 s1 (st1\<lparr>vs_router := ?r\<rparr>) = Inr (1, s2, st2)" "payload s2 = behind"
      "vs_ready st2" "booted (vs_router st2)" "ri_ifs (vs_router st2) = ifs" "ri_rt (vs_router st2) = table"
      "ri_fw (vs_router st2) = fw"
    using session_boots_ok[OF c(3,2) hw(1,2), of "st1\<lparr>vs_router := ?r\<rparr>" ifs e4] hw(3-5) opts(5) r1 i(2,3) by auto
  then show ?thesis using m i(4) by (intro exI) auto
qed

definition sample_route :: sr_rt where
  "sample_route = \<lparr>rt_dest = 0, rt_gw = 7, rt_mask = 0, rt_interface = ''eth0''\<rparr>"

definition sample_machine :: machine where
  "sample_machine = \<lparr>mc_files = [''rtable'' \<mapsto> sr_print_routing_entry sample_route, ''rules'' \<mapsto> print_ft_entry web_rule,
       ''if_config'' \<mapsto> '''', ''auth_key'' \<mapsto> ''key'' @ [CHR 0x0A]],
     mc_opens = (\<lambda>f. f = ''packets''), mc_login = Some ''me'', mc_resolve = (\<lambda>_. Some 7), mc_connects = (\<lambda>_ _. True)\<rparr>"

definition sample_args :: "string list" where "sample_args = [''-v'', ''vhost1'', ''-lpackets'']"

definition sample_buffers :: buffers where
  "sample_buffers = \<lparr>bf_rt = [[], [], [], []], bf_rules = [[], []], bf_nums = [0, 0, 0], bf_if = [[], []]\<rparr>"

theorem main_boots_witness:
  "\<exists>s1 st1 s2 st2. sr_main sample_buffers sample_machine sample_args sample_router sample_env sample_env sample_env
      (in_pieces (vns_message VNS_AUTH_REQUEST [1, 2] @ vns_message VNS_AUTH_STATUS [1] @ hw_message described @ [])) =
      Inr (Inr (s1, st1)) \<and>
     serve [sample_env] s1 st1 = Inr (1, s2, st2) \<and> booted (vs_router st2) \<and> ri_rt (vs_router st2) = [sample_route] \<and>
     rules (ri_fw (vs_router st2)) = [web_rule]"
proof -
  let ?ifs = "map (hw_interface sample_if) described" and ?o = "default_options\<lparr>op_host := ''vhost1'', op_logfile := Some ''packets''\<rparr>"
    and ?m = sample_machine and ?b = sample_buffers
  obtain w where w: "?ifs = [w]" "if_name w = ''eth0''" using described_names by (auto simp: map_eq_Cons_conv)
  then have g: "sr_get_interface ?ifs ''eth0'' = Some w" by simp
  have o: "read_options sample_args = Some ?o" unfolding sample_args_def by code_simp
  have m: "mc_files ?m (op_rtable ?o) = Some (concat (map sr_print_routing_entry [sample_route]))" "length (bf_rt ?b) = 4"
      "mc_files ?m ''rules'' = Some (concat (map print_ft_entry [web_rule]))" "length (bf_rules ?b) = 2" "length (bf_nums ?b) = 3"
      "mc_files ?m (op_auth_key_file ?o) = Some (''key'' @ [CHR 0x0A])" "mc_files ?m ''if_config'' = Some ''''"
      "mc_resolve ?m (op_server ?o) = Some 7" "mc_connects ?m 7 (htons (ucast (op_port ?o)))"
      "open_log ?m ?o = Some (Some (sf_write_header LINKTYPE_ETHERNET 0 1024))"
    by (simp_all add: sample_machine_def sample_buffers_def default_options_def open_log_def sr_dump_open_def PACKET_DUMP_SIZE_def)
  have fw: "init_if_config_file (bf_if ?b) (mc_files ?m ''if_config'') (no_fw\<lparr>rules := [web_rule]\<rparr>) = Inr (True, no_fw\<lparr>rules := [web_rule]\<rparr>)"
    unfolding m(7) by (simp add: init_if_config_file_def file_lines.simps init_if_config_def no_fw_def)
  have d: "length described \<le> 10" "\<forall>(n, i, m) \<in> set described. length n = 32 \<and> length i = 32 \<and> length m = 32"
    by (simp_all add: described_def name_field_def)
  have e: "ve_if sample_env = sample_if" "ve_send sample_env"
      "length (Message_Block (ve_sha sample_env)) = 64" "length (ve_key_buf sample_env) = 65"
    by (simp_all add: sample_env_def blank_def)
  have n: "op_template ?o = None" "fits 32 (op_host ?o)" "fits 64 (op_auth_key_file ?o)" "[sample_route] \<noteq> []"
      "\<forall>r \<in> set [sample_route]. plain (rt_interface r)" "\<forall>r \<in> set [web_rule]. exp_time r = 0 \<and> ttl_updates r = 0"
      "\<forall>r \<in> set [sample_route]. sr_get_interface ?ifs (rt_interface r) \<noteq> None"
    by (simp_all add: default_options_def fits_def sample_route_def plain_def isspace_def web_rule_def g)
  have b: "''key'' @ [CHR 0x0A] \<noteq> []" "length [1, 2 :: u8] \<le> 9992" "(1 :: u8) \<noteq> 0" "length ([] :: bytes) \<le> 9991"
      "sr_get_interface ?ifs ''eth0'' \<noteq> None"
    using g by simp_all
  have i: "?ifs = map (hw_interface (ve_if sample_env)) described" unfolding e(1) by (rule refl)
  show ?thesis
    using main_boots[where argv = sample_args and opts = ?o and mc = ?m and bf = ?b and table = "[sample_route]" and addr = 7 and
        l = "Some (sf_write_header LINKTYPE_ETHERNET 0 1024)" and rs = "[web_rule]" and fw = "no_fw\<lparr>rules := [web_rule]\<rparr>" and
        key = "''key'' @ [CHR 0x0A]" and ?e1.0 = sample_env and ?e2.0 = sample_env and ?e3.0 = sample_env and ?e4.0 = sample_env and
        salt = "[1, 2]" and ok = 1 and ?note = "[]" and ds = described and behind = "[]" and raw = sample_router and ifs = ?ifs and
        s = "in_pieces (vns_message VNS_AUTH_REQUEST [1, 2] @ vns_message VNS_AUTH_STATUS [1] @ hw_message described @ [])",
        OF o n(1) m(1,2) n(4,5) n(2,3) m(8,9,10) m(3,4,5) n(6) fw m(6) b(1) e(2,2,3,4) in_pieces(2) b(2-4) in_pieces(1) d i b(5) n(7)]
    by (elim exE conjE) (intro exI conjI, assumption+, simp)
qed

section \<open>The way with a template\<close>

lemma written_text: "map (\<lambda>b. char_of (unat b)) (string_bytes s) = s"
  by (simp add: string_bytes_def o_def byte_char)

text \<open>
  C17. The start with a template. The routing table then comes from the server, which names a host with it; it is
  stored under that host's name, but read under the default one. So \<^verbatim>\<open>main\<close> reaches its loop with the
  server's table when that host is \<^verbatim>\<open>vrhost\<close>, and for any other host it ends with status 1, unless a
  file of an earlier start is there to be taken for the table.
\<close>
theorem template_boots:
  assumes opts: "read_options argv = Some opts" "op_template opts = Some t" "t \<noteq> []" "length (bf_rt bf) = 4"
      "\<forall>r \<in> set table. plain (rt_interface r)"
    and names: "fits 32 (op_host opts)" "fits 30 t" "fits 64 (op_auth_key_file opts)"
    and reached: "mc_resolve mc (op_server opts) = Some addr" "mc_connects mc addr (htons (ucast (op_port opts)))"
      "open_log mc opts = Some l"
    and fw: "mc_files mc ''rules'' = Some (concat (map print_ft_entry rs))" "length (bf_rules bf) = 2" "length (bf_nums bf) = 3"
      "\<forall>r \<in> set rs. exp_time r = 0 \<and> ttl_updates r = 0"
      "init_if_config_file (bf_if bf) (mc_files mc ''if_config'') (no_fw\<lparr>rules := rs\<rparr>) = Inr (True, fw)"
    and auth: "mc_files mc (op_auth_key_file opts) = Some key" "key \<noteq> []" "ve_send e1" "ve_send e2"
      "length (Message_Block (ve_sha e1)) = 64" "length (ve_key_buf e1) = 65"
    and server: "Broken \<notin> set s" "length salt \<le> 9992" "ok \<noteq> 0" "length note \<le> 9991"
      "payload s = vns_message VNS_AUTH_REQUEST salt @ vns_message VNS_AUTH_STATUS (ok # note) @
         vns_message VNS_RTABLE (host @ string_bytes (concat (map sr_print_routing_entry table))) @ behind"
    and host: "length host = 32" "0 \<in> set host" "length (concat (map sr_print_routing_entry table)) \<le> 9960"
      "ve_writable e3 (''rtable.'' @ c_string host)"
  shows "if c_string host = ''vrhost''
    then \<exists>s1 st1. sr_main bf mc argv raw e1 e2 e3 s = Inr (Inr (s1, st1)) \<and> payload s1 = behind \<and>
      ri_rt (vs_router st1) = table \<and> ri_fw (vs_router st1) = fw \<and> rules fw = rs
    else mc_files mc ''rtable.vrhost'' = None \<longrightarrow> sr_main bf mc argv raw e1 e2 e3 s = Inr (Inl 1)"
proof -
  let ?st = "instance_of mc opts raw [] l" and ?e1 = "with_key mc opts e1" and ?e2 = "with_key mc opts e2"
    and ?e3 = "with_key mc opts e3" and ?fs = "mc_files mc" and ?text = "concat (map sr_print_routing_entry table)"
  have f: "instance_string TEMPLATE opts (user_name (mc_login mc) opts) = t"
      "instance_string AUTH_KEY_FN opts (user_name (mc_login mc) opts) = op_auth_key_file opts"
    using instance_names_ok[OF names(1)] names(2,3) opts(2) by auto
  have st: "vs_template ?st = t" "vs_router ?st = (sr_init_instance raw)\<lparr>ri_rt := []\<rparr>" "vs_files ?st = []"
    using f(1) by (simp_all add: instance_of_def)
  have p: "payload s = vns_message VNS_AUTH_REQUEST salt @ vns_message VNS_AUTH_STATUS (ok # note) @
      (if vs_template ?st = '''' then [] else vns_message VNS_RTABLE (host @ string_bytes ?text)) @ behind"
    using server(5) st(1) opts(3) by simp
  have k: "ve_auth_key ?e1 = Some key" "ve_send ?e1" "ve_send ?e2" "length (Message_Block (ve_sha ?e1)) = 64"
      "length (ve_key_buf ?e1) = 65" using f(2) auth by (simp_all add: with_key_def)
  have h: "vs_template ?st = '''' \<or> length host = 32 \<and> 0 \<in> set host \<and> length (string_bytes ?text) \<le> 9960 \<and>
      ve_writable ?e3 (''rtable.'' @ c_string host)"
    using host by (simp add: with_key_def string_bytes_def)
  obtain s1 st1 where c: "sr_connect_to_server ?e1 ?e2 ?e3 s ?st = Inr (0, s1, st1)" "payload s1 = behind"
      "vs_files st1 = [(''rtable.'' @ c_string host, string_bytes ?text)]" "vs_router st1 = vs_router ?st"
    using session_opens_ok[OF server(1) p server(2-4) k(1) auth(2) k(2-5) h] st opts(3) by auto
  let ?r = "(vs_router st1)\<lparr>ri_rt := table, ri_fw := fw, ri_arp := arp_init\<rparr>"
  note i = sr_init_files[OF fw]
  have co: "connect_and_open mc (op_server opts) (ucast (op_port opts)) ?e1 ?e2 ?e3 s ?st = Inr (0, s1, st1)"
    using reached(1,2) c(1) by (simp add: connect_and_open_def)
  have rt0: "ri_rt (vs_router st1) = []" using c(4) st(2) by simp
  show ?thesis
  proof (cases "c_string host = ''vrhost''")
    case True
    have "with_written (vs_files st1) ?fs ''rtable.vrhost'' = Some ?text"
      using True c(3) written_text by (simp add: with_written_def)
    then obtain shown where "sr_load_rt_wrap (bf_rt bf) (with_written (vs_files st1) ?fs ''rtable.vrhost'') [] = Inr (Some (table, shown))"
      using sr_load_rt_wrap_ok routing_table_read_ok[OF opts(5,4)] by metis
    then have "sr_main bf mc argv raw e1 e2 e3 s = Inr (Inr (s1, st1\<lparr>vs_router := ?r\<rparr>))"
      using opts(1,2) reached(3) rt0 by (simp add: sr_main_def co i(1))
    then show ?thesis using True c(2) i(4) by simp
  next
    case False
    have "with_written (vs_files st1) ?fs ''rtable.vrhost'' = ?fs ''rtable.vrhost''"
      using False c(3) by (simp add: with_written_def)
    then show ?thesis
      using False opts(1,2) reached(3) rt0 by (simp add: sr_main_def co sr_load_rt_wrap_missing)
  qed
qed

definition template_args :: "string list" where "template_args = [''-T'', ''two nodes'']"

theorem template_boots_witness:
  "sr_main sample_buffers sample_machine template_args sample_router sample_env sample_env sample_env
     (in_pieces (vns_message VNS_AUTH_REQUEST [1, 2] @ vns_message VNS_AUTH_STATUS [1] @
        vns_message VNS_RTABLE (name_field 32 ''vhost2'' @ string_bytes (concat (map sr_print_routing_entry [sample_route]))) @ [])) =
   Inr (Inl 1)"
proof -
  let ?o = "default_options\<lparr>op_template := Some ''two nodes''\<rparr>" and ?m = sample_machine and ?b = sample_buffers
  have o: "read_options template_args = Some ?o" unfolding template_args_def by code_simp
  have m: "length (bf_rt ?b) = 4"
      "mc_files ?m ''rules'' = Some (concat (map print_ft_entry [web_rule]))" "length (bf_rules ?b) = 2" "length (bf_nums ?b) = 3"
      "mc_files ?m (op_auth_key_file ?o) = Some (''key'' @ [CHR 0x0A])" "mc_files ?m ''if_config'' = Some ''''"
      "mc_resolve ?m (op_server ?o) = Some 7" "mc_connects ?m 7 (htons (ucast (op_port ?o)))" "open_log ?m ?o = Some None"
      "mc_files ?m ''rtable.vrhost'' = None"
    by (simp_all add: sample_machine_def sample_buffers_def default_options_def open_log_def)
  have fw: "init_if_config_file (bf_if ?b) (mc_files ?m ''if_config'') (no_fw\<lparr>rules := [web_rule]\<rparr>) = Inr (True, no_fw\<lparr>rules := [web_rule]\<rparr>)"
    unfolding m(6) by (simp add: init_if_config_file_def file_lines.simps init_if_config_def no_fw_def)
  have e: "ve_send sample_env" "length (Message_Block (ve_sha sample_env)) = 64" "length (ve_key_buf sample_env) = 65"
      "ve_writable sample_env f" for f
    by (simp_all add: sample_env_def blank_def)
  have n: "op_template ?o = Some ''two nodes''" "''two nodes'' \<noteq> []" "fits 32 (op_host ?o)" "fits 30 ''two nodes''"
      "fits 64 (op_auth_key_file ?o)" "\<forall>r \<in> set [sample_route]. plain (rt_interface r)"
      "\<forall>r \<in> set [web_rule]. exp_time r = 0 \<and> ttl_updates r = 0"
    by (simp_all add: default_options_def fits_def sample_route_def plain_def isspace_def web_rule_def)
  have b: "''key'' @ [CHR 0x0A] \<noteq> []" "length [1, 2 :: u8] \<le> 9992" "(1 :: u8) \<noteq> 0" "length ([] :: bytes) \<le> 9991"
    by simp_all
  have l: "length (concat (map sr_print_routing_entry [sample_route])) \<le> 9960" by code_simp
  have v: "fits 32 ''vhost2''" by (simp add: fits_def)
  have h: "length (name_field 32 ''vhost2'') = 32" "0 \<in> set (name_field 32 ''vhost2'')" "c_string (name_field 32 ''vhost2'') = ''vhost2''"
    using c_string_field[OF v, of "[]"] by (simp_all add: name_field_def)
  show ?thesis
    using template_boots[where argv = template_args and opts = ?o and mc = ?m and bf = ?b and table = "[sample_route]" and addr = 7 and
        l = None and rs = "[web_rule]" and fw = "no_fw\<lparr>rules := [web_rule]\<rparr>" and t = "''two nodes''" and
        key = "''key'' @ [CHR 0x0A]" and ?e1.0 = sample_env and ?e2.0 = sample_env and ?e3.0 = sample_env and
        salt = "[1, 2]" and ok = 1 and ?note = "[]" and host = "name_field 32 ''vhost2''" and behind = "[]" and raw = sample_router and
        s = "in_pieces (vns_message VNS_AUTH_REQUEST [1, 2] @ vns_message VNS_AUTH_STATUS [1] @
          vns_message VNS_RTABLE (name_field 32 ''vhost2'' @ string_bytes (concat (map sr_print_routing_entry [sample_route]))) @ [])",
        OF o n(1,2) m(1) n(6,3,4,5) m(7,8,9) m(2,3,4) n(7) fw m(5) b(1) e(1,1,2,3) in_pieces(2) b(2-4) in_pieces(1) h(1,2) l e(4)]
      h(3) m(10) by simp
qed

end
