(* ===== verification/Process.thy ===== *)
theory Process
  imports Startup
begin

text \<open>
  The process after its start: the loop over the messages of the server and the threads of the router, in
  any order. The threads work on the router's state; a message of the loop is one step. And the loop alone over a
  stream of frames: the frames are handled one after the other as they were sent.
\<close>

section \<open>Runs of the process\<close>

text \<open>
  The list holds the commands of the messages that were handled. Whatever the message contains and
  whatever it meets outside, the step is the one \<^verbatim>\<open>sr_read_from_server\<close> makes of it.
\<close>

inductive process_run :: "vns_state \<Rightarrow> u32 list \<Rightarrow> vns_state \<Rightarrow> bool" for st0 where
  start: "process_run st0 [] st0"
| message: "process_run st0 cs st \<Longrightarrow> handle_message e c buf st = Inr (r, st') \<Longrightarrow> process_run st0 (cs @ [c]) st'"
| arp_thread: "process_run st0 cs st \<Longrightarrow> t < length (st_threads (ri_arp (vs_router st))) \<Longrightarrow>
    thread_step (ri_ifs (vs_router st)) blk now (ri_arp (vs_router st)) t = Inr a \<Longrightarrow>
    process_run st0 cs (st\<lparr>vs_router := (vs_router st)\<lparr>ri_arp := a\<rparr>\<rparr>)"
| hello: "process_run st0 cs st \<Longrightarrow>
    ospf_send_hello (ri_ifs (vs_router st)) (ri_ospf (vs_router st)) (ri_arp (vs_router st)) = Inr a \<Longrightarrow>
    process_run st0 cs (st\<lparr>vs_router := (vs_router st)\<lparr>ri_arp := a\<rparr>\<rparr>)"
| expire: "process_run st0 cs st \<Longrightarrow> ospf_check_top now (ri_ospf (vs_router st)) = Inr os \<Longrightarrow>
    process_run st0 cs (st\<lparr>vs_router := (vs_router st)\<lparr>ri_ospf := os\<rparr>\<rparr>)"
| update: "process_run st0 cs st \<Longrightarrow>
    send_lsu (ri_ifs (vs_router st)) (ri_rt (vs_router st)) blk now (ri_ospf (vs_router st)) (ri_arp (vs_router st)) = Inr (os, a) \<Longrightarrow>
    process_run st0 cs (st\<lparr>vs_router := (vs_router st)\<lparr>ri_ospf := os, ri_arp := a\<rparr>\<rparr>)"

text \<open>The loop of \<^verbatim>\<open>main\<close>, whatever the socket delivers, makes such runs.\<close>

lemma post_message:
  "(\<And>r st'. m = Inr (r, st') \<Longrightarrow> P (r, s2, st')) \<Longrightarrow> post P (rbind m (\<lambda>(r, st'). Inr (r, s2, st')))"
  by (cases m) (auto simp: post_def)

lemma read_step:
  assumes "sr_read_from_server_expect e 0 s st = Inr (r, s', st')"
  shows "st' = st \<or> (\<exists>c buf. handle_message e c buf st = Inr (r, st'))"
proof -
  have "post (\<lambda>(r, s', st'). st' = st \<or> (\<exists>c buf. handle_message e c buf st = Inr (r, st')))
      (sr_read_from_server_expect e 0 s st)"
    unfolding sr_read_from_server_expect_def Let_def
    by (rule post_any) (auto split: option.split prod.split intro!: post_any[where m = "read_n _ _"] post_message)
  then show ?thesis using assms by (simp add: post_def)
qed

lemma serve_run:
  "serve es s st = Inr (r, s', st') \<Longrightarrow> process_run st0 cs st \<Longrightarrow> \<exists>cs'. process_run st0 (cs @ cs') st'"
proof (induction es arbitrary: s st cs)
  case Nil
  then show ?case by (intro exI[of _ "[]"]) simp
next
  case (Cons e es)
  then obtain r1 s1 st1 where 1: "sr_read_from_server_expect e 0 s st = Inr (r1, s1, st1)"
      "(if r1 = 1 then serve es s1 st1 else Inr (r1, s1, st1)) = Inr (r, s', st')"
    by (auto simp: rbind_eq_Inr)
  obtain ds where ds: "process_run st0 (cs @ ds) st1"
    using read_step[OF 1(1)] process_run.message[OF Cons.prems(2), of e _ _ r1 st1] Cons.prems(2)
    by (elim disjE exE) (metis append_Nil2, metis)
  show ?case
  proof (cases "r1 = 1")
    case True
    then show ?thesis using Cons.IH[OF _ ds] 1(2) by auto
  next
    case False
    then show ?thesis using 1(2) ds by auto
  qed
qed

definition untouched :: "vns_state \<Rightarrow> 'a \<times> vns_state \<Rightarrow> bool" where
  "untouched st = (\<lambda>(r, st'). vs_ready st' = vs_ready st \<and> vs_router st' = vs_router st \<and> vs_log st' = vs_log st)"

lemma untouched_simps [simp]:
  "untouched st (r, st)" "untouched st (r, st\<lparr>vs_files := fs\<rparr>)" "untouched st (r, st\<lparr>vs_out := out\<rparr>)"
  by (simp_all add: untouched_def)

lemma as_status_untouched: "post (untouched st) m \<Longrightarrow> post (untouched st) (as_status m)"
  unfolding as_status_def by (erule post_rbind) (auto simp: untouched_def)

lemma rtable_untouched: "post (untouched st) (sr_handle_rtable e buf st)"
  unfolding sr_handle_rtable_def Let_def by (rule post_any) (auto intro!: post_any)

lemma auth_untouched: "post (untouched st) (sr_handle_auth_request e buf st)"
  unfolding sr_handle_auth_request_def
  by (auto split: option.split list.split intro!: post_any)

lemma other_messages:
  assumes "c \<noteq> VNSPACKET" "c \<noteq> VNSHWINFO"
  shows "post (untouched st) (handle_message e c buf st)"
proof -
  have "post (untouched st) (as_status (rbind (sr_handle_auth_status buf) (\<lambda>ok. Inr (ok, st))))"
    by (rule as_status_untouched, rule post_any) simp
  then show ?thesis using assms as_status_untouched[OF rtable_untouched] as_status_untouched[OF auth_untouched]
    by (auto simp: handle_message_def intro!: post_any)
qed

text \<open>What one message does to the router: a frame is a step of its runs, nothing else touches it.\<close>

lemma handle_message_router:
  assumes "handle_message e c buf st = Inr (r, st')" "c \<noteq> VNSHWINFO"
  shows "vs_ready st' = vs_ready st \<and>
    (vs_router st' = vs_router st \<and> vs_log st' = vs_log st \<or>
     (\<exists>p nm. sr_handlepacket (ve_adv e) (ve_blk e) (ve_now e) (vs_router st) p (length p) nm = Inr (vs_router st') \<and>
        vs_log st' = logged (ve_time e) p (vs_log st)))"
proof -
  let ?P = "\<lambda>(r :: int, st'). vs_ready st' = vs_ready st \<and> (vs_router st' = vs_router st \<and> vs_log st' = vs_log st \<or>
     (\<exists>p nm. sr_handlepacket (ve_adv e) (ve_blk e) (ve_now e) (vs_router st) p (length p) nm = Inr (vs_router st') \<and>
        vs_log st' = logged (ve_time e) p (vs_log st)))"
  have frame: "post ?P (handle_frame e buf st)"
    unfolding handle_frame_def Let_def
  proof (rule post_any)
    fix nm
    let ?p = "drop 24 buf"
    show "post ?P (if length buf < 24
        then if sr_get_interface (ri_ifs (vs_router st)) nm = None then Inl Assertion_failure else Inl Out_of_bounds
        else rbind (sr_arp_req_not_for_us (ri_ifs (vs_router st)) ?p nm) (\<lambda>drop_it.
          if drop_it then Inr (1, st)
          else rbind (sr_log_packet (ve_time e) ?p (int (length buf) - 24) (vs_log st)) (\<lambda>l.
            if \<not> vs_ready st \<and> looks_for_route ?p then Inl Null_pointer
            else rbind (sr_handlepacket (ve_adv e) (ve_blk e) (ve_now e) (vs_router st) ?p (length ?p) nm) (\<lambda>r.
              Inr (1, st\<lparr>vs_router := r, vs_log := l\<rparr>)))))"
    proof (cases "length buf < 24")
      case False
      then have lg: "sr_log_packet (ve_time e) ?p (int (length buf) - 24) (vs_log st) = Inr (logged (ve_time e) ?p (vs_log st))"
        by (intro sr_log_packet_logged) simp
      have "post ?P (rbind (sr_handlepacket (ve_adv e) (ve_blk e) (ve_now e) (vs_router st) ?p (length ?p) nm) (\<lambda>r.
          Inr (1, st\<lparr>vs_router := r, vs_log := logged (ve_time e) ?p (vs_log st)\<rparr>)))"
        by (rule post_rbind[where Q = "\<lambda>x. sr_handlepacket (ve_adv e) (ve_blk e) (ve_now e) (vs_router st) ?p (length ?p) nm = Inr x"])
          (auto simp: post_def simp del: length_drop)
      then show ?thesis using False by (auto simp: lg simp del: length_drop intro!: post_any[where m = "sr_arp_req_not_for_us _ _ _"])
    qed simp
  qed
  show ?thesis
  proof (cases "c = VNSPACKET")
    case True
    then show ?thesis using assms(1) frame by (simp add: handle_message_def post_def)
  next
    case False
    then show ?thesis using assms other_messages[OF False assms(2), of st e buf] by (auto simp: post_def untouched_def)
  qed
qed

lemma logged_more: "logged tv p (map_option (\<lambda>fp. fp @ log_bytes ps) l) = map_option (\<lambda>fp. fp @ log_bytes (ps @ [(tv, p)])) l"
  by (cases l) (simp_all add: logged_def log_bytes_def)

lemma process_run_keeps:
  assumes "process_run st0 cs st" "booted (vs_router st0)" "VNSHWINFO \<notin> set cs"
  shows "router_run (vs_router st0) (vs_router st) \<and> vs_ready st = vs_ready st0 \<and>
    (\<exists>ps. vs_log st = map_option (\<lambda>fp. fp @ log_bytes ps) (vs_log st0))"
  using assms
proof (induction rule: process_run.induct)
  case start
  then show ?case
    by (auto intro: router_run.boot exI[of _ "[]"] simp: log_bytes_def option.map_ident)
next
  case (message cs st e c buf r st')
  then have IH: "router_run (vs_router st0) (vs_router st)" "vs_ready st = vs_ready st0"
      "\<exists>ps. vs_log st = map_option (\<lambda>fp. fp @ log_bytes ps) (vs_log st0)" and c: "c \<noteq> VNSHWINFO" by auto
  from handle_message_router[OF message.hyps(2) c] IH logged_more show ?case
    by (elim conjE disjE exE) (auto intro: router_run.packet)
qed (auto intro: router_run.intros)



section \<open>A stream of frames\<close>

text \<open>What becomes of one frame: an ARP request for another address is dropped, any other frame is logged and handled.\<close>

definition for_another :: "sr_if list \<Rightarrow> string \<Rightarrow> bytes \<Rightarrow> bool" where
  "for_another ifs nm f \<longleftrightarrow> 42 \<le> length f \<and> ether_type f = htons ETHERTYPE_ARP \<and> ar_op (drop 14 f) = htons ARP_REQUEST \<and>
     (case sr_get_interface ifs nm of None \<Rightarrow> False | Some w \<Rightarrow> ar_tip (drop 14 f) \<noteq> if_ip w)"

definition deliver :: "vns_env \<times> string \<times> bytes \<Rightarrow> vns_state \<Rightarrow> vns_state result" where
  "deliver = (\<lambda>(e, nm, f) st.
     if for_another (ri_ifs (vs_router st)) nm f then Inr st
     else rbind (sr_handlepacket (ve_adv e) (ve_blk e) (ve_now e) (vs_router st) f (length f) nm)
            (\<lambda>r. Inr (st\<lparr>vs_router := r, vs_log := logged (ve_time e) f (vs_log st)\<rparr>)))"

definition sound :: "sr_if list \<Rightarrow> vns_env \<times> string \<times> bytes \<Rightarrow> bool" where
  "sound ifs = (\<lambda>(e, nm, f). length nm \<le> 15 \<and> CHR 0x00 \<notin> set nm \<and> length f \<le> 9976 \<and> sr_get_interface ifs nm \<noteq> None)"

lemma deliver_keeps:
  assumes "router_run rs0 (vs_router st)" "vs_ready st" "deliver x st = Inr st'"
  shows "router_run rs0 (vs_router st')" "vs_ready st'"
  using assms by (auto simp: deliver_def rbind_eq_Inr split: if_splits prod.splits intro: router_run.packet)

text \<open>
  C19. The main loop is a fold. However the messages of a sequence of frames arrive in pieces, the loop hands exactly these
  frames, in order and each under its interface, to \<^verbatim>\<open>sr_handlepacket\<close>, the state that one leaves being the
  state the next one meets, enters each in the packet log, drops only the ARP requests for others, and
  leaves what follows unread; it stops before the end only where \<^verbatim>\<open>sr_handlepacket\<close> faults.
\<close>
theorem frames_served:
  assumes "router_run rs0 (vs_router st)" and "vs_ready st" and "\<forall>x \<in> set xs. sound (ri_ifs rs0) x"
    and "Broken \<notin> set s" and "payload s = concat (map (\<lambda>(e, nm, f). vns_packet (nm, f)) xs) @ behind"
  shows "\<exists>s'. payload s' = behind \<and> serve (map fst xs) s st = rbind (foldr_res deliver xs st) (\<lambda>st'. Inr (1, s', st'))"
  using assms
proof (induction xs arbitrary: st s)
  case (Cons x xs)
  obtain e nm f where x: "x = (e, nm, f)" by (cases x)
  have ifs: "ri_ifs (vs_router st) = ri_ifs rs0" using router_goodD(1)[OF router_run_good[OF Cons.prems(1)]] .
  obtain w where w: "sr_get_interface (ri_ifs (vs_router st)) nm = Some w"
    and n: "length nm \<le> 15" "CHR 0x00 \<notin> set nm" "length f \<le> 9976"
    using Cons.prems(3) by (auto simp: x sound_def ifs)
  have p: "payload s = vns_packet (nm, f) @ (concat (map (\<lambda>(e, nm, f). vns_packet (nm, f)) xs) @ behind)"
    using Cons.prems(5) by (simp add: x)
  obtain s1 where s1: "payload s1 = concat (map (\<lambda>(e, nm, f). vns_packet (nm, f)) xs) @ behind" "Broken \<notin> set s1"
      "sr_read_from_server_expect e 0 s st = rbind (deliver x st) (\<lambda>st'. Inr (1, s1, st'))"
    using frames_delivered[OF Cons.prems(4) p n Cons.prems(2) w, of e] w
    by (auto simp: deliver_def for_another_def x rbind_assoc)
  show ?case
  proof (cases "deliver x st")
    case (Inl d)
    then show ?thesis using s1(1,3) x by (auto intro: exI[of _ "[Segment behind]"])
  next
    case (Inr st1)
    have "\<forall>x \<in> set xs. sound (ri_ifs rs0) x" using Cons.prems(3) by simp
    from Cons.IH[OF deliver_keeps[OF Cons.prems(1,2) Inr] this s1(2,1)] show ?thesis
      using s1(3) Inr x by auto
  qed
qed (auto simp: exI)

theorem frames_served_witness:
  "\<exists>s' st0 st'. booted (vs_router st0) \<and> payload s' = [] \<and>
     serve [sample_env, sample_env] (in_pieces (vns_packet (''eth0'', replicate 20 7) @ vns_packet (''eth1'', replicate 30 8))) st0 =
       Inr (1, s', st') \<and>
     vs_log st' = Some (sf_write_header 1 0 1024 @ log_bytes [(ve_time sample_env, replicate 20 7), (ve_time sample_env, replicate 30 8)])"
proof -
  obtain rs0 where b: "booted rs0" "ri_ifs rs0 = [sample_if, sample_if1]" using booted_sample by blast
  define st0 where "st0 = sample_state\<lparr>vs_router := rs0\<rparr>"
  let ?f = "replicate 20 7 :: bytes" and ?g = "replicate 30 8 :: bytes"
  let ?xs = "[(sample_env, ''eth0'', ?f), (sample_env, ''eth1'', ?g)]"
  let ?st = "st0\<lparr>vs_log := Some (sf_write_header 1 0 1024 @ log_bytes [(ve_time sample_env, ?f), (ve_time sample_env, ?g)])\<rparr>"
  have t: "ether_type ?f \<noteq> htons ETHERTYPE_ARP" "ether_type ?f \<noteq> htons ETHERTYPE_IP"
      "ether_type ?g \<noteq> htons ETHERTYPE_ARP" "ether_type ?g \<noteq> htons ETHERTYPE_IP" by code_simp+
  have "\<forall>x \<in> set ?xs. sound (ri_ifs rs0) x"
    by (simp add: sound_def b(2)) (simp add: sample_if_def sample_if1_def)
  moreover have "vs_ready st0" "router_run rs0 (vs_router st0)" using b(1) by (simp_all add: st0_def sample_state_def router_run.boot)
  ultimately obtain s' where "payload s' = []" "serve [sample_env, sample_env]
      (in_pieces (vns_packet (''eth0'', ?f) @ vns_packet (''eth1'', ?g))) st0 = rbind (foldr_res deliver ?xs st0) (\<lambda>st'. Inr (1, s', st'))"
    using frames_served[of rs0 st0 ?xs "in_pieces (vns_packet (''eth0'', ?f) @ vns_packet (''eth1'', ?g))" "[]"] by auto
  moreover have "foldr_res deliver ?xs st0 = Inr ?st"
    using t by (simp add: deliver_def for_another_def sr_handlepacket_def hdr_lens st0_def sample_state_def logged_def
      log_bytes_def Let_def)
  ultimately show ?thesis using b(1) by (intro exI[of _ s'] exI[of _ st0] exI[of _ ?st]) (simp add: st0_def)
qed

end
