(* ===== verification/Locks.thy ===== *)
theory Locks
  imports Pwospf
begin

text \<open>
  The locks: the wrappers of \<^verbatim>\<open>arpq.c\<close> and \<^verbatim>\<open>sr_pwospf.c\<close> around the three mutexes, and which function takes which of
  them around which data. The other theories take the code between two lock operations as one step;
  here the operations themselves are the steps. A thread is the list of what it still does: the lock
  operations of the functions it calls, in their order, with the accesses to what a mutex protects. What the code
  decides in between is an argument, so that a statement for all arguments holds for all paths.
\<close>

section \<open>Mutexes\<close>

datatype mutex = Cache_lock | Arp_q_lock | Pwospf_lock

type_synonym owners = "mutex \<Rightarrow> nat option"

text \<open>
  \<^verbatim>\<open>pthread_mutex_lock\<close> by thread \<open>t\<close> waits (\<open>None\<close>) while the mutex has an owner, be it \<open>t\<close>; \<^verbatim>\<open>pthread_mutex_unlock\<close>
  fails unless \<open>t\<close> is the owner.
\<close>

definition pthread_mutex_lock :: "nat \<Rightarrow> mutex \<Rightarrow> owners \<Rightarrow> (int \<times> owners) option" where
  "pthread_mutex_lock t m own = (if own m = None then Some (0, own(m \<mapsto> t)) else None)"

definition pthread_mutex_unlock :: "nat \<Rightarrow> mutex \<Rightarrow> owners \<Rightarrow> int \<times> owners" where
  "pthread_mutex_unlock t m own = (if own m = Some t then (0, own(m := None)) else (1, own))"

definition locked :: "(int \<times> owners) option \<Rightarrow> owners result option" where
  "locked = map_option (\<lambda>(ret, own). rbind (rassert (ret = 0)) (\<lambda>_. Inr own))"

definition unlocked :: "int \<times> owners \<Rightarrow> owners result option" where
  "unlocked = (\<lambda>(ret, own). Some (rbind (rassert (ret = 0)) (\<lambda>_. Inr own)))"

definition lock_cache :: "nat \<Rightarrow> owners \<Rightarrow> owners result option" where
  "lock_cache t own = locked (pthread_mutex_lock t Cache_lock own)"

definition unlock_cache :: "nat \<Rightarrow> owners \<Rightarrow> owners result option" where
  "unlock_cache t own = unlocked (pthread_mutex_unlock t Cache_lock own)"

definition lock_arp_q :: "nat \<Rightarrow> owners \<Rightarrow> owners result option" where
  "lock_arp_q t own = locked (pthread_mutex_lock t Arp_q_lock own)"

definition unlock_arp_q :: "nat \<Rightarrow> owners \<Rightarrow> owners result option" where
  "unlock_arp_q t own = unlocked (pthread_mutex_unlock t Arp_q_lock own)"

definition pwospf_lock :: "nat \<Rightarrow> owners \<Rightarrow> owners result option" where
  "pwospf_lock t own = locked (pthread_mutex_lock t Pwospf_lock own)"

definition pwospf_unlock :: "nat \<Rightarrow> owners \<Rightarrow> owners result option" where
  "pwospf_unlock t own = unlocked (pthread_mutex_unlock t Pwospf_lock own)"

section \<open>What the functions do\<close>

text \<open>
  \<open>Access m\<close> reads or writes what \<open>m\<close> protects: the ARP cache, the ARP queue with its buffers, the topology
  with interfaces and forwarding table. \<open>Use_mac\<close> reads the six bytes that \<^verbatim>\<open>search_cache\<close> returned a pointer to, which lie
  in an entry of the cache. \<open>Spawn\<close> creates a thread.
\<close>

datatype action = Acquire mutex | Release mutex | Access mutex | Use_mac | Spawn "action list"

definition guarded :: "mutex \<Rightarrow> action list" where
  "guarded m = [Acquire m, Access m, Release m]"

definition search_cache_acts :: "action list" where
  "search_cache_acts = guarded Cache_lock"

definition add_cache_entry_acts :: "bool \<Rightarrow> action list" where
  "add_cache_entry_acts hit = search_cache_acts @ (if hit then [] else guarded Cache_lock)"

definition got_Reply_acts :: "bool \<Rightarrow> action list" where
  "got_Reply_acts hit = add_cache_entry_acts hit @ search_cache_acts"

text \<open>The thread of a next hop, by what its searches of the cache find.\<close>

fun arp_loop_acts :: "nat \<Rightarrow> bool list \<Rightarrow> action list" where
  "arp_loop_acts 0 found = []"
| "arp_loop_acts (Suc k) found =
     guarded Arp_q_lock @ search_cache_acts @
     (if found \<noteq> [] \<and> hd found then [Acquire Arp_q_lock, Access Arp_q_lock, Use_mac, Release Arp_q_lock]
      else guarded Arp_q_lock @ arp_loop_acts k (tl found))"

definition arp_req_init_acts :: "bool list \<Rightarrow> action list" where
  "arp_req_init_acts found = guarded Arp_q_lock @ arp_loop_acts (MAX_ARP_REQUESTS - 1) found @ guarded Arp_q_lock"

text \<open>Sending to a next hop: its MAC is in the cache, or a thread asks for it already, or a thread is started.\<close>

datatype next_hop = In_cache | Asked | Unasked "bool list"

fun get_mac_address_acts :: "next_hop \<Rightarrow> action list" where
  "get_mac_address_acts In_cache = []"
| "get_mac_address_acts Asked = guarded Arp_q_lock"
| "get_mac_address_acts (Unasked found) = guarded Arp_q_lock @ [Spawn (arp_req_init_acts found)]"

definition to_next_hop_acts :: "next_hop \<Rightarrow> action list" where
  "to_next_hop_acts h =
     search_cache_acts @ (if h = In_cache then [Use_mac] else get_mac_address_acts h)"

text \<open>An update to the neighbours, with the topology locked all the way: \<^verbatim>\<open>send_lsu\<close> and \<^verbatim>\<open>forward_lsu\<close>.\<close>

definition send_lsu_acts :: "next_hop list \<Rightarrow> action list" where
  "send_lsu_acts hs =
     [Acquire Pwospf_lock, Access Pwospf_lock] @ concat (map (\<lambda>h. Access Pwospf_lock # to_next_hop_acts h) hs) @
     [Release Pwospf_lock]"

definition forward_lsu_acts :: "next_hop list option \<Rightarrow> action list" where
  "forward_lsu_acts alive_hops = (case alive_hops of None \<Rightarrow> [] | Some hs \<Rightarrow> send_lsu_acts hs)"

datatype update = Own | Repeated | Merged "next_hop list option"

definition handle_lsu_acts :: "update \<Rightarrow> action list" where
  "handle_lsu_acts u =
     guarded Pwospf_lock @
     (case u of
        Own \<Rightarrow> []
      | Repeated \<Rightarrow> guarded Pwospf_lock
      | Merged hs \<Rightarrow>
          guarded Pwospf_lock @ guarded Pwospf_lock @ guarded Pwospf_lock @ forward_lsu_acts hs)"

text \<open>The periodic thread, over any number of its rounds.\<close>

definition pwospf_run_thread_acts :: "next_hop list list \<Rightarrow> action list" where
  "pwospf_run_thread_acts rounds =
     concat (map (\<lambda>hs. concat (replicate hello_steps (guarded Pwospf_lock)) @ guarded Pwospf_lock @ send_lsu_acts hs) rounds)"

text \<open>
  The frames that reach \<^verbatim>\<open>sr_handlepacket\<close>: a packet to forward looks its route up in the forwarding table, and
  unless it is dropped, or its lifetime is over, goes to its next hop. The main thread starts the periodic one when the
  hardware has been described, at the end of \<^verbatim>\<open>pwospf_init\<close>; before, it is alone.
\<close>

datatype arrival =
  Arp_reply bool | Hello_packet | Update_packet update | To_forward "next_hop option" | Other_frame

fun message_acts :: "arrival \<Rightarrow> action list" where
  "message_acts (Arp_reply hit) = got_Reply_acts hit"
| "message_acts Hello_packet = guarded Pwospf_lock"
| "message_acts (Update_packet u) = handle_lsu_acts u"
| "message_acts (To_forward h) =
     guarded Pwospf_lock @ (case h of None \<Rightarrow> [] | Some h' \<Rightarrow> to_next_hop_acts h')"
| "message_acts Other_frame = []"

definition main_acts :: "next_hop list list \<Rightarrow> arrival list \<Rightarrow> action list" where
  "main_acts rounds ms = Spawn (pwospf_run_thread_acts rounds) # concat (map message_acts ms)"

section \<open>Runs of the threads\<close>

definition act :: "nat \<Rightarrow> action \<Rightarrow> owners \<Rightarrow> owners result option" where
  "act t a own =
     (case a of
        Acquire Cache_lock \<Rightarrow> lock_cache t own
      | Acquire Arp_q_lock \<Rightarrow> lock_arp_q t own
      | Acquire Pwospf_lock \<Rightarrow> pwospf_lock t own
      | Release Cache_lock \<Rightarrow> unlock_cache t own
      | Release Arp_q_lock \<Rightarrow> unlock_arp_q t own
      | Release Pwospf_lock \<Rightarrow> pwospf_unlock t own
      | _ \<Rightarrow> Some (Inr own))"

definition born :: "action \<Rightarrow> action list list" where
  "born a = (case a of Spawn p \<Rightarrow> [p] | _ \<Rightarrow> [])"

text \<open>A run of \<open>n\<close> steps of a program and the threads it creates, in whatever order they take their turns.\<close>

inductive threads_run :: "action list \<Rightarrow> nat \<Rightarrow> action list list \<Rightarrow> owners \<Rightarrow> bool" for prog where
  start: "threads_run prog 0 [prog] (\<lambda>_. None)"
| step: "threads_run prog (Suc n) (qs[t := as] @ born a) own'"
    if "threads_run prog n qs own" "t < length qs" "qs ! t = a # as" "act t a own = Some (Inr own')"

definition can_step :: "action list list \<Rightarrow> owners \<Rightarrow> bool" where
  "can_step qs own \<longleftrightarrow> (\<exists>t a as own'. t < length qs \<and> qs ! t = a # as \<and> act t a own = Some (Inr own'))"

text \<open>The steps a program takes, with those of the threads it creates.\<close>

fun steps :: "action list \<Rightarrow> nat" where
  "steps [] = 0"
| "steps (Spawn p # as) = Suc (steps p + steps as)"
| "steps (_ # as) = Suc (steps as)"

text \<open>
  A program keeps an order of the mutexes: it acquires in increasing rank, releases the last one acquired, accesses what
  is protected under its mutex, and starts and ends with none.
\<close>

fun ordered :: "(mutex \<Rightarrow> nat) \<Rightarrow> mutex list \<Rightarrow> action list \<Rightarrow> bool" where
  "ordered rk held [] \<longleftrightarrow> held = []"
| "ordered rk held (Acquire m # as) \<longleftrightarrow> (\<forall>h \<in> set held. rk h < rk m) \<and> ordered rk (m # held) as"
| "ordered rk held (Release m # as) \<longleftrightarrow> (\<exists>hs. held = m # hs \<and> ordered rk hs as)"
| "ordered rk held (Access m # as) \<longleftrightarrow> m \<in> set held \<and> ordered rk held as"
| "ordered rk held (Use_mac # as) \<longleftrightarrow> ordered rk held as"
| "ordered rk held (Spawn p # as) \<longleftrightarrow> ordered rk [] p \<and> ordered rk held as"


section \<open>Programs that keep an order of the mutexes\<close>

text \<open>What a program does that neither needs nor leaves a mutex above those held.\<close>

definition neutral :: "(mutex \<Rightarrow> nat) \<Rightarrow> mutex list \<Rightarrow> action list \<Rightarrow> bool" where
  "neutral rk held as \<longleftrightarrow> (\<forall>bs. ordered rk held (as @ bs) = ordered rk held bs)"

lemma neutral_append: "neutral rk held as \<Longrightarrow> neutral rk held bs \<Longrightarrow> neutral rk held (as @ bs)"
  by (simp add: neutral_def)

lemma neutral_concat: "(\<And>as. as \<in> set ass \<Longrightarrow> neutral rk held as) \<Longrightarrow> neutral rk held (concat ass)"
  by (induction ass) (simp_all add: neutral_def)

lemma neutral_Nil: "neutral rk held []"
  by (simp add: neutral_def)

lemma neutral_guarded: "\<forall>h \<in> set held. rk h < rk m \<Longrightarrow> neutral rk held (guarded m)"
  by (auto simp: neutral_def guarded_def)

lemma neutral_ordered: "neutral rk [] as \<Longrightarrow> ordered rk [] as"
  by (metis append_Nil2 neutral_def ordered.simps(1))

text \<open>The ghost of the mutexes each thread holds, last acquired first.\<close>

definition holds :: "(mutex \<Rightarrow> nat) \<Rightarrow> mutex list list \<Rightarrow> action list list \<Rightarrow> owners \<Rightarrow> bool" where
  "holds rk hs qs own \<longleftrightarrow> length hs = length qs \<and>
     (\<forall>t < length qs. distinct (hs ! t) \<and> ordered rk (hs ! t) (qs ! t)) \<and>
     (\<forall>m t. own m = Some t \<longleftrightarrow> t < length qs \<and> m \<in> set (hs ! t))"

lemma act_simps:
  "act t (Acquire m) own = (if own m = None then Some (Inr (own(m \<mapsto> t))) else None)"
  "act t (Release m) own = Some (if own m = Some t then Inr (own(m := None)) else Inl Assertion_failure)"
  "act t (Access m) own = Some (Inr own)" "act t Use_mac own = Some (Inr own)" "act t (Spawn p) own = Some (Inr own)"
  by (cases m; simp add: act_def lock_cache_def lock_arp_q_def pwospf_lock_def unlock_cache_def unlock_arp_q_def
    pwospf_unlock_def locked_def unlocked_def pthread_mutex_lock_def pthread_mutex_unlock_def)+

text \<open>A thread that goes on without creating another, with other mutexes held.\<close>

lemma holds_step:
  assumes "holds rk hs qs own" "t < length qs" "distinct h" "ordered rk h as"
    and "\<And>m u. own' m = Some u \<longleftrightarrow> (if u = t then m \<in> set h else own m = Some u)"
  shows "holds rk (hs[t := h]) (qs[t := as]) own'"
  using assms by (auto simp: holds_def nth_list_update split: if_splits)

lemma holds_spawn:
  assumes "holds rk hs qs own" "ordered rk [] p"
  shows "holds rk (hs @ [[]]) (qs @ [p]) own"
  using assms by (auto simp: holds_def nth_append less_Suc_eq)

lemma holds_act:
  assumes h: "holds rk hs qs own" "t < length qs" "qs ! t = a # as" and a: "act t a own = Some (Inr own')"
  shows "\<exists>hs'. holds rk hs' (qs[t := as] @ born a) own'"
proof -
  have t: "distinct (hs ! t)" "ordered rk (hs ! t) (a # as)" and o: "\<And>m u. own m = Some u \<longleftrightarrow> u < length qs \<and> m \<in> set (hs ! u)"
    using h by (auto simp: holds_def)
  note st = holds_step[OF h(1,2)]
  show ?thesis
  proof (cases a)
    case (Acquire m)
    then have n: "own m = None" "own' = own(m \<mapsto> t)" using a by (auto simp: act_simps split: if_splits)
    have "m \<notin> set (hs ! t)" using n(1) o[of m t] h(2) by simp
    then have "holds rk (hs[t := m # hs ! t]) (qs[t := as]) own'"
      using t n Acquire o[of _ t] h(2) by (intro st) auto
    then show ?thesis using Acquire by (auto simp: born_def)
  next
    case (Release m)
    then obtain hs' where hs': "hs ! t = m # hs'" "ordered rk hs' as" using t by auto
    have n: "own m = Some t" "own' = own(m := None)" using a Release by (auto simp: act_simps split: if_splits)
    then have d: "own m \<noteq> Some u" if "u \<noteq> t" for u using that by simp
    have "holds rk (hs[t := hs']) (qs[t := as]) own'"
      using t hs' n(2) o[of _ t] h(2) d by (intro st) auto
    then show ?thesis using Release by (auto simp: born_def)
  next
    case (Spawn p)
    have "holds rk (hs[t := hs ! t]) (qs[t := as]) own" using t Spawn o h(2) by (intro st) auto
    then have "holds rk (hs[t := hs ! t] @ [[]]) (qs[t := as] @ [p]) own" using t Spawn by (intro holds_spawn) auto
    then show ?thesis using a Spawn by (auto simp: born_def act_simps)
  next
    case (Access m)
    then have "holds rk (hs[t := hs ! t]) (qs[t := as]) own" using t o h(2) by (intro st) auto
    then show ?thesis using a Access by (auto simp: born_def act_simps)
  next
    case Use_mac
    then have "holds rk (hs[t := hs ! t]) (qs[t := as]) own" using t o h(2) by (intro st) auto
    then show ?thesis using a Use_mac by (auto simp: born_def act_simps)
  qed
qed

lemma holds_run:
  assumes "ordered rk [] prog" "threads_run prog n qs own"
  shows "\<exists>hs. holds rk hs qs own"
  using assms(2)
proof induction
  case start
  then show ?case using assms(1) by (intro exI[of _ "[[]]"]) (auto simp: holds_def)
next
  case (step n qs own t a as own')
  then show ?case using holds_act by blast
qed

text \<open>The waiting thread whose mutex ranks highest waits for a thread that can go on.\<close>

lemma holds_progress:
  assumes h: "holds rk hs qs own" and u: "u < length qs" "qs ! u \<noteq> []"
  shows "can_step qs own"
proof (rule ccontr)
  assume stuck: "\<not> can_step qs own"
  have wait: "\<exists>m as. qs ! t = Acquire m # as \<and> own m \<noteq> None" if t: "t < length qs" "qs ! t \<noteq> []" for t
  proof -
    obtain a as where q: "qs ! t = a # as" using t(2) by (cases "qs ! t") auto
    have o: "distinct (hs ! t)" "ordered rk (hs ! t) (a # as)" "\<And>m. own m = Some t \<longleftrightarrow> m \<in> set (hs ! t)"
      using h t(1) q by (auto simp: holds_def)
    have "\<not> (\<exists>own'. act t a own = Some (Inr own'))" using stuck t(1) q by (auto simp: can_step_def)
    with o show ?thesis by (cases a) (auto simp: act_simps q split: if_splits)
  qed
  define W where "W = {m. \<exists>t as. t < length qs \<and> qs ! t = Acquire m # as}"
  have "finite W"
  proof (rule finite_subset)
    show "W \<subseteq> (\<lambda>q. case q of Acquire m # _ \<Rightarrow> m | _ \<Rightarrow> Cache_lock) ` set qs"
      unfolding W_def by (force simp: in_set_conv_nth)
  qed simp
  moreover have "W \<noteq> {}" using wait[OF u] u(1) unfolding W_def by blast
  ultimately have fin: "finite (rk ` W)" "Max (rk ` W) \<in> rk ` W" by simp_all
  then obtain m where m0: "m \<in> W" "rk m = Max (rk ` W)" by auto
  with fin(1) have m: "m \<in> W" "\<And>m'. m' \<in> W \<Longrightarrow> rk m' \<le> rk m" by simp_all
  then obtain t as where t: "t < length qs" "qs ! t = Acquire m # as" unfolding W_def by blast
  then obtain v where v: "own m = Some v" using wait[OF t(1)] by auto
  then have v2: "v < length qs" "m \<in> set (hs ! v)" "ordered rk (hs ! v) (qs ! v)" using h by (auto simp: holds_def)
  then have "qs ! v \<noteq> []" by (cases "qs ! v") auto
  then obtain m' as' where v3: "qs ! v = Acquire m' # as'" using wait v2(1) by blast
  then have "rk m < rk m'" "m' \<in> W" using v2 unfolding W_def by auto
  with m(2) show False by fastforce
qed


section \<open>The order, as a contract\<close>

text \<open>
  A program that keeps an order of the mutexes runs to its end: no wrapper's assertion fails, some thread can always go
  on, and after the steps of the program and of the threads it creates all are done and no mutex is owned.
\<close>

locale lock_order =
  fixes rank :: "mutex \<Rightarrow> nat" and prog :: "action list"
  assumes ordered: "ordered rank [] prog"
begin

lemma protected:
  assumes "threads_run prog n qs own" "t < length qs" "qs ! t = Access m # as"
  shows "own m = Some t"
proof -
  obtain hs where "holds rank hs qs own" using holds_run[OF ordered assms(1)] by blast
  with assms(2,3) show ?thesis by (auto simp: holds_def)
qed

lemma no_assertion_fails:
  assumes "threads_run prog n qs own" "t < length qs" "qs ! t = a # as"
  shows "act t a own \<noteq> Some (Inl e)"
proof -
  obtain hs where "holds rank hs qs own" using holds_run[OF ordered assms(1)] by blast
  with assms(2,3) have "ordered rank (hs ! t) (a # as)" and o: "own m = Some t \<longleftrightarrow> m \<in> set (hs ! t)" for m
    unfolding holds_def by metis+
  then show ?thesis by (cases a) (auto simp: act_simps o)
qed

lemma all_steps:
  assumes "threads_run prog n qs own"
  shows "n + sum_list (map steps qs) = steps prog"
  using assms
proof induction
  case (step n qs own t a as own')
  have "steps (a # as) = Suc (steps as) + sum_list (map steps (born a))" by (cases a) (simp_all add: born_def)
  moreover have "sum_list (map steps (qs[t := as])) = sum_list (map steps qs) + steps as - steps (a # as)"
    using step.hyps(2,3) sum_list_update[of t "map steps qs" "steps as"] by (simp add: map_update)
  moreover have "steps (a # as) \<le> sum_list (map steps qs)"
    using step.hyps(2,3) elem_le_sum_list[of t "map steps qs"] by simp
  ultimately show ?case using step.IH by simp
qed simp

lemma goes_on:
  assumes "threads_run prog n qs own"
  shows "if n < steps prog then can_step qs own else n = steps prog \<and> set qs \<subseteq> {[]} \<and> own = (\<lambda>_. None)"
proof -
  obtain hs where hs: "holds rank hs qs own" using holds_run[OF ordered assms] by blast
  have z: "steps as = 0 \<longleftrightarrow> as = []" for as by (cases as rule: steps.cases) auto
  show ?thesis
  proof (cases "set qs \<subseteq> {[]}")
    case True
    then have "sum_list (map steps qs) = 0" by (force simp: z)
    with all_steps[OF assms] have "n = steps prog" by linarith
    moreover have "own m = None" for m
    proof (rule ccontr)
      assume "own m \<noteq> None"
      then obtain t where "own m = Some t" by blast
      then have "t < length qs" "m \<in> set (hs ! t)" "ordered rank (hs ! t) (qs ! t)" using hs by (auto simp: holds_def)
      moreover from this(1) have "qs ! t = []" using True nth_mem by blast
      ultimately show False by simp
    qed
    ultimately show ?thesis using True by auto
  next
    case False
    then obtain u where u: "u < length qs" "qs ! u \<noteq> []" by (auto simp: subset_iff in_set_conv_nth)
    then have "0 < steps (qs ! u)" using z by (metis gr0I)
    then have "0 < sum_list (map steps qs)"
      using u(1) elem_le_sum_list[of u "map steps qs"] by (metis length_map less_le_trans nth_map)
    then show ?thesis using all_steps[OF assms] holds_progress[OF hs u] by simp
  qed
qed

end

section \<open>The router's threads keep one\<close>

text \<open>The topology is locked before the ARP queue and the cache; these two are never held together.\<close>

definition lock_rank :: "mutex \<Rightarrow> nat" where
  "lock_rank m = (case m of Pwospf_lock \<Rightarrow> 0 | Arp_q_lock \<Rightarrow> 1 | Cache_lock \<Rightarrow> 2)"

definition above :: "mutex list \<Rightarrow> bool" where "above held \<longleftrightarrow> set held \<subseteq> {Pwospf_lock}"

lemma guarded_above:
  "above held \<Longrightarrow> neutral lock_rank held (guarded Arp_q_lock)" "above held \<Longrightarrow> neutral lock_rank held (guarded Cache_lock)"
  "neutral lock_rank [] (guarded m)"
  by (auto intro!: neutral_guarded simp: above_def lock_rank_def)

lemmas neutral_intros = neutral_append neutral_concat neutral_Nil guarded_above

lemma neutral_mac: "neutral rk held [Use_mac]"
  by (simp add: neutral_def)

lemma neutral_arp_loop: "neutral lock_rank [] (arp_loop_acts k found)"
proof (induction k arbitrary: found)
  case (Suc k)
  have "neutral lock_rank [] [Acquire Arp_q_lock, Access Arp_q_lock, Use_mac, Release Arp_q_lock]" by (simp add: neutral_def)
  then show ?case using Suc by (auto intro!: neutral_intros simp: search_cache_acts_def above_def)
qed (simp add: neutral_Nil)

lemma ordered_arp_req_init: "ordered lock_rank [] (arp_req_init_acts found)"
  unfolding arp_req_init_acts_def by (intro neutral_ordered neutral_intros neutral_arp_loop) (simp_all add: above_def)

lemma neutral_to_next_hop: "above held \<Longrightarrow> neutral lock_rank held (to_next_hop_acts h)"
proof -
  assume a: "above held"
  have "neutral lock_rank held [Spawn (arp_req_init_acts found)]" for found
    using ordered_arp_req_init by (simp add: neutral_def)
  then show ?thesis using a
    by (cases h) (auto intro!: neutral_intros neutral_mac simp: to_next_hop_acts_def search_cache_acts_def)
qed

lemma neutral_send_lsu: "neutral lock_rank [] (send_lsu_acts hs)"
proof -
  have "neutral lock_rank [Pwospf_lock] (Access Pwospf_lock # to_next_hop_acts h)" for h
    using neutral_to_next_hop[of "[Pwospf_lock]" h] by (simp add: above_def neutral_def)
  then have "neutral lock_rank [Pwospf_lock] (concat (map (\<lambda>h. Access Pwospf_lock # to_next_hop_acts h) hs))"
    by (intro neutral_concat) auto
  then show ?thesis by (simp add: neutral_def send_lsu_acts_def)
qed

lemma ordered_pwospf_run_thread: "ordered lock_rank [] (pwospf_run_thread_acts rounds)"
  unfolding pwospf_run_thread_acts_def
  by (intro neutral_ordered neutral_concat) (auto intro!: neutral_intros neutral_send_lsu)

lemma neutral_message: "neutral lock_rank [] (message_acts m)"
proof -
  have a: "above []" by (simp add: above_def)
  show ?thesis
    by (cases m rule: message_acts.cases)
      (auto intro!: neutral_intros neutral_send_lsu neutral_to_next_hop[OF a] split: update.split option.split
        simp: got_Reply_acts_def add_cache_entry_acts_def search_cache_acts_def handle_lsu_acts_def forward_lsu_acts_def a)
qed

interpretation router: lock_order lock_rank "main_acts rounds ms" for rounds ms
  by unfold_locales
    (auto intro!: neutral_ordered neutral_concat neutral_message ordered_pwospf_run_thread simp: main_acts_def)

text \<open>Threads that take their turns as told.\<close>

fun turns :: "nat list \<Rightarrow> action list list \<Rightarrow> owners \<Rightarrow> (action list list \<times> owners) option" where
  "turns [] qs own = Some (qs, own)"
| "turns (t # ts) qs own =
     (if t < length qs then
        case qs ! t of
          [] \<Rightarrow> None
        | a # as \<Rightarrow>
            (case act t a own of
               Some (Inr own') \<Rightarrow> turns ts (qs[t := as] @ born a) own'
             | _ \<Rightarrow> None)
      else None)"

lemma turns_run:
  "threads_run prog n qs own \<Longrightarrow> turns ts qs own = Some (qs', own') \<Longrightarrow> threads_run prog (n + length ts) qs' own'"
proof (induction ts arbitrary: n qs own)
  case (Cons t ts)
  from Cons.prems(2) obtain a as own1 where s: "t < length qs" "qs ! t = a # as" "act t a own = Some (Inr own1)"
      "turns ts (qs[t := as] @ born a) own1 = Some (qs', own')"
    by (auto split: if_splits list.splits option.splits sum.splits)
  from Cons.IH[OF threads_run.step[OF Cons.prems(1) s(1-3)] s(4)] show ?case by simp
qed simp

text \<open>
  A packet is forwarded to an unknown next hop, and so a thread is started, and then another one to
  a next hop whose MAC is known.
\<close>

definition sample_messages :: "arrival list" where
  "sample_messages = [To_forward (Some (Unasked [True])), To_forward (Some In_cache)]"

lemma sample_turns:
  "\<exists>own as bs. threads_run (main_acts [] sample_messages) 24 [Use_mac # as, [], Access Cache_lock # bs] own"
proof -
  have "\<exists>own as bs. turns (replicate 17 0 @ replicate 7 2) [main_acts [] sample_messages] (\<lambda>_. None) =
      Some ([Use_mac # as, [], Access Cache_lock # bs], own)"
    by (simp add: eval_nat_numeral act_simps born_def main_acts_def pwospf_run_thread_acts_def sample_messages_def to_next_hop_acts_def guarded_def
      search_cache_acts_def arp_req_init_acts_def MAX_ARP_REQUESTS_def)
  then show ?thesis
    using turns_run[OF threads_run.start, where prog = "main_acts [] sample_messages" and ts = "replicate 17 0 @ replicate 7 2"]
    by fastforce
qed

text \<open>
  C13. No deadlock. Whatever messages arrive, whatever their handling decides, and however the main thread, the
  periodic thread and the ARP threads take their turns: no assertion about a mutex fails, and as long as
  anything is left to do some thread can do its next step; when all is done no mutex is owned.
\<close>
theorem no_deadlock:
  assumes "threads_run (main_acts rounds ms) n qs own"
  shows "(if n < steps (main_acts rounds ms) then can_step qs own
      else n = steps (main_acts rounds ms) \<and> set qs \<subseteq> {[]} \<and> own = (\<lambda>_. None)) \<and>
    (t < length qs \<and> qs ! t = a # as \<longrightarrow> act t a own \<noteq> Some (Inl e))"
  using router.goes_on[OF assms] router.no_assertion_fails[OF assms] by blast

theorem no_deadlock_witness:
  "\<exists>qs own. threads_run (main_acts [] sample_messages) 24 qs own \<and> can_step qs own \<and>
     act 2 (Access Cache_lock) own \<noteq> Some (Inl Assertion_failure)"
proof -
  obtain own as bs where r: "threads_run (main_acts [] sample_messages) 24 [Use_mac # as, [], Access Cache_lock # bs] own"
    using sample_turns by blast
  have "24 < steps (main_acts [] sample_messages)"
    by (simp add: eval_nat_numeral main_acts_def pwospf_run_thread_acts_def sample_messages_def to_next_hop_acts_def guarded_def search_cache_acts_def
      arp_req_init_acts_def MAX_ARP_REQUESTS_def)
  then show ?thesis using r no_deadlock[OF r, of 2 "Access Cache_lock" bs Assertion_failure] by auto
qed



end
