(* ===== verification/Vns_Messages.thy ===== *)
theory Vns_Messages
  imports Vns
begin

text \<open>
  The messages of the server as the structures of \<^verbatim>\<open>vnscommand.h\<close>. The handlers of \<open>Vns\<close> read the bytes of a
  message at the offsets the casts of \<^verbatim>\<open>sr_vns_comm.c\<close> give; here these are shown to be the fields of the structures.
\<close>

section \<open>The structures\<close>

text \<open>
  Every structure begins with the length and the type of the message. An array of length 0 at the end
  stands for the rest of the message.
\<close>

record c_base =
  mLen :: u32
  mType :: u32

record c_packet_header = c_base +
  mInterfaceName :: bytes

record c_close = c_base +
  mErrorMessage :: bytes

record c_banner = c_base +
  mBannerMessage :: bytes

record c_hwinfo = c_base +
  mHWInfo :: "c_hw_entry list"

record c_rtable = c_base +
  mVirtualHostID :: bytes
  rtable :: bytes

record c_auth_request = c_base +
  salt :: bytes

record c_auth_reply = c_base +
  usernameLen :: u32
  username :: bytes

record c_auth_status = c_base +
  auth_ok :: u8
  msg :: bytes

text \<open>Their bytes. The structures are packed, in the order of the fields.\<close>

definition c_base_bytes :: "'a c_base_scheme \<Rightarrow> bytes" where
  "c_base_bytes m = store32 (mLen m) @ store32 (mType m)"

definition c_packet_header_bytes :: "c_packet_header \<Rightarrow> bytes" where
  "c_packet_header_bytes m = c_base_bytes m @ mInterfaceName m"

definition c_close_bytes :: "c_close \<Rightarrow> bytes" where
  "c_close_bytes m = c_base_bytes m @ mErrorMessage m"

definition c_banner_bytes :: "c_banner \<Rightarrow> bytes" where
  "c_banner_bytes m = c_base_bytes m @ mBannerMessage m"

definition c_hwinfo_bytes :: "c_hwinfo \<Rightarrow> bytes" where
  "c_hwinfo_bytes m = c_base_bytes m @ concat (map hw_bytes (mHWInfo m))"

definition c_rtable_bytes :: "c_rtable \<Rightarrow> bytes" where
  "c_rtable_bytes m = c_base_bytes m @ mVirtualHostID m @ rtable m"

definition c_auth_request_bytes :: "c_auth_request \<Rightarrow> bytes" where
  "c_auth_request_bytes m = c_base_bytes m @ salt m"

definition c_auth_reply_bytes :: "c_auth_reply \<Rightarrow> bytes" where
  "c_auth_reply_bytes m = c_base_bytes m @ store32 (usernameLen m) @ username m"

definition c_auth_status_bytes :: "c_auth_status \<Rightarrow> bytes" where
  "c_auth_status_bytes m = c_base_bytes m @ [auth_ok m] @ msg m"

text \<open>
  What the server sends: a structure, and behind the header of a packet the frame. \<open>Other\<close> is a message
  of a type that the dispatch does not know, with what follows its type.
\<close>

datatype server_message =
  Packet c_packet_header bytes | Close c_close | Banner c_banner | HWInfo c_hwinfo | RTable c_rtable
  | Auth_Request c_auth_request | Auth_Status c_auth_status | Other c_base bytes

fun message_bytes :: "server_message \<Rightarrow> bytes" where
  "message_bytes (Packet m f) = c_packet_header_bytes m @ f"
| "message_bytes (Close m) = c_close_bytes m"
| "message_bytes (Banner m) = c_banner_bytes m"
| "message_bytes (HWInfo m) = c_hwinfo_bytes m"
| "message_bytes (RTable m) = c_rtable_bytes m"
| "message_bytes (Auth_Request m) = c_auth_request_bytes m"
| "message_bytes (Auth_Status m) = c_auth_status_bytes m"
| "message_bytes (Other m r) = c_base_bytes m @ r"

fun message_base :: "server_message \<Rightarrow> c_base" where
  "message_base (Packet m f) = c_base.truncate m"
| "message_base (Close m) = c_base.truncate m"
| "message_base (Banner m) = c_base.truncate m"
| "message_base (HWInfo m) = c_base.truncate m"
| "message_base (RTable m) = c_base.truncate m"
| "message_base (Auth_Request m) = c_base.truncate m"
| "message_base (Auth_Status m) = c_base.truncate m"
| "message_base (Other m r) = m"

fun message_type :: "server_message \<Rightarrow> u32" where
  "message_type (Packet m f) = VNSPACKET"
| "message_type (Close m) = VNSCLOSE"
| "message_type (Banner m) = VNSBANNER"
| "message_type (HWInfo m) = VNSHWINFO"
| "message_type (RTable m) = VNS_RTABLE"
| "message_type (Auth_Request m) = VNS_AUTH_REQUEST"
| "message_type (Auth_Status m) = VNS_AUTH_STATUS"
| "message_type (Other m r) = ntohl (mType m)"

text \<open>Arrays have their length, and what is printed or compared as a string ends within the message.\<close>

fun fields_ok :: "server_message \<Rightarrow> bool" where
  "fields_ok (Packet m f) \<longleftrightarrow> length (mInterfaceName m) = 16 \<and> 0 \<in> set (mInterfaceName m)"
| "fields_ok (Close m) \<longleftrightarrow> 0 \<in> set (mErrorMessage m)"
| "fields_ok (Banner m) \<longleftrightarrow> 0 \<in> set (mBannerMessage m)"
| "fields_ok (HWInfo m) \<longleftrightarrow> (\<forall>x \<in> set (mHWInfo m). length (hw_value x) = 32)"
| "fields_ok (RTable m) \<longleftrightarrow> length (mVirtualHostID m) = IDSIZE \<and> 0 \<in> set (mVirtualHostID m)"
| "fields_ok (Auth_Request m) \<longleftrightarrow> True"
| "fields_ok (Auth_Status m) \<longleftrightarrow> auth_ok m = 0 \<longrightarrow> 0 \<in> set (msg m)"
| "fields_ok (Other m r) \<longleftrightarrow>
     ntohl (mType m) \<notin> {VNSPACKET, VNSCLOSE, VNSBANNER, VNSHWINFO, VNS_RTABLE, VNS_AUTH_REQUEST, VNS_AUTH_STATUS}"

definition well_formed :: "server_message \<Rightarrow> bool" where
  "well_formed m \<longleftrightarrow> mLen (message_base m) = htonl (of_nat (length (message_bytes m))) \<and>
     mType (message_base m) = htonl (message_type m) \<and> length (message_bytes m) \<le> 10000 \<and> fields_ok m"

section \<open>What a message asks for\<close>

text \<open>The reply to an authentication request: the user's name, and behind it the digest.\<close>

definition reply_to :: "string \<Rightarrow> u32 list \<Rightarrow> c_auth_reply" where
  "reply_to user digest =
     \<lparr>mLen = htonl (of_nat (12 + length user + SHA1_LEN)), mType = htonl VNS_AUTH_REPLY,
      usernameLen = htonl (of_nat (length user)),
      username = string_bytes user @ concat (map (\<lambda>w. store32 (htonl w)) digest)\<rparr>"

lemma auth_reply_struct: "auth_reply user digest = c_auth_reply_bytes (reply_to user digest)"
  by (simp add: auth_reply_def c_auth_reply_bytes_def c_base_bytes_def reply_to_def)

text \<open>The effect of a message, in terms of its fields and of the digest that SHA-1 defines.\<close>

fun act :: "vns_env \<Rightarrow> server_message \<Rightarrow> vns_state \<Rightarrow> (int \<times> vns_state) result" where
  "act e (Packet m f) st =
     (let nm = c_string (mInterfaceName m)
      in rbind (sr_arp_req_not_for_us (ri_ifs (vs_router st)) f nm) (\<lambda>drop_it.
           if drop_it then Inr (1, st)
           else if \<not> vs_ready st \<and> looks_for_route f then Inl Null_pointer
           else rbind (sr_handlepacket (ve_adv e) (ve_blk e) (ve_now e) (vs_router st) f (length f) nm) (\<lambda>r.
             Inr (1, st\<lparr>vs_router := r, vs_log := logged (ve_time e) f (vs_log st)\<rparr>))))"
| "act e (Close m) st = Inr (0, st)"
| "act e (Banner m) st = Inr (1, st)"
| "act e (HWInfo m) st =
     rbind (sr_handle_hwinfo (ve_if e) (mHWInfo m) (ri_ifs (vs_router st))) (\<lambda>(_, ifs).
       let r = (vs_router st)\<lparr>ri_ifs := ifs\<rparr>
       in if sr_verify_routing_table ifs (ri_rt r) \<noteq> 0 then Inr (- 1, st\<lparr>vs_router := r\<rparr>)
          else rbind (pwospf_init ifs (ve_junk e) (ve_aid e) (ve_config e) (ve_now e)) (\<lambda>os.
            Inr (1, st\<lparr>vs_router := r\<lparr>ri_ospf := os\<rparr>, vs_ready := True\<rparr>)))"
| "act e (RTable m) st =
     (let fn = ''rtable.'' @ c_string (mVirtualHostID m)
      in Inr (if ve_writable e fn then (1, st\<lparr>vs_files := vs_files st @ [(fn, rtable m)]\<rparr>) else (- 1, st)))"
| "act e (Auth_Request m) st =
     Inr (case ve_auth_key e of
            Some (c # key) \<Rightarrow>
              if ve_send e then
                (1, st\<lparr>vs_out := vs_out st @ [c_auth_reply_bytes (reply_to (vs_user st)
                   (digest_of (sha1 (salt m @ take AUTH_KEY_LEN (auth_key (ve_key_buf e) (c # key))))))]\<rparr>)
              else (- 1, st)
          | _ \<Rightarrow> (- 1, st))"
| "act e (Auth_Status m) st = Inr (if auth_ok m \<noteq> 0 then 1 else - 1, st)"
| "act e (Other m r) st = Inr (1, st)"

text \<open>The context and the key buffer of \<^verbatim>\<open>sr_handle_auth_request\<close> have their sizes.\<close>

definition env_ok :: "vns_env \<Rightarrow> bool" where
  "env_ok e \<longleftrightarrow> length (Message_Block (ve_sha e)) = 64 \<and> length (ve_key_buf e) = AUTH_KEY_LEN + 1"

text \<open>Messages in order; one whose result is not 1 ends the loop, and the rest is left.\<close>

primrec acts ::
  "(vns_env \<times> server_message) list \<Rightarrow> vns_state \<Rightarrow> (int \<times> (vns_env \<times> server_message) list \<times> vns_state) result" where
  "acts [] st = Inr (1, [], st)"
| "acts (x # xs) st =
     rbind (act (fst x) (snd x) st) (\<lambda>(ret, st'). if ret = 1 then acts xs st' else Inr (ret, xs, st'))"

section \<open>The handlers read the fields\<close>

lemma c_string_nul:
  assumes "0 \<in> set b"
  shows "c_string (b @ r) = c_string b"
proof -
  have "\<exists>x \<in> set b. \<not> x \<noteq> 0" using assms by auto
  then show ?thesis by (auto simp: c_string_def takeWhile_append1)
qed

lemma read_string_field: "length h = k \<Longrightarrow> 0 \<in> set b \<Longrightarrow> read_string k (h @ b @ r) = Inr (c_string b)"
  by (simp add: read_string_def c_string_nul)

text \<open>Without room on the connection the reply is computed and not sent.\<close>

lemma auth_request_unsent:
  assumes "ve_auth_key e = Some key" "key \<noteq> []" "\<not> ve_send e" "env_ok e" "length buf \<le> 10000"
  shows "sr_handle_auth_request e buf st = Inr (False, st)"
proof -
  obtain c where "sr_handle_auth_request (e\<lparr>ve_send := True\<rparr>) buf st = Inr (True, c)"
    using auth_request_ok[of "e\<lparr>ve_send := True\<rparr>" key buf st] assms by (simp add: env_ok_def AUTH_KEY_LEN_def)
  then show ?thesis using assms(1-3)
    by (auto simp: sr_handle_auth_request_def rbind_eq_Inr split: list.splits if_splits)
qed

lemma auth_request_fields:
  assumes "env_ok e" "length h = 8" "length (salt m) \<le> 9992"
  shows "as_status (sr_handle_auth_request e (h @ salt m) st) = act e (Auth_Request m) st"
proof (cases "ve_auth_key e")
  case None
  then show ?thesis by (simp add: sr_handle_auth_request_def as_status_def)
next
  case (Some key)
  show ?thesis
  proof (cases key)
    case Nil
    with Some show ?thesis by (simp add: sr_handle_auth_request_def as_status_def)
  next
    case (Cons c k)
    show ?thesis
    proof (cases "ve_send e")
      case True
      with assms Some Cons show ?thesis
        by (simp add: auth_request_ok[of e "c # k"] as_status_def env_ok_def AUTH_KEY_LEN_def auth_reply_struct)
    next
      case False
      with assms Some Cons show ?thesis by (simp add: auth_request_unsent[of e "c # k"] as_status_def)
    qed
  qed
qed

lemma rtable_fields:
  assumes "length h = 8" "length (mVirtualHostID m) = 32" "0 \<in> set (mVirtualHostID m)" "length (rtable m) \<le> 9960"
  shows "as_status (sr_handle_rtable e (h @ mVirtualHostID m @ rtable m) st) = act e (RTable m) st"
proof (cases "ve_writable e (''rtable.'' @ c_string (mVirtualHostID m))")
  case True
  then show ?thesis using rtable_ok[OF assms(2-4,1) True, of st] by (simp add: as_status_def)
next
  case False
  have "length (c_string (mVirtualHostID m)) \<le> IDSIZE"
    using length_takeWhile_le[of "\<lambda>b. b \<noteq> 0" "mVirtualHostID m"] assms(2) by (simp add: c_string_def IDSIZE_def)
  with False assms(1,3) show ?thesis by (simp add: sr_handle_rtable_def read_string_field as_status_def)
qed

text \<open>A packet: the name is the header's, the frame is what follows the header.\<close>

lemma packet_fields:
  assumes "length h = 8" "length (mInterfaceName m) = 16" "0 \<in> set (mInterfaceName m)"
  shows "handle_frame e (h @ mInterfaceName m @ f) st = act e (Packet m f) st"
proof -
  have "frame_name (h @ mInterfaceName m @ f) = Inr (c_string (mInterfaceName m))"
    using assms(1,3) by (simp add: frame_name_def Let_def c_string_nul)
  then show ?thesis
    using assms(1,2)
    by (cases "sr_arp_req_not_for_us (ri_ifs (vs_router st)) f (c_string (mInterfaceName m))")
      (auto simp: handle_frame_def Let_def sr_log_packet_logged)
qed

text \<open>The message in the buffer: the length as it was sent, the type in the host's order, the rest.\<close>

definition in_buffer :: "server_message \<Rightarrow> bytes" where
  "in_buffer m = store32 (htonl (of_nat (length (message_bytes m)))) @ store32 (message_type m) @ drop 8 (message_bytes m)"

lemmas struct_bytes = c_packet_header_bytes_def c_close_bytes_def c_banner_bytes_def c_hwinfo_bytes_def c_rtable_bytes_def
  c_auth_request_bytes_def c_auth_status_bytes_def c_base_bytes_def

lemma handle_fields:
  assumes "well_formed m" "env_ok e"
  shows "handle_message e (message_type m) (in_buffer m) st = act e m st"
proof -
  define h where "h = store32 (htonl (of_nat (length (message_bytes m)))) @ store32 (message_type m)"
  have h: "length h = 8" "in_buffer m = h @ drop 8 (message_bytes m)" by (simp_all add: h_def in_buffer_def)
  have ok: "fields_ok m" "length (message_bytes m) \<le> 10000" using assms(1) by (simp_all add: well_formed_def)
  show ?thesis
  proof (cases m)
    case (Packet x f)
    then show ?thesis using ok h packet_fields[OF h(1), of x e f st] by (simp add: struct_bytes handle_message_def)
  next
    case (HWInfo x)
    then have "hw_entries (in_buffer m) = mHWInfo x"
      using ok(1) hw_entries_bytes[OF h(1)] unfolding h(2) by (simp add: struct_bytes)
    then show ?thesis using HWInfo by (simp add: handle_message_def vns_commands handle_hwinfo_def)
  next
    case (RTable x)
    then have b: "in_buffer m = h @ mVirtualHostID x @ rtable x" unfolding h(2) by (simp add: struct_bytes)
    have l: "length (mVirtualHostID x) = 32" "0 \<in> set (mVirtualHostID x)" "length (rtable x) \<le> 9960"
      using RTable ok by (simp_all add: struct_bytes IDSIZE_def)
    show ?thesis
      using RTable rtable_fields[OF h(1) l, of e st] by (simp add: b[unfolded RTable] handle_message_def vns_commands)
  next
    case (Auth_Request x)
    then show ?thesis using ok(2) h auth_request_fields[OF assms(2) h(1), of x st]
      by (simp add: struct_bytes handle_message_def vns_commands)
  next
    case (Auth_Status x)
    have "get_bytes 8 1 (h @ auth_ok x # msg x) = Inr [auth_ok x]" using h(1) by (simp add: get_bytes_def)
    moreover have "auth_ok x = 0 \<Longrightarrow> read_string 9 (h @ auth_ok x # msg x) = Inr (c_string (msg x))"
      using Auth_Status ok(1) h(1) read_string_field[of "h @ [auth_ok x]" 9 "msg x" "[]"] by simp
    ultimately show ?thesis using Auth_Status h
      by (simp add: struct_bytes handle_message_def vns_commands sr_handle_auth_status_def as_status_def)
  next
    case (Close x)
    then show ?thesis using ok(1) h read_string_field[OF h(1), of "mErrorMessage x" "[]"]
      by (simp add: struct_bytes handle_message_def vns_commands)
  next
    case (Banner x)
    then show ?thesis using ok(1) h read_string_field[OF h(1), of "mBannerMessage x" "[]"]
      by (simp add: struct_bytes handle_message_def vns_commands)
  next
    case (Other x r)
    then show ?thesis using ok(1) by (simp add: handle_message_def)
  qed
qed

text \<open>On the wire it is a message of its type.\<close>

lemma message_framed:
  assumes "well_formed m"
  shows "message_bytes m = vns_message (message_type m) (drop 8 (message_bytes m))" "8 \<le> length (message_bytes m)"
proof -
  have b: "message_bytes m = c_base_bytes (message_base m) @ drop 8 (message_bytes m)"
    by (cases m) (simp_all add: struct_bytes c_base.truncate_def)
  show l: "8 \<le> length (message_bytes m)" using arg_cong[OF b, of length] by (simp add: c_base_bytes_def)
  have "c_base_bytes (message_base m) =
      store32 (htonl (of_nat (8 + length (drop 8 (message_bytes m))))) @ store32 (htonl (message_type m))"
    using assms l by (simp add: well_formed_def c_base_bytes_def)
  then show "message_bytes m = vns_message (message_type m) (drop 8 (message_bytes m))"
    using b by (simp add: vns_message_def)
qed

lemma message_read:
  assumes "well_formed m" "env_ok e" "Broken \<notin> set s" "payload s = message_bytes m @ behind"
  shows "\<exists>s'. payload s' = behind \<and> Broken \<notin> set s' \<and>
    sr_read_from_server_expect e 0 s st = rbind (act e m st) (\<lambda>(ret, st'). Inr (ret, s', st'))"
proof -
  note f = message_framed[OF assms(1)]
  have "payload s = vns_message (message_type m) (drop 8 (message_bytes m)) @ behind" using assms(4) f(1) by simp
  moreover have "length (drop 8 (message_bytes m)) \<le> 9992" using assms(1) f(2) by (auto simp: well_formed_def)
  ultimately obtain s' where "payload s' = behind" "Broken \<notin> set s'" "sr_read_from_server_expect e 0 s st =
      rbind (handle_message e (message_type m) (store32 (htonl (of_nat (8 + length (drop 8 (message_bytes m))))) @
        store32 (message_type m) @ drop 8 (message_bytes m)) st) (\<lambda>(ret, st'). Inr (ret, s', st'))"
    using read_message[OF assms(3) _ _ disjI1[OF refl], of "message_type m" _ behind e st] by blast
  then show ?thesis
    using f(2) handle_fields[OF assms(1,2), of st] by (auto simp: in_buffer_def)
qed

section \<open>The main loop acts on the fields\<close>

text \<open>
  C20. The main loop does what the structures say. Whatever well-formed messages the server sends, in
  whatever pieces they arrive, the loop acts on each in order by the fields of its structure: it hands on the frame of a
  packet, takes the interfaces of a hardware message, stores a routing table under the name of the host, answers an
  authentication request with the digest of salt and key; it stops behind the first message that closes
  the connection or fails and leaves the others unread, and it faults only where the handling of a message does.
\<close>
theorem messages_served:
  assumes "\<forall>x \<in> set xs. env_ok (fst x) \<and> well_formed (snd x)"
    and "Broken \<notin> set s" and "payload s = concat (map (\<lambda>x. message_bytes (snd x)) xs) @ behind"
  shows "case acts xs st of
      Inl d \<Rightarrow> serve (map fst xs) s st = Inl d
    | Inr (ret, unread, st') \<Rightarrow> \<exists>s'. serve (map fst xs) s st = Inr (ret, s', st') \<and>
        payload s' = concat (map (\<lambda>x. message_bytes (snd x)) unread) @ behind"
  using assms
proof (induction xs arbitrary: s st)
  case (Cons x xs)
  obtain s1 where s1: "payload s1 = concat (map (\<lambda>x. message_bytes (snd x)) xs) @ behind" "Broken \<notin> set s1"
      "sr_read_from_server_expect (fst x) 0 s st = rbind (act (fst x) (snd x) st) (\<lambda>(ret, st'). Inr (ret, s1, st'))"
    using message_read[of "snd x" "fst x" s "concat (map (\<lambda>x. message_bytes (snd x)) xs) @ behind" st] Cons.prems by auto
  show ?case
  proof (cases "act (fst x) (snd x) st")
    case (Inl d)
    then show ?thesis using s1(3) by simp
  next
    case (Inr r)
    obtain ret st1 where r: "r = (ret, st1)" by (cases r)
    have "\<forall>x \<in> set xs. env_ok (fst x) \<and> well_formed (snd x)" using Cons.prems(1) by simp
    note IH = Cons.IH[OF this s1(2,1), of st1]
    have run: "serve (map fst (x # xs)) s st = (if ret = 1 then serve (map fst xs) s1 st1 else Inr (ret, s1, st1))"
      using s1(3) Inr r by simp
    show ?thesis unfolding run acts.simps Inr r using IH s1(1) by (cases "ret = 1") auto
  qed
qed auto

text \<open>A greeting, a routing table, the end of the session, and a packet that comes too late.\<close>

definition sample_messages :: "server_message list" where
  "sample_messages =
     [Banner \<lparr>mLen = htonl 11, mType = htonl VNSBANNER, mBannerMessage = [72, 105, 0]\<rparr>,
      RTable \<lparr>mLen = htonl 42, mType = htonl VNS_RTABLE, mVirtualHostID = 114 # replicate 31 0, rtable = [48, 10]\<rparr>,
      Close \<lparr>mLen = htonl 9, mType = htonl VNSCLOSE, mErrorMessage = [0]\<rparr>,
      Packet \<lparr>mLen = htonl 25, mType = htonl VNSPACKET, mInterfaceName = replicate 16 0\<rparr> [7]]"

theorem messages_served_witness:
  "\<exists>s'. serve (replicate 4 sample_env) (in_pieces (concat (map message_bytes sample_messages))) sample_state =
      Inr (0, s', sample_state\<lparr>vs_files := [(''rtable.r'', [48, 10])]\<rparr>) \<and>
    payload s' = message_bytes (sample_messages ! 3)"
proof -
  let ?xs = "map (Pair sample_env) sample_messages"
  have "\<forall>m \<in> set sample_messages. well_formed m"
    by (simp add: sample_messages_def well_formed_def struct_bytes c_base.truncate_def IDSIZE_def)
  moreover have "env_ok sample_env" by (simp add: env_ok_def sample_env_def blank_def AUTH_KEY_LEN_def)
  moreover have "c_string (114 # replicate 31 0) = ''r''" by code_simp
  then have "acts ?xs sample_state =
      Inr (0, [(sample_env, sample_messages ! 3)], sample_state\<lparr>vs_files := [(''rtable.r'', [48, 10])]\<rparr>)"
    by (simp add: sample_messages_def sample_env_def sample_state_def)
  ultimately show ?thesis
    using messages_served[of ?xs "in_pieces (concat (map message_bytes sample_messages))" "[]" sample_state]
    by (simp add: sample_messages_def o_def numeral_eq_Suc)
qed

end
