(* ===== verification/Heap_Lists.thy ===== *)
theory Heap_Lists
  imports Prelude "HOL-Library.Finite_Map"
begin

text \<open>
  Linked lists as the program keeps them: nodes in a heap, each with a pointer to the next. The
  other theories describe the tables of the router as HOL lists in link order. Here are the
  heap, the C operations on it with their faults, and what it means for a pointer to represent
  a list; \<open>Cache_Pointers\<close> and \<open>Table_Pointers\<close> hold the code's own loops over such nodes and show that they
  implement the operations on lists.
\<close>

section \<open>The heap\<close>

text \<open>
  A heap holds the nodes of one type that are allocated; 0 is the null pointer. Reading,
  writing or freeing through a null pointer or at an address that is not (or no longer) allocated
  is a fault, so a second \<^verbatim>\<open>free\<close> of a node is one too.
\<close>

type_synonym addr = nat

record 'a node =
  val :: 'a
  nxt :: addr

type_synonym 'a heap = "(addr, 'a node) fmap"

definition load :: "'a heap \<Rightarrow> addr \<Rightarrow> 'a node result" where
  "load h p = (if p = 0 then Inl Null_pointer
               else case fmlookup h p of None \<Rightarrow> Inl Use_after_free | Some n \<Rightarrow> Inr n)"

definition set_next :: "'a heap \<Rightarrow> addr \<Rightarrow> addr \<Rightarrow> 'a heap result" where
  "set_next h p q = rbind (load h p) (\<lambda>n. Inr (fmupd p (n\<lparr>nxt := q\<rparr>) h))"

definition set_val :: "'a heap \<Rightarrow> addr \<Rightarrow> ('a \<Rightarrow> 'a) \<Rightarrow> 'a heap result" where
  "set_val h p f = rbind (load h p) (\<lambda>n. Inr (fmupd p (n\<lparr>val := f (val n)\<rparr>) h))"

definition free :: "'a heap \<Rightarrow> addr \<Rightarrow> 'a heap result" where
  "free h p = rbind (load h p) (\<lambda>_. Inr (fmdrop p h))"

text \<open>
  The allocator of the C library is a parameter: it picks an address for the next node (or block of bytes). What C
  documents of \<^verbatim>\<open>malloc\<close> and \<^verbatim>\<open>calloc\<close> (when they succeed) is that this address is not null and
  not that of a live block; it may be the address of a block freed before.
\<close>

definition allocates :: "((addr, 'v) fmap \<Rightarrow> addr) \<Rightarrow> bool" where
  "allocates malloc \<longleftrightarrow> (\<forall>h. malloc h \<noteq> 0 \<and> fmlookup h (malloc h) = None)"

lemma fmdom_empty: "fset (fmdom h) = {} \<Longrightarrow> h = fmempty"
  by (rule fmap_ext) (metis empty_iff fmdom_notD fmempty_lookup)

text \<open>An allocator that exists: the address behind the largest one in use.\<close>

definition bump :: "(addr, 'v) fmap \<Rightarrow> addr" where
  "bump h = Suc (Max (insert 0 (fset (fmdom h))))"

lemma bump_allocates: "allocates (bump :: (addr, 'v) fmap \<Rightarrow> addr)"
proof -
  have "fmlookup h (Suc (Max (insert 0 (fset (fmdom h))))) = None" for h :: "(addr, 'v) fmap"
  proof (rule ccontr)
    assume "fmlookup h (Suc (Max (insert 0 (fset (fmdom h))))) \<noteq> None"
    then have "Suc (Max (insert 0 (fset (fmdom h)))) \<in> insert 0 (fset (fmdom h))" by (auto intro: fmdomI)
    from Max_ge[OF _ this] show False by simp
  qed
  then show ?thesis by (simp add: allocates_def bump_def)
qed

lemma allocatesD: "allocates malloc \<Longrightarrow> malloc h \<noteq> 0" "allocates malloc \<Longrightarrow> fmlookup h (malloc h) = None"
  by (simp_all add: allocates_def)

text \<open>
  The bound of turns given to a walk over nodes of \<open>h\<close>. A walk that frees or visits a node in
  each turn and takes more turns than there are nodes goes round a cycle and never ends.
\<close>

definition turns :: "'a heap \<Rightarrow> nat" where
  "turns h = Suc (fcard (fmdom h))"

section \<open>Lists in the heap\<close>

text \<open>
  \<open>seg h p ls q\<close>: from \<open>p\<close> on there lie the nodes \<open>ls\<close> (addresses with their values), and the
  last of them points to \<open>q\<close>. A list ends with the null pointer.
\<close>

fun seg :: "'a heap \<Rightarrow> addr \<Rightarrow> (addr \<times> 'a) list \<Rightarrow> addr \<Rightarrow> bool" where
  "seg h p [] q \<longleftrightarrow> p = q"
| "seg h p ((a, x) # ls) q \<longleftrightarrow>
     p = a \<and> a \<noteq> 0 \<and>
     (case fmlookup h a of None \<Rightarrow> False | Some n \<Rightarrow> val n = x \<and> seg h (nxt n) ls q)"

abbreviation linked :: "'a heap \<Rightarrow> addr \<Rightarrow> (addr \<times> 'a) list \<Rightarrow> bool" where
  "linked h p ls \<equiv> seg h p ls 0"

text \<open>
  What a function of the program is given is the heap and the head pointer. \<open>holds\<close>: they represent
  the list \<open>xs\<close>; \<open>owns\<close>: and its nodes are all there is, so that nothing has leaked.
\<close>

type_synonym 'a linked_list = "'a heap \<times> addr"

definition holds :: "'a linked_list \<Rightarrow> 'a list \<Rightarrow> bool" where
  "holds s xs \<longleftrightarrow> (\<exists>ls. linked (fst s) (snd s) ls \<and> map snd ls = xs)"

definition owns :: "'a linked_list \<Rightarrow> 'a list \<Rightarrow> bool" where
  "owns s xs \<longleftrightarrow>
     (\<exists>ls. linked (fst s) (snd s) ls \<and> map snd ls = xs \<and> fset (fmdom (fst s)) = fst ` set ls)"

lemma owns_holds: "owns s xs \<Longrightarrow> holds s xs"
  by (auto simp: owns_def holds_def)

lemma owns_empty [simp]: "owns (fmempty, 0) []"
  by (simp add: owns_def)

lemma seg_Cons:
  "seg h p ((a, x) # ls) q \<longleftrightarrow> p = a \<and> a \<noteq> 0 \<and> (\<exists>r. fmlookup h a = Some \<lparr>val = x, nxt = r\<rparr> \<and> seg h r ls q)"
proof (cases "fmlookup h a")
  case (Some n)
  then show ?thesis by (cases n) auto
qed simp

declare seg.simps(2) [simp del]

lemma seg_append: "seg h p (us @ vs) q \<longleftrightarrow> (\<exists>r. seg h p us r \<and> seg h r vs q)"
  by (induction h p us q rule: seg.induct) (auto simp: seg_Cons)

lemma seg_last: "seg h p (us @ [(a, x)]) q \<longleftrightarrow> seg h p us a \<and> a \<noteq> 0 \<and> fmlookup h a = Some \<lparr>val = x, nxt = q\<rparr>"
  by (auto simp: seg_append seg_Cons)

lemma seg_nodes: "seg h p ls q \<Longrightarrow> fst ` set ls \<subseteq> fset (fmdom h) - {0}"
proof (induction ls arbitrary: p)
  case (Cons l ls)
  then show ?case by (cases l) (auto simp: seg_Cons intro: fmdomI)
qed simp

text \<open>The pointer to a list, and the pointer to the node before what is left of it.\<close>

definition adr :: "(addr \<times> 'a) list \<Rightarrow> addr" where
  "adr ls = (case ls of [] \<Rightarrow> 0 | (a, x) # _ \<Rightarrow> a)"

lemma adr_simps [simp]: "adr [] = 0" "adr ((a, x) # ls) = a" "adr (rev (us @ [(a, x)])) = a"
  by (simp_all add: adr_def)

lemma linked_adr: "linked h p ls \<Longrightarrow> p = adr ls"
  by (cases ls) (auto simp: seg_Cons)

lemma seg_head: "seg h p ls q \<Longrightarrow> ls \<noteq> [] \<Longrightarrow> p \<noteq> 0 \<and> p = fst (hd ls)"
  by (cases ls) (auto simp: seg_Cons)

text \<open>The two frame rules: what is written or freed outside a list leaves it as it is.\<close>

lemma seg_upd [simp]: "a \<notin> fst ` set ls \<Longrightarrow> seg (fmupd a n h) p ls q \<longleftrightarrow> seg h p ls q"
  by (induction h p ls q rule: seg.induct) (auto simp: seg_Cons)

lemma seg_drop [simp]: "a \<notin> fst ` set ls \<Longrightarrow> seg (fmdrop a h) p ls q \<longleftrightarrow> seg h p ls q"
  by (induction h p ls q rule: seg.induct) (auto simp: seg_Cons)

text \<open>From one address there is one list, so no node occurs twice in it.\<close>

lemma linked_unique: "linked h p ls \<Longrightarrow> linked h p ls' \<Longrightarrow> ls = ls'"
proof (induction ls arbitrary: p ls')
  case Nil
  then show ?case by (cases ls') (auto simp: seg_Cons)
next
  case (Cons l ls)
  then show ?case by (cases l; cases ls') (auto simp: seg_Cons)
qed

lemma linked_distinct: "linked h p ls \<Longrightarrow> distinct (map fst ls)"
proof (induction ls arbitrary: p)
  case (Cons l ls)
  obtain a x where l: "l = (a, x)" by (cases l)
  from Cons.prems obtain r where r: "fmlookup h a = Some \<lparr>val = x, nxt = r\<rparr>" "linked h r ls" "p = a" "a \<noteq> 0"
    by (auto simp: l seg_Cons)
  have "a \<notin> fst ` set ls"
  proof
    assume "a \<in> fst ` set ls"
    then obtain y us vs where "ls = us @ (a, y) # vs" by (auto dest: split_list)
    with r have tl: "linked h a ((a, y) # vs)" by (auto simp: seg_append seg_Cons)
    with Cons.prems r(3) l have "(a, x) # ls = (a, y) # vs" using linked_unique by metis
    with \<open>ls = us @ (a, y) # vs\<close> show False by (auto dest: arg_cong[of _ _ length])
  qed
  with Cons.IH[OF r(2)] show ?case by (simp add: l)
qed simp

lemma holds_unique: "holds s xs \<Longrightarrow> holds s ys \<Longrightarrow> xs = ys"
  by (auto simp: holds_def dest: linked_unique)

lemma linked_length: "linked h p ls \<Longrightarrow> length ls < turns h"
proof -
  assume l: "linked h p ls"
  have "length ls = card (fst ` set ls)" using linked_distinct[OF l] by (metis distinct_card length_map set_map)
  also have "\<dots> \<le> card (fset (fmdom h))" using seg_nodes[OF l] by (intro card_mono) auto
  finally show ?thesis by (simp add: turns_def fcard.rep_eq)
qed

section \<open>The C operations on the nodes of a list\<close>

lemma load_null [simp]: "load h 0 = Inl Null_pointer"
  by (simp add: load_def)

lemma load_node: "fmlookup h a = Some n \<Longrightarrow> a \<noteq> 0 \<Longrightarrow> load h a = Inr n"
  by (simp add: load_def)

lemma free_node: "fmlookup h a = Some n \<Longrightarrow> a \<noteq> 0 \<Longrightarrow> free h a = Inr (fmdrop a h)"
  by (simp add: free_def load_node)

lemma set_next_node: "fmlookup h a = Some n \<Longrightarrow> a \<noteq> 0 \<Longrightarrow> set_next h a q = Inr (fmupd a (n\<lparr>nxt := q\<rparr>) h)"
  by (simp add: set_next_def load_node)

lemma set_val_node: "fmlookup h a = Some n \<Longrightarrow> a \<noteq> 0 \<Longrightarrow> set_val h a f = Inr (fmupd a (n\<lparr>val := f (val n)\<rparr>) h)"
  by (simp add: set_val_def load_node)

lemmas node_simps = load_node free_node set_next_node set_val_node

text \<open>Writing to a node of a list changes the value at its place and nothing else.\<close>

lemma linked_write:
  assumes "linked h p (us @ (a, x) # vs)"
  obtains h' where "set_val h a f = Inr h'" "linked h' p (us @ (a, f x) # vs)" "fmdom h' = fmdom h"
proof -
  from assms obtain r where a: "a \<noteq> 0" "fmlookup h a = Some \<lparr>val = x, nxt = r\<rparr>"
      and sg: "seg h p us a" "linked h r vs"
    by (auto simp: seg_append seg_Cons)
  from linked_distinct[OF assms] have "a \<notin> fst ` set us" "a \<notin> fst ` set vs" by auto
  with a sg show thesis
    by (intro that[of "fmupd a \<lparr>val = f x, nxt = r\<rparr> h"])
      (auto simp: set_val_node seg_append seg_Cons finsert_absorb[OF fmdomI])
qed

text \<open>Unlinking and freeing the first node, and the node behind \<open>(a, x)\<close>.\<close>

lemma linked_unlink_first:
  assumes "linked h p ((a, x) # ls)"
  obtains q where "p = a" "a \<noteq> 0" "fmlookup h a = Some \<lparr>val = x, nxt = q\<rparr>" "linked h q ls"
    "linked (fmdrop a h) q ls" "fset (fmdom (fmdrop a h)) = fset (fmdom h) - {a}"
  using assms linked_distinct[OF assms] by (auto simp: seg_Cons)

lemma linked_unlink_next:
  assumes "linked h p (us @ (a, x) # (b, y) # ls)"
  obtains q h1 where "fmlookup h a = Some \<lparr>val = x, nxt = b\<rparr>" "a \<noteq> 0" "b \<noteq> 0"
    "fmlookup h b = Some \<lparr>val = y, nxt = q\<rparr>" "linked h q ls"
    "set_next h a q = Inr h1" "free h1 b = Inr (fmdrop b h1)" "linked (fmdrop b h1) p (us @ (a, x) # ls)"
    "fset (fmdom (fmdrop b h1)) = fset (fmdom h) - {b}" "fmlookup (fmdrop b h1) a = Some \<lparr>val = x, nxt = q\<rparr>"
proof -
  from assms obtain q where n: "fmlookup h a = Some \<lparr>val = x, nxt = b\<rparr>" "a \<noteq> 0" "b \<noteq> 0"
      "fmlookup h b = Some \<lparr>val = y, nxt = q\<rparr>" and sg: "seg h p us a" "linked h q ls"
    by (auto simp: seg_append seg_Cons)
  from linked_distinct[OF assms] have d: "a \<notin> fst ` set us" "a \<notin> fst ` set ls" "b \<notin> fst ` set us"
      "b \<notin> fst ` set ls" "a \<noteq> b"
    by auto
  with n sg show thesis
    by (intro that[of q "fmupd a \<lparr>val = x, nxt = q\<rparr> h"])
      (auto simp: node_simps seg_append seg_Cons dest: fmdomI)
qed

section \<open>The loops that most functions have\<close>

text \<open>\<open>find_node\<close>: the walk to the first node with a property, or to the null pointer.\<close>

primrec find_node :: "nat \<Rightarrow> ('a \<Rightarrow> bool) \<Rightarrow> 'a heap \<Rightarrow> addr \<Rightarrow> addr result" where
  "find_node 0 P h walker = Inl Diverges"
| "find_node (Suc k) P h walker =
     (if walker = 0 then Inr 0
      else rbind (load h walker) (\<lambda>n. if P (val n) then Inr walker else find_node k P h (nxt n)))"

lemma find_node_linked:
  assumes "linked h p ls" "length ls < k"
  obtains "find_node k P h p = Inr 0" "\<forall>x \<in> snd ` set ls. \<not> P x"
  | us a x vs where "find_node k P h p = Inr a" "ls = us @ (a, x) # vs" "P x" "\<forall>y \<in> snd ` set us. \<not> P y"
  using assms
proof (induction ls arbitrary: p k thesis)
  case Nil
  then show ?case by (cases k) auto
next
  case (Cons l ls)
  obtain a x where l: "l = (a, x)" by (cases l)
  from Cons.prems(3) obtain r where a: "p = a" "a \<noteq> 0" "fmlookup h a = Some \<lparr>val = x, nxt = r\<rparr>" "linked h r ls"
    by (auto simp: l seg_Cons)
  from Cons.prems(4) obtain k' where k: "k = Suc k'" "length ls < k'" by (cases k) auto
  show ?case
  proof (cases "P x")
    case True
    with a k show ?thesis by (intro Cons.prems(2)[of a "[]" x ls]) (auto simp: l node_simps)
  next
    case False
    with a k have eq: "find_node k P h p = find_node k' P h r" by (simp add: node_simps)
    show ?thesis
    proof (rule Cons.IH[OF _ _ a(4) k(2)])
      assume "find_node k' P h r = Inr 0" "\<forall>x \<in> snd ` set ls. \<not> P x"
      with eq False l show ?thesis by (intro Cons.prems(1)) auto
    next
      fix us b y vs
      assume "find_node k' P h r = Inr b" "ls = us @ (b, y) # vs" "P y" "\<forall>y \<in> snd ` set us. \<not> P y"
      with eq False l show ?thesis by (intro Cons.prems(2)[of b "(a, x) # us" y vs]) auto
    qed
  qed
qed

text \<open>
  \<open>append_node\<close>: a new node at the end of a list. Each table has its own copy of this code: with an empty list
  the head is set, otherwise a walk to the last node comes first.
\<close>

primrec last_node :: "nat \<Rightarrow> 'a heap \<Rightarrow> addr \<Rightarrow> addr result" where
  "last_node 0 h walker = Inl Diverges"
| "last_node (Suc k) h walker =
     rbind (load h walker) (\<lambda>n. if nxt n \<noteq> 0 then last_node k h (nxt n) else Inr walker)"

definition append_node :: "('a heap \<Rightarrow> addr) \<Rightarrow> 'a \<Rightarrow> 'a linked_list \<Rightarrow> 'a linked_list result" where
  "append_node malloc x s =
     (case s of (h, head) \<Rightarrow>
        (let a = malloc h; h1 = fmupd a \<lparr>val = x, nxt = 0\<rparr> h in
         if head = 0 then Inr (h1, a)
         else rbind (last_node (turns h) h head) (\<lambda>w. rbind (set_next h1 w a) (\<lambda>h2. Inr (h2, head)))))"

lemma last_node_linked: "linked h p (us @ [(a, x)]) \<Longrightarrow> length us < k \<Longrightarrow> last_node k h p = Inr a"
proof (induction us arbitrary: p k)
  case Nil
  then show ?case by (cases k) (auto simp: seg_Cons node_simps)
next
  case (Cons u us)
  obtain b y where u: "u = (b, y)" by (cases u)
  from Cons.prems obtain k' where k: "k = Suc k'" "length us < k'" by (cases k) auto
  from Cons.prems(1) obtain r where b: "p = b" "b \<noteq> 0" "fmlookup h b = Some \<lparr>val = y, nxt = r\<rparr>"
      "linked h r (us @ [(a, x)])"
    by (auto simp: u seg_Cons)
  from seg_head[OF b(4)] have "r \<noteq> 0" by simp
  with b k Cons.IH[OF b(4) k(2)] show ?case by (simp add: node_simps)
qed

lemma append_node_linked:
  assumes "allocates malloc" "linked h p ls"
  obtains h' p' where "append_node malloc x (h, p) = Inr (h', p')" "linked h' p' (ls @ [(malloc h, x)])"
    "fset (fmdom h') = insert (malloc h) (fset (fmdom h))"
proof (cases ls rule: rev_cases)
  case Nil
  with assms(2) allocatesD[OF assms(1), of h] show ?thesis
    by (intro that) (auto simp: append_node_def Let_def seg_Cons)
next
  case (snoc us l)
  obtain b y where l: "l = (b, y)" by (cases l)
  note al = allocatesD[OF assms(1), of h]
  from assms(2) snoc l have b: "seg h p us b" "b \<noteq> 0" "fmlookup h b = Some \<lparr>val = y, nxt = 0\<rparr>"
    by (auto simp: seg_last)
  have p: "p \<noteq> 0" using seg_head[OF assms(2)] snoc by simp
  have fresh: "malloc h \<notin> fst ` set ls"
    using al(2) seg_nodes[OF assms(2)] by (auto dest: fmdom_notI)
  have bus: "b \<notin> fst ` set us" using linked_distinct[OF assms(2)] by (simp add: snoc l)
  have last: "last_node (turns h) h p = Inr b"
    using assms(2) linked_length[OF assms(2)] by (intro last_node_linked[of _ _ us _ y]) (auto simp: snoc l)
  let ?h1 = "fmupd (malloc h) \<lparr>val = x, nxt = 0\<rparr> h"
  have "b \<noteq> malloc h" using b(3) al(2) by auto
  with b last p al fresh bus snoc l show ?thesis
    by (intro that[of "fmupd b \<lparr>val = y, nxt = malloc h\<rparr> ?h1" p])
      (auto simp: append_node_def Let_def node_simps seg_append seg_Cons dest: fmdomI)
qed

lemma append_node_owns:
  assumes "allocates malloc" "owns s xs"
  shows "\<exists>s'. append_node malloc x s = Inr s' \<and> owns s' (xs @ [x])"
proof -
  from assms(2) obtain ls where ls: "linked (fst s) (snd s) ls" "map snd ls = xs"
      "fset (fmdom (fst s)) = fst ` set ls"
    by (auto simp: owns_def)
  obtain h' p' where "append_node malloc x (fst s, snd s) = Inr (h', p')"
      "linked h' p' (ls @ [(malloc (fst s), x)])" "fset (fmdom h') = insert (malloc (fst s)) (fset (fmdom (fst s)))"
    by (rule append_node_linked[OF assms(1) ls(1)])
  with ls show ?thesis by (auto simp: owns_def intro!: exI[of _ "ls @ [(malloc (fst s), x)]"])
qed

text \<open>
  A search, and what it finds: with \<open>holds\<close> or \<open>owns\<close>, the first element with the property; writing through the pointer
  changes the list there.
\<close>

lemma find_node_rep:
  assumes "linked h p ls"
  obtains "find_node (turns h) P h p = Inr 0" "\<forall>x \<in> set (map snd ls). \<not> P x"
  | a us x vs n where "find_node (turns h) P h p = Inr a" "a \<noteq> 0" "map snd ls = us @ x # vs" "P x"
    "\<forall>y \<in> set us. \<not> P y" "load h a = Inr n" "val n = x"
    "\<And>f. \<exists>h' ls'. set_val h a f = Inr h' \<and> linked h' p ls' \<and> map snd ls' = us @ f x # vs \<and>
       fmdom h' = fmdom h \<and> fst ` set ls' = fst ` set ls"
proof (rule find_node_linked[OF assms linked_length[OF assms], of P])
  assume "find_node (turns h) P h p = Inr 0" "\<forall>x \<in> snd ` set ls. \<not> P x"
  then show thesis by (intro that(1)) simp_all
next
  fix us a x vs
  assume f: "find_node (turns h) P h p = Inr a" "ls = us @ (a, x) # vs" "P x" "\<forall>y \<in> snd ` set us. \<not> P y"
  from assms f(2) have l: "linked h p (us @ (a, x) # vs)" by simp
  then obtain r where a: "a \<noteq> 0" "fmlookup h a = Some \<lparr>val = x, nxt = r\<rparr>" by (auto simp: seg_append seg_Cons)
  have "\<exists>h' ls'. set_val h a g = Inr h' \<and> linked h' p ls' \<and> map snd ls' = map snd us @ g x # map snd vs \<and>
       fmdom h' = fmdom h \<and> fst ` set ls' = fst ` set ls" for g
  proof -
    obtain h' where "set_val h a g = Inr h'" "linked h' p (us @ (a, g x) # vs)" "fmdom h' = fmdom h"
      by (rule linked_write[OF l])
    then show ?thesis by (intro exI[of _ h'] exI[of _ "us @ (a, g x) # vs"]) (simp add: f(2))
  qed
  with f a show thesis
    by (intro that(2)[of a "map snd us" x "map snd vs" "\<lparr>val = x, nxt = r\<rparr>"]) (simp_all add: node_simps)
qed

lemma find_node_owns:
  assumes "owns (h, p) xs"
  obtains "find_node (turns h) P h p = Inr 0" "\<forall>x \<in> set xs. \<not> P x"
  | a us x vs n where "find_node (turns h) P h p = Inr a" "a \<noteq> 0" "xs = us @ x # vs" "P x"
    "\<forall>y \<in> set us. \<not> P y" "load h a = Inr n" "val n = x"
    "\<And>f. \<exists>h'. set_val h a f = Inr h' \<and> owns (h', p) (us @ f x # vs)"
proof -
  from assms obtain ls where ls: "linked h p ls" "map snd ls = xs" "fset (fmdom h) = fst ` set ls"
    by (auto simp: owns_def)
  show thesis
  proof (rule find_node_rep[OF ls(1), of P])
    assume "find_node (turns h) P h p = Inr 0" "\<forall>x \<in> set (map snd ls). \<not> P x"
    then show thesis using ls(2) by (intro that(1)) simp_all
  next
    fix a us x vs n
    assume f: "find_node (turns h) P h p = Inr a" "a \<noteq> 0" "map snd ls = us @ x # vs" "P x"
      "\<forall>y \<in> set us. \<not> P y" "load h a = Inr n" "val n = x"
      and w: "\<And>f. \<exists>h' ls'. set_val h a f = Inr h' \<and> linked h' p ls' \<and> map snd ls' = us @ f x # vs \<and>
        fmdom h' = fmdom h \<and> fst ` set ls' = fst ` set ls"
    have "\<exists>h'. set_val h a g = Inr h' \<and> owns (h', p) (us @ g x # vs)" for g
      using w[of g] ls(3) unfolding owns_def by (metis fst_conv snd_conv)
    with f ls(2) show thesis by (intro that(2)[of a us x vs n]) auto
  qed
qed

section \<open>Refinement\<close>

lemma rbind_if: "rbind (if b then m else m') f = (if b then rbind m f else rbind m' f)"
  by simp

text \<open>
  An operation on nodes implements one on lists when it faults as the latter does, and otherwise returns the same and leaves
  nodes that represent the list the latter leaves. Results are related by \<open>rel_sum (=)\<close>.
\<close>

lemma rel_result_Inr [simp]:
  "rel_sum (=) R c (Inr y) \<longleftrightarrow> (\<exists>x. c = Inr x \<and> R x y)"
  "rel_sum (=) R c (Inl e) \<longleftrightarrow> c = Inl e"
  by (cases c; simp)+

lemma rel_rbind:
  assumes "rel_sum (=) R c s" "\<And>x y. R x y \<Longrightarrow> rel_sum (=) Q (f x) (g y)"
  shows "rel_sum (=) Q (rbind c f) (rbind s g)"
  using assms by (cases s) auto

lemma rel_rbind_same:
  "(\<And>x. rel_sum (=) Q (f x) (g x)) \<Longrightarrow> rel_sum (=) Q (rbind m f) (rbind m g)"
  by (cases m) simp_all

lemma rel_foldr_res:
  assumes "R c s" "\<And>x c s. x \<in> set xs \<Longrightarrow> R c s \<Longrightarrow> rel_sum (=) R (f x c) (g x s)"
  shows "rel_sum (=) R (foldr_res f xs c) (foldr_res g xs s)"
  using assms
proof (induction xs arbitrary: c s)
  case (Cons x xs)
  then show ?case by (auto intro!: rel_rbind[of R])
qed simp

text \<open>Calling an operation with one input after the other, and the outputs.\<close>

primrec run_all :: "('m \<Rightarrow> 's \<Rightarrow> ('s \<times> 'o) result) \<Rightarrow> 'm list \<Rightarrow> 's \<Rightarrow> ('s \<times> 'o list) result" where
  "run_all f [] s = Inr (s, [])"
| "run_all f (m # ms) s =
     rbind (f m s) (\<lambda>(s1, x). rbind (run_all f ms s1) (\<lambda>(s2, xs). Inr (s2, x # xs)))"

text \<open>
  What a table of the router promises of its nodes: every call with an acceptable input implements
  the list operation. Then so does every sequence of calls.
\<close>

locale simulation =
  fixes rep :: "'c \<Rightarrow> 's \<Rightarrow> bool" and ok :: "'m \<Rightarrow> bool"
    and run :: "'m \<Rightarrow> 'c \<Rightarrow> ('c \<times> 'o) result" and spec :: "'m \<Rightarrow> 's \<Rightarrow> ('s \<times> 'o) result"
  assumes implements: "ok m \<Longrightarrow> rep c s \<Longrightarrow> rel_sum (=) (rel_prod rep (=)) (run m c) (spec m s)"
begin

lemma implements_all:
  "rep c s \<Longrightarrow> \<forall>m \<in> set ms. ok m \<Longrightarrow> rel_sum (=) (rel_prod rep (=)) (run_all run ms c) (run_all spec ms s)"
proof (induction ms arbitrary: c s)
  case (Cons m ms)
  have "rel_sum (=) (rel_prod rep (=)) (run m c) (spec m s)" using Cons.prems by (intro implements) auto
  then show ?case
    using Cons by (auto intro!: rel_rbind[of "rel_prod rep (=)"])
qed simp

lemma no_fault: "rep c s \<Longrightarrow> \<forall>m \<in> set ms. ok m \<Longrightarrow> run_all spec ms s = Inr (s', out) \<Longrightarrow>
    \<exists>c'. run_all run ms c = Inr (c', out) \<and> rep c' s'"
  using implements_all[of c s ms] by auto

end

end
