(* ===== verification/Cache_Pointers.thy ===== *)
theory Cache_Pointers
  imports Heap_Lists Arp_Cache
begin

text \<open>
  The ARP cache with its pointers: \<^verbatim>\<open>check_cache_invalid\<close>, \<^verbatim>\<open>delete_entry\<close>, \<^verbatim>\<open>search_cache\<close> and
  \<^verbatim>\<open>add_cache_entry\<close> of \<^verbatim>\<open>arp.c\<close> on nodes in a heap. They implement the operations of \<open>Arp_Cache\<close>,
  use no freed node and leak none; the pointer that \<^verbatim>\<open>search_cache\<close> hands out lives as long as the entry.
\<close>

section \<open>The code\<close>

text \<open>\<open>head\<close> is \<^verbatim>\<open>sr->arp_sub->arp_cache\<close>; the branches that leave the loop return.\<close>

primrec invalid_loop ::
  "nat \<Rightarrow> time \<Rightarrow> arp_cache_entry heap \<Rightarrow> addr \<Rightarrow> addr \<Rightarrow> addr \<Rightarrow> arp_cache_entry linked_list result" where
  "invalid_loop 0 now h head prev walker = Inl Diverges"
| "invalid_loop (Suc k) now h head prev walker =
     (if walker = 0 then Inr (h, head)
      else rbind (load h walker) (\<lambda>w.
        if timenotvalid (val w) < now then
          (if prev = 0 then
             rbind (load h head) (\<lambda>hd.
               if nxt hd \<noteq> 0 then
                 rbind (free h walker) (\<lambda>h'. invalid_loop k now h' (nxt hd) prev (nxt hd))
               else rbind (free h walker) (\<lambda>h'. Inr (h', 0)))
           else if nxt w = 0 then
             rbind (set_next h prev 0) (\<lambda>h1. rbind (free h1 walker) (\<lambda>h2. Inr (h2, head)))
           else
             rbind (set_next h prev (nxt w)) (\<lambda>h1.
             rbind (free h1 walker) (\<lambda>h2.
             rbind (load h2 prev) (\<lambda>p. invalid_loop k now h2 head prev (nxt p)))))
        else invalid_loop k now h head walker (nxt w)))"

definition check_cache_invalid_ptr ::
  "arp_cache_entry linked_list \<Rightarrow> time \<Rightarrow> arp_cache_entry linked_list result" where
  "check_cache_invalid_ptr s now = (case s of (h, head) \<Rightarrow> invalid_loop (turns h) now h head 0 head)"

definition delete_entry_ptr ::
  "arp_cache_entry linked_list \<Rightarrow> addr \<Rightarrow> addr \<Rightarrow> (arp_cache_entry linked_list \<times> addr) result" where
  "delete_entry_ptr s walker prev =
     (case s of (h, head) \<Rightarrow>
        if prev = 0 then
          rbind (load h head) (\<lambda>hd.
            if nxt hd \<noteq> 0 then rbind (free h walker) (\<lambda>h'. Inr ((h', nxt hd), nxt hd))
            else rbind (free h walker) (\<lambda>h'. Inr ((h', 0), 0)))
        else rbind (load h walker) (\<lambda>w.
          if nxt w = 0 then
            rbind (set_next h prev 0) (\<lambda>h1. rbind (free h1 walker) (\<lambda>h2. Inr ((h2, head), 0)))
          else
            rbind (set_next h prev (nxt w)) (\<lambda>h1.
            rbind (free h1 walker) (\<lambda>h2.
            rbind (load h2 prev) (\<lambda>p. Inr ((h2, head), nxt p))))))"

text \<open>\<^verbatim>\<open>search_cache\<close> returns a pointer into the node, here the node's address, or null.\<close>

definition search_cache_ptr ::
  "arp_cache_entry linked_list \<Rightarrow> time \<Rightarrow> u32 \<Rightarrow> (arp_cache_entry linked_list \<times> addr) result" where
  "search_cache_ptr s now ip =
     rbind (check_cache_invalid_ptr s now) (\<lambda>(h, head).
     rbind (find_node (turns h) (\<lambda>w. ip = ip_add w) h head) (\<lambda>p. Inr ((h, head), p)))"

text \<open>Reading the six bytes through such a pointer.\<close>

definition mac_at :: "arp_cache_entry heap \<Rightarrow> addr \<Rightarrow> mac result" where
  "mac_at h p = rbind (load h p) (\<lambda>n. Inr (ac_mac (val n)))"

definition add_cache_entry_ptr ::
  "(arp_cache_entry heap \<Rightarrow> addr) \<Rightarrow> arp_cache_entry linked_list \<Rightarrow> time \<Rightarrow> u32 \<Rightarrow> mac \<Rightarrow>
     arp_cache_entry linked_list result" where
  "add_cache_entry_ptr malloc s now ip mac =
     rbind (search_cache_ptr s now ip) (\<lambda>(s1, p).
       if p \<noteq> 0 then Inr s1
       else if ip = 0 then Inl Assertion_failure
       else append_node malloc \<lparr>ip_add = ip, ac_mac = take ETHER_ADDR_LEN mac,
                                timenotvalid = now + ARP_TIMEOUT\<rparr> s1)"

text \<open>The two calls that the handlers and threads make, the search with the bytes it finds.\<close>

datatype cache_call = Search time u32 | Insert time u32 mac

definition cache_call_ptr ::
  "(arp_cache_entry heap \<Rightarrow> addr) \<Rightarrow> cache_call \<Rightarrow> arp_cache_entry linked_list \<Rightarrow>
     (arp_cache_entry linked_list \<times> mac option) result" where
  "cache_call_ptr malloc c s =
     (case c of
        Search now ip \<Rightarrow>
          rbind (search_cache_ptr s now ip) (\<lambda>(s1, p).
            if p = 0 then Inr (s1, None)
            else rbind (mac_at (fst s1) p) (\<lambda>m. Inr (s1, Some m)))
      | Insert now ip mac \<Rightarrow> rbind (add_cache_entry_ptr malloc s now ip mac) (\<lambda>s1. Inr (s1, None)))"

definition cache_call_list ::
  "cache_call \<Rightarrow> arp_cache_entry list \<Rightarrow> (arp_cache_entry list \<times> mac option) result" where
  "cache_call_list c cache =
     (case c of
        Search now ip \<Rightarrow> Inr (search_cache cache now ip)
      | Insert now ip mac \<Rightarrow> rbind (add_cache_entry cache now ip mac) (\<lambda>c1. Inr (c1, None)))"

section \<open>Removing expired entries\<close>

lemma delete_entry_linked:
  assumes "linked h head (us @ (w, x) # vs)"
  obtains h' head' where "delete_entry_ptr (h, head) w (adr (rev us)) = Inr ((h', head'), adr vs)"
    "linked h' head' (us @ vs)" "fset (fmdom h') = fset (fmdom h) - {w}"
proof (cases us rule: rev_cases)
  case Nil
  with assms obtain q where "head = w" "w \<noteq> 0" "fmlookup h w = Some \<lparr>val = x, nxt = q\<rparr>" "linked (fmdrop w h) q vs"
      "fset (fmdom (fmdrop w h)) = fset (fmdom h) - {w}"
    by (auto elim: linked_unlink_first)
  moreover from linked_adr[OF this(4)] have "q = adr vs" .
  ultimately show ?thesis
    using Nil by (intro that[of "fmdrop w h" q]) (simp_all add: delete_entry_ptr_def node_simps)
next
  case (snoc us' u)
  obtain a y where u: "u = (a, y)" by (cases u)
  from assms have "linked h head (us' @ (a, y) # (w, x) # vs)" by (simp add: snoc u)
  then obtain q h1 where h: "fmlookup h a = Some \<lparr>val = y, nxt = w\<rparr>" "a \<noteq> 0" "w \<noteq> 0"
      "fmlookup h w = Some \<lparr>val = x, nxt = q\<rparr>" "linked h q vs"
      "set_next h a q = Inr h1" "free h1 w = Inr (fmdrop w h1)" "linked (fmdrop w h1) head (us' @ (a, y) # vs)"
      "fset (fmdom (fmdrop w h1)) = fset (fmdom h) - {w}" "fmlookup (fmdrop w h1) a = Some \<lparr>val = y, nxt = q\<rparr>"
    by (rule linked_unlink_next)
  from linked_adr[OF h(5)] have "adr vs = q" by simp
  moreover have "load (fmdrop w h1) a = Inr \<lparr>val = y, nxt = q\<rparr>" "load h w = Inr \<lparr>val = x, nxt = q\<rparr>"
    using h by (simp_all add: load_node)
  ultimately show ?thesis
    using h(2,6,7,8,9)
    by (intro that[of "fmdrop w h1" head]; cases "q = 0") (simp_all add: delete_entry_ptr_def snoc u)
qed

text \<open>A turn of the loop at an expired entry does what \<^verbatim>\<open>delete_entry\<close> does.\<close>

lemma invalid_loop_delete:
  assumes "linked h head (us @ (w, x) # vs)" "timenotvalid x < now" "0 < k"
  shows "invalid_loop (Suc k) now h head (adr (rev us)) w =
    rbind (delete_entry_ptr (h, head) w (adr (rev us))) (\<lambda>((h', head'), q).
      invalid_loop k now h' head' (adr (rev us)) q)"
proof -
  from assms(1) have "w \<noteq> 0" "load h w = Inr \<lparr>val = x, nxt = adr vs\<rparr>"
    by (auto simp: seg_append seg_Cons node_simps dest: linked_adr)
  moreover have "invalid_loop k now h' head' prev 0 = Inr (h', head')" for h' head' prev
    using assms(3) by (cases k) auto
  ultimately show ?thesis using assms(2)
    by (simp add: delete_entry_ptr_def rbind_assoc rbind_if cong: if_cong)
qed

lemma invalid_loop_linked:
  assumes "linked h head (us @ vs)" "length vs < k"
  obtains h' head' where "invalid_loop k now h head (adr (rev us)) (adr vs) = Inr (h', head')"
    "linked h' head' (us @ filter (\<lambda>l. entry_valid now (snd l)) vs)"
    "fset (fmdom h') = fset (fmdom h) - fst ` set (filter (\<lambda>l. \<not> entry_valid now (snd l)) vs)"
  using assms
proof (induction vs arbitrary: h head us k thesis)
  case Nil
  then show ?case by (cases k) auto
next
  case (Cons v vs)
  obtain w x where v: "v = (w, x)" by (cases v)
  from Cons.prems obtain k' where k: "k = Suc k'" "length vs < k'" by (cases k) auto
  from Cons.prems(2) have w: "w \<noteq> 0" "load h w = Inr \<lparr>val = x, nxt = adr vs\<rparr>"
    by (auto simp: v seg_append seg_Cons node_simps dest: linked_adr)
  show ?case
  proof (cases "timenotvalid x < now")
    case False
    have eq: "invalid_loop k now h head (adr (rev us)) (adr (v # vs)) =
        invalid_loop k' now h head (adr (rev (us @ [(w, x)]))) (adr vs)"
      using False w by (simp add: k v del: rev_append)
    show ?thesis
      by (rule Cons.IH[where h = h and head = head and us = "us @ [(w, x)]" and k = k'])
        (use Cons.prems False k eq in \<open>auto simp: v entry_valid_def\<close>)
  next
    case True
    from Cons.prems(2) have l: "linked h head (us @ (w, x) # vs)" by (simp add: v)
    obtain h1 head1 where d: "delete_entry_ptr (h, head) w (adr (rev us)) = Inr ((h1, head1), adr vs)"
        "linked h1 head1 (us @ vs)" "fset (fmdom h1) = fset (fmdom h) - {w}"
      by (rule delete_entry_linked[OF l])
    have eq: "invalid_loop k now h head (adr (rev us)) (adr (v # vs)) =
        invalid_loop k' now h1 head1 (adr (rev us)) (adr vs)"
      using invalid_loop_delete[OF l True, of k'] d(1) k(2) by (simp add: k v)
    show ?thesis
    proof (rule Cons.IH[OF _ d(2) k(2)])
      fix h' head'
      assume "invalid_loop k' now h1 head1 (adr (rev us)) (adr vs) = Inr (h', head')"
        "linked h' head' (us @ filter (\<lambda>l. entry_valid now (snd l)) vs)"
        "fset (fmdom h') = fset (fmdom h1) - fst ` set (filter (\<lambda>l. \<not> entry_valid now (snd l)) vs)"
      then show ?thesis
        using eq d(3) True by (intro Cons.prems(1)[of h' head']) (auto simp: v entry_valid_def)
    qed
  qed
qed

lemma check_cache_invalid_linked:
  assumes "linked h head ls"
  obtains h' head' where "check_cache_invalid_ptr (h, head) now = Inr (h', head')"
    "linked h' head' (filter (\<lambda>l. entry_valid now (snd l)) ls)"
    "fset (fmdom h') = fset (fmdom h) - fst ` set (filter (\<lambda>l. \<not> entry_valid now (snd l)) ls)"
proof (rule invalid_loop_linked[where h = h and head = head and us = "[]" and vs = ls and k = "turns h" and now = now])
  show "linked h head ([] @ ls)" "length ls < turns h" using assms linked_length by auto
  fix h' head'
  assume "invalid_loop (turns h) now h head (adr (rev [])) (adr ls) = Inr (h', head')"
    "linked h' head' ([] @ filter (\<lambda>l. entry_valid now (snd l)) ls)"
    "fset (fmdom h') = fset (fmdom h) - fst ` set (filter (\<lambda>l. \<not> entry_valid now (snd l)) ls)"
  with linked_adr[OF assms] show thesis by (intro that) (auto simp: check_cache_invalid_ptr_def)
qed

section \<open>Implementing the list operations\<close>

lemma check_cache_invalid_ptr_owns:
  assumes "owns s cache"
  shows "\<exists>s'. check_cache_invalid_ptr s now = Inr s' \<and> owns s' (check_cache_invalid cache now)"
proof -
  obtain h head where s: "s = (h, head)" by (cases s)
  from assms obtain ls where ls: "linked h head ls" "map snd ls = cache" "fset (fmdom h) = fst ` set ls"
    by (auto simp: owns_def s)
  obtain h' head' where c: "check_cache_invalid_ptr (h, head) now = Inr (h', head')"
      "linked h' head' (filter (\<lambda>l. entry_valid now (snd l)) ls)"
      "fset (fmdom h') = fset (fmdom h) - fst ` set (filter (\<lambda>l. \<not> entry_valid now (snd l)) ls)"
    by (rule check_cache_invalid_linked[OF ls(1)])
  have "fst ` set ls - fst ` set (filter (\<lambda>l. \<not> P l) ls) = fst ` set (filter P ls)"
    if "distinct (map fst ls)" for P and ls :: "(addr \<times> arp_cache_entry) list"
    using that by (induction ls) (auto simp: image_iff)
  from this[OF linked_distinct[OF ls(1)], of "\<lambda>l. entry_valid now (snd l)"]
  have "fset (fmdom h') = fst ` set (filter (\<lambda>l. entry_valid now (snd l)) ls)"
    using c(3) ls(3) by simp
  moreover have "map snd (filter (\<lambda>l. entry_valid now (snd l)) ls) = check_cache_invalid cache now"
    by (simp add: check_cache_invalid_filter filter_map comp_def ls(2)[symmetric])
  ultimately show ?thesis using c(1,2) by (force simp: s owns_def)
qed

lemma cache_walk_find: "cache_walk cache ip = find (\<lambda>w. ip = ip_add w) cache"
  by (rule cachew.lookup_find)

lemma search_cache_ptr_owns:
  assumes "owns s cache"
  obtains h p where "search_cache_ptr s now ip = Inr (h, p)" "owns h (fst (search_cache cache now ip))"
    "p = 0" "snd (search_cache cache now ip) = None"
  | h p us e vs where "search_cache_ptr s now ip = Inr (h, p)" "owns h (fst (search_cache cache now ip))"
    "linked (fst h) (snd h) (us @ (p, e) # vs)" "p \<noteq> 0" "ip_add e = ip" "entry_valid now e" "e \<in> set cache"
    "snd (search_cache cache now ip) = Some (ac_mac e)"
proof -
  let ?c = "check_cache_invalid cache now"
  obtain s' where s': "check_cache_invalid_ptr s now = Inr s'" "owns s' ?c"
    using check_cache_invalid_ptr_owns[OF assms] by blast
  then obtain ls where ls: "linked (fst s') (snd s') ls" "map snd ls = ?c"
    by (auto simp: owns_def)
  show thesis
  proof (rule find_node_linked[OF ls(1) linked_length[OF ls(1)], of "\<lambda>w. ip = ip_add w"])
    assume *: "find_node (turns (fst s')) (\<lambda>w. ip = ip_add w) (fst s') (snd s') = Inr 0"
      "\<forall>x \<in> snd ` set ls. ip \<noteq> ip_add x"
    then have "cache_walk ?c ip = None" by (auto simp: cachew.lookup_None ls(2)[symmetric])
    with * s' show thesis
      by (intro that(1)) (auto simp: search_cache_ptr_def search_cache_def Let_def split: prod.splits)
  next
    fix us a e vs
    assume *: "find_node (turns (fst s')) (\<lambda>w. ip = ip_add w) (fst s') (snd s') = Inr a"
      "ls = us @ (a, e) # vs" "ip = ip_add e" "\<forall>y \<in> snd ` set us. ip \<noteq> ip_add y"
    have "cache_walk ?c ip = Some e"
      using *(2,3,4) unfolding cachew.lookup_first ls(2)[symmetric] by fastforce
    moreover have "e \<in> set ?c" using *(2) by (simp add: ls(2)[symmetric])
    moreover have "a \<noteq> 0" using seg_nodes[OF ls(1)] by (auto simp: *(2))
    ultimately show thesis
      using * s' ls
      by (intro that(2)[of s' a us e vs])
        (auto simp: search_cache_ptr_def search_cache_def check_cache_invalid_filter Let_def split: prod.splits)
  qed
qed

lemma cache_call_ok:
  assumes "allocates malloc" "owns s cache"
  shows "rel_sum (=) (rel_prod owns (=)) (cache_call_ptr malloc c s) (cache_call_list c cache)"
proof (cases c)
  case (Search now ip)
  show ?thesis
    by (rule search_cache_ptr_owns[OF assms(2), of now ip])
      (auto simp: Search cache_call_ptr_def cache_call_list_def mac_at_def seg_append seg_Cons node_simps
        rel_prod_sel)
next
  case (Insert now ip mac)
  let ?e = "\<lparr>ip_add = ip, ac_mac = take ETHER_ADDR_LEN mac, timenotvalid = now + ARP_TIMEOUT\<rparr>"
  have ap: "\<exists>t. append_node malloc ?e s1 = Inr t \<and> owns t (c1 @ [?e])" if "owns s1 c1" for s1 c1
    by (rule append_node_owns[OF assms(1) that])
  obtain c1 m where c1: "search_cache cache now ip = (c1, m)" by (cases "search_cache cache now ip")
  show ?thesis
    by (rule search_cache_ptr_owns[OF assms(2), of now ip])
      (auto simp: Insert cache_call_ptr_def cache_call_list_def add_cache_entry_ptr_def add_cache_entry_def c1
        dest: ap)
qed

interpretation arp_nodes: simulation owns "\<lambda>_. allocates malloc" "cache_call_ptr malloc" cache_call_list for malloc
  by unfold_locales (rule cache_call_ok)

text \<open>
  C30. The pointer code of the ARP cache implements the list operations. Whatever sequence of searches
  and insertions is made, with whatever allocator, the code on nodes returns the same MACs and faults only where
  the list operations do; it never follows a null or freed pointer, frees no node twice and does not loop, and in
  the end the nodes of the cache are exactly the nodes allocated.
\<close>

theorem cache_pointers:
  assumes "allocates malloc" "owns s cache"
  shows "case run_all cache_call_list calls cache of
           Inl e \<Rightarrow> run_all (cache_call_ptr malloc) calls s = Inl e
         | Inr (cache', out) \<Rightarrow> \<exists>s'. run_all (cache_call_ptr malloc) calls s = Inr (s', out) \<and> owns s' cache'"
proof -
  have "rel_sum (=) (rel_prod owns (=)) (run_all (cache_call_ptr malloc) calls s) (run_all cache_call_list calls cache)"
    using arp_nodes.implements_all[OF assms(2)] assms(1) by blast
  then show ?thesis by (auto split: sum.splits)
qed

theorem cache_pointers_witness:
  "\<exists>s'. run_all (cache_call_ptr bump) [Insert 0 5 [1, 2, 3, 4, 5, 6], Insert 4 7 [6, 5, 4, 3, 2, 1], Search 10 5, Search 17 5]
      (fmempty, 0) = Inr (s', [None, None, Some [1, 2, 3, 4, 5, 6], None]) \<and>
     owns s' [\<lparr>ip_add = 7, ac_mac = [6, 5, 4, 3, 2, 1], timenotvalid = 19\<rparr>]"
  using cache_pointers[OF bump_allocates owns_empty,
      of "[Insert 0 5 [1, 2, 3, 4, 5, 6], Insert 4 7 [6, 5, 4, 3, 2, 1], Search 10 5, Search 17 5]"]
  by (simp add: cache_call_list_def add_cache_entry_def search_cache_def check_cache_invalid_filter entry_valid_def
      ARP_TIMEOUT_def ETHER_ADDR_LEN_def)

section \<open>The pointer that a search hands out\<close>

text \<open>What a search does to a node of the cache: it stays, or is freed, according to its time.\<close>

lemma search_keeps_node:
  assumes "linked h head (us @ (p, e) # vs)" "p \<noteq> 0"
  obtains s' q where "search_cache_ptr (h, head) now ip = Inr (s', q)"
    "mac_at (fst s') p = (if entry_valid now e then Inr (ac_mac e) else Inl Use_after_free)"
proof -
  let ?ls = "us @ (p, e) # vs" and ?P = "\<lambda>l. entry_valid now (snd l)"
  obtain h' head' where c: "check_cache_invalid_ptr (h, head) now = Inr (h', head')"
      "linked h' head' (filter ?P ?ls)" "fset (fmdom h') = fset (fmdom h) - fst ` set (filter (\<lambda>l. \<not> ?P l) ?ls)"
    by (rule check_cache_invalid_linked[OF assms(1)])
  have "mac_at h' p = (if entry_valid now e then Inr (ac_mac e) else Inl Use_after_free)"
  proof (cases "entry_valid now e")
    case True
    then have "filter ?P ?ls = filter ?P us @ (p, e) # filter ?P vs" by simp
    with c(2) have "\<exists>r. fmlookup h' p = Some \<lparr>val = e, nxt = r\<rparr>" by (auto simp: seg_append seg_Cons)
    with True assms(2) show ?thesis by (auto simp: mac_at_def node_simps)
  next
    case False
    then have "p \<notin> fset (fmdom h')" unfolding c(3) by (auto simp: image_iff)
    then have "fmlookup h' p = None" by (auto intro: fmdom_notD)
    with False assms(2) show ?thesis by (simp add: mac_at_def load_def)
  qed
  moreover obtain q where "find_node (turns h') (\<lambda>w. ip = ip_add w) h' head' = Inr q"
    by (rule find_node_linked[OF c(2) linked_length[OF c(2)], of "\<lambda>w. ip = ip_add w"])
  ultimately show thesis using c(1) by (intro that[of "(h', head')" q]) (simp_all add: search_cache_ptr_def)
qed

text \<open>
  C33. The MAC that \<^verbatim>\<open>search_cache\<close> hands out is a pointer into the cache. It is the MAC of a valid entry for the
  address when the search returns, and after any later search it can still be read if and only if the entry
  has not expired by then: otherwise that search has freed the node and the pointer dangles.
\<close>

theorem search_pointer_lives:
  assumes "owns s cache" "search_cache_ptr s now ip = Inr (s1, p)" "p \<noteq> 0"
  shows "\<exists>e. e \<in> set cache \<and> ip_add e = ip \<and> now \<le> timenotvalid e \<and> mac_at (fst s1) p = Inr (ac_mac e) \<and>
           (\<forall>now' ip'. \<exists>s2 q. search_cache_ptr s1 now' ip' = Inr (s2, q) \<and>
              mac_at (fst s2) p = (if now' \<le> timenotvalid e then Inr (ac_mac e) else Inl Use_after_free))"
proof (rule search_cache_ptr_owns[OF assms(1), of now ip])
  fix h q us e vs
  assume s: "search_cache_ptr s now ip = Inr (h, q)"
    and l: "linked (fst h) (snd h) (us @ (q, e) # vs)" "q \<noteq> 0"
    and e: "ip_add e = ip" "entry_valid now e" "e \<in> set cache"
  from assms(2) s have q: "h = s1" "q = p" by simp_all
  with l have l': "linked (fst s1) (snd s1) (us @ (p, e) # vs)" by simp
  have "mac_at (fst s1) p = Inr (ac_mac e)"
    using l' by (auto simp: mac_at_def seg_append seg_Cons node_simps)
  moreover have "\<forall>now' ip'. \<exists>s2 q. search_cache_ptr s1 now' ip' = Inr (s2, q) \<and>
      mac_at (fst s2) p = (if now' \<le> timenotvalid e then Inr (ac_mac e) else Inl Use_after_free)"
    using search_keeps_node[OF l' assms(3)] unfolding entry_valid_def by (metis prod.collapse)
  ultimately show ?thesis using e by (intro exI[of _ e]) (simp add: entry_valid_def)
qed (use assms in simp)

text \<open>An entry added at time 0 is found at 10; a search at 20 frees it under the pointer.\<close>

theorem search_pointer_lives_witness:
  "\<exists>s p. search_cache_ptr (fmupd 1 \<lparr>val = \<lparr>ip_add = 5, ac_mac = [1, 2, 3, 4, 5, 6], timenotvalid = 15\<rparr>, nxt = 0\<rparr> fmempty, 1)
        10 5 = Inr (s, p) \<and>
     mac_at (fst s) p = Inr [1, 2, 3, 4, 5, 6] \<and>
     (\<exists>s2 q. search_cache_ptr s 20 7 = Inr (s2, q) \<and> mac_at (fst s2) p = Inl Use_after_free)"
proof -
  let ?e = "\<lparr>ip_add = 5, ac_mac = [1, 2, 3, 4, 5, 6], timenotvalid = 15\<rparr>"
  let ?s = "(fmupd 1 \<lparr>val = ?e, nxt = 0\<rparr> fmempty, 1)"
  have o: "owns ?s [?e]" by (auto simp: owns_def seg_Cons intro!: exI[of _ "[(1, ?e)]"])
  have s: "search_cache_ptr ?s 10 5 = Inr (?s, 1)"
    by (simp add: search_cache_ptr_def check_cache_invalid_ptr_def turns_def fcard_finsert_if load_def)
  from search_pointer_lives[OF o s] have e: "mac_at (fst ?s) 1 = Inr (ac_mac ?e)"
      "\<forall>now' ip'. \<exists>s2 q. search_cache_ptr ?s now' ip' = Inr (s2, q) \<and>
         mac_at (fst s2) 1 = (if now' \<le> timenotvalid ?e then Inr (ac_mac ?e) else Inl Use_after_free)"
    by auto
  show ?thesis
    by (rule exI[of _ ?s], rule exI[of _ 1]) (use s e(1) e(2)[rule_format, of 20 7] in simp)
qed

end
