(* ===== verification/Flow_Pointers.thy ===== *)
theory Flow_Pointers
  imports Heap_Lists Firewall
begin

text \<open>
  The rule and flow tables with their pointers: \<^verbatim>\<open>check_connection\<close>, \<^verbatim>\<open>tell_valid\<close> and what they call in
  \<^verbatim>\<open>fw.c\<close>, on nodes in a heap. They implement the operations of \<open>Firewall\<close>. No entry of the flow table is
  ever freed: what \<^verbatim>\<open>remove_stale_entries\<close> unlinks stays allocated.
\<close>

section \<open>The code\<close>

record flow_tables =
  ft_rules :: "ft_entry linked_list"
  ft_flows :: "ft_entry linked_list"
  ft_count :: int

definition rule_contains_ptr :: "flow_tables \<Rightarrow> conn \<Rightarrow> bool result" where
  "rule_contains_ptr s c =
     (case ft_rules s of (h, head) \<Rightarrow> rbind (find_node (turns h) (rule_hit c) h head) (\<lambda>p. Inr (p \<noteq> 0)))"

definition ft_contains_ptr :: "flow_tables \<Rightarrow> conn \<Rightarrow> time \<Rightarrow> addr result" where
  "ft_contains_ptr s c now =
     (case ft_flows s of (h, head) \<Rightarrow> find_node (turns h) (\<lambda>w. same_conn c w \<and> live now w) h head)"

definition touch_ptr :: "flow_tables \<Rightarrow> addr \<Rightarrow> flow_tables result" where
  "touch_ptr s p =
     (case ft_flows s of (h, head) \<Rightarrow> rbind (set_val h p refresh) (\<lambda>h'. Inr (s\<lparr>ft_flows := (h', head)\<rparr>)))"

definition check_connection_ptr :: "flow_tables \<Rightarrow> conn \<Rightarrow> time \<Rightarrow> (flow_tables \<times> bool) result" where
  "check_connection_ptr s c now =
     rbind (rule_contains_ptr s c) (\<lambda>r.
       if r then Inr (s, True)
       else rbind (ft_contains_ptr s c now) (\<lambda>p.
         if p \<noteq> 0 then rbind (touch_ptr s p) (\<lambda>s'. Inr (s', True)) else Inr (s, False)))"

definition add_rule_ptr :: "(ft_entry heap \<Rightarrow> addr) \<Rightarrow> flow_tables \<Rightarrow> conn \<Rightarrow> flow_tables result" where
  "add_rule_ptr malloc s c =
     rbind (append_node malloc (new_entry c 0) (ft_rules s)) (\<lambda>l. Inr (s\<lparr>ft_rules := l\<rparr>))"

definition add_connect_ptr ::
  "(ft_entry heap \<Rightarrow> addr) \<Rightarrow> flow_tables \<Rightarrow> conn \<Rightarrow> time \<Rightarrow> flow_tables result" where
  "add_connect_ptr malloc s c now =
     rbind (append_node malloc (new_entry c (now + TTL_INCREMENT)) (ft_flows s)) (\<lambda>l.
       Inr (s\<lparr>ft_flows := l, ft_count := ft_count s + 1\<rparr>))"

text \<open>
  \<^verbatim>\<open>remove_stale_entries\<close>. A stale walker makes the walk begin again at the new head, so a list of
  \<open>n\<close> nodes may take about \<open>n * n\<close> turns.
\<close>

primrec stale_loop ::
  "nat \<Rightarrow> time \<Rightarrow> ft_entry heap \<Rightarrow> addr \<Rightarrow> addr \<Rightarrow> addr \<Rightarrow> int \<Rightarrow> (ft_entry linked_list \<times> int) result" where
  "stale_loop 0 now h head prev walker sz = Inl Diverges"
| "stale_loop (Suc k) now h head prev walker sz =
     (if walker = 0 then Inr ((h, head), sz)
      else rbind (load h walker) (\<lambda>w.
        if stale now (val w) then
          (if prev = 0 then
             rbind (load h head) (\<lambda>hd. stale_loop k now h (nxt hd) prev (nxt hd) (sz - 1))
           else if nxt w = 0 then
             rbind (free h walker) (\<lambda>h1. stale_loop k now h1 head prev walker (sz - 1))
           else
             rbind (set_next h prev (nxt w)) (\<lambda>h1.
             rbind (free h1 walker) (\<lambda>h2. stale_loop k now h2 head prev walker (sz - 1))))
        else stale_loop k now h head prev (nxt w) sz))"

definition remove_stale_entries_ptr :: "flow_tables \<Rightarrow> time \<Rightarrow> flow_tables result" where
  "remove_stale_entries_ptr s now =
     (case ft_flows s of (h, head) \<Rightarrow>
        rbind (stale_loop (turns h * turns h) now h head 0 head (ft_count s)) (\<lambda>(l, n).
          Inr (s\<lparr>ft_flows := l, ft_count := n\<rparr>)))"

definition tell_valid_ptr ::
  "(ft_entry heap \<Rightarrow> addr) \<Rightarrow> flow_tables \<Rightarrow> conn \<Rightarrow> time \<Rightarrow> (flow_tables \<times> bool) result" where
  "tell_valid_ptr malloc s c now =
     rbind (ft_contains_ptr s c now) (\<lambda>p.
       if p \<noteq> 0 then rbind (touch_ptr s p) (\<lambda>s1. Inr (s1, True))
       else if ft_count s < MAX_FT_SIZE then
         rbind (add_connect_ptr malloc s c now) (\<lambda>s1. Inr (s1, True))
       else rbind (remove_stale_entries_ptr s now) (\<lambda>s1.
         if ft_count s1 < MAX_FT_SIZE then
           rbind (add_connect_ptr malloc s1 c now) (\<lambda>s2. Inr (s2, True))
         else Inr (s1, False)))"

text \<open>The calls that the packet handler and the start-up make.\<close>

datatype fw_call = Rule conn | Check conn time | Tell conn time

definition fw_call_ptr ::
  "(ft_entry heap \<Rightarrow> addr) \<Rightarrow> fw_call \<Rightarrow> flow_tables \<Rightarrow> (flow_tables \<times> bool) result" where
  "fw_call_ptr malloc call s =
     (case call of
        Rule c \<Rightarrow> rbind (add_rule_ptr malloc s c) (\<lambda>s1. Inr (s1, True))
      | Check c now \<Rightarrow> check_connection_ptr s c now
      | Tell c now \<Rightarrow> tell_valid_ptr malloc s c now)"

definition fw_call_list :: "fw_call \<Rightarrow> firewall \<Rightarrow> (firewall \<times> bool) result" where
  "fw_call_list call fw =
     (case call of
        Rule c \<Rightarrow> Inr (add_rule fw c, True)
      | Check c now \<Rightarrow> (case check_connection fw c now of (b, fw1) \<Rightarrow> Inr (fw1, b))
      | Tell c now \<Rightarrow> rbind (tell_valid fw c now) (\<lambda>(b, fw1). Inr (fw1, b)))"

section \<open>Removal unlinks a prefix and frees nothing\<close>

text \<open>A turn on a stale entry pops the entry the list starts with, whichever entry was found stale.\<close>

lemma stale_pop:
  assumes "linked h head (us @ w # ws)" "stale now (snd w)"
  obtains b y rs where "us @ w # ws = (b, y) # rs" "linked h (adr rs) rs"
    "stale_loop (Suc k) now h head 0 (adr (w # ws)) sz = stale_loop k now h (adr rs) 0 (adr rs) (sz - 1)"
    "after_last (stale now) (map snd (us @ w # ws)) = after_last (stale now) (map snd rs)"
proof -
  obtain a x where w: "w = (a, x)" by (cases w)
  from assms(1) have a: "a \<noteq> 0" "load h a = Inr \<lparr>val = x, nxt = adr ws\<rparr>"
    by (auto simp: w seg_append seg_Cons node_simps dest: linked_adr)
  obtain b y rs where ls: "us @ w # ws = (b, y) # rs" by (cases "us @ w # ws") auto
  from assms(1) ls have b: "b \<noteq> 0" "head = b" "load h b = Inr \<lparr>val = y, nxt = adr rs\<rparr>" "linked h (adr rs) rs"
    by (auto simp: seg_Cons node_simps dest: linked_adr)
  have "w \<in> set ((b, y) # rs)" by (simp add: ls[symmetric])
  with assms(2) have "\<exists>z \<in> set (y # map snd rs). stale now z" by fastforce
  then have "after_last (stale now) (map snd (us @ w # ws)) = after_last (stale now) (map snd rs)"
    unfolding ls by (simp add: after_last_Cons)
  moreover have "stale_loop (Suc k) now h head 0 (adr (w # ws)) sz = stale_loop k now h (adr rs) 0 (adr rs) (sz - 1)"
    using assms(2) a b by (simp add: w)
  ultimately show thesis using that[OF ls b(4)] by blast
qed

lemma stale_loop_linked:
  assumes "linked h head (us @ ws)" "\<forall>l \<in> set us. \<not> stale now (snd l)"
    "length (us @ ws) * (length (us @ ws) + 1) + length ws < k"
  shows "\<exists>head' ls'. stale_loop k now h head 0 (adr ws) sz =
      Inr ((h, head'), sz - int (length (us @ ws) - length ls')) \<and> linked h head' ls' \<and>
    map snd ls' = after_last (stale now) (map snd (us @ ws)) \<and> length ls' \<le> length (us @ ws)"
  using assms
proof (induction k arbitrary: head us ws sz)
  case (Suc k)
  show ?case
  proof (cases ws)
    case Nil
    have "after_last (stale now) (map snd us) = map snd us"
      using Suc.prems(2) by (intro after_last_none) auto
    with Nil Suc.prems(1) show ?thesis by (intro exI[of _ head] exI[of _ us]) simp
  next
    case (Cons w ws')
    show ?thesis
    proof (cases "stale now (snd w)")
      case False
      obtain a x where w: "w = (a, x)" by (cases w)
      from Suc.prems(1) have a: "a \<noteq> 0" "load h a = Inr \<lparr>val = x, nxt = adr ws'\<rparr>"
        by (auto simp: Cons w seg_append seg_Cons node_simps dest: linked_adr)
      have "\<exists>head' ls'. stale_loop k now h head 0 (adr ws') sz =
          Inr ((h, head'), sz - int (length ((us @ [w]) @ ws') - length ls')) \<and> linked h head' ls' \<and>
        map snd ls' = after_last (stale now) (map snd ((us @ [w]) @ ws')) \<and> length ls' \<le> length ((us @ [w]) @ ws')"
        using Suc.prems False by (intro Suc.IH) (auto simp: Cons w)
      with False a show ?thesis by (simp add: Cons w)
    next
      case True
      obtain b y rs where p: "us @ w # ws' = (b, y) # rs" "linked h (adr rs) rs"
          "stale_loop (Suc k) now h head 0 (adr (w # ws')) sz = stale_loop k now h (adr rs) 0 (adr rs) (sz - 1)"
          "after_last (stale now) (map snd (us @ w # ws')) = after_last (stale now) (map snd rs)"
        using stale_pop[of h head us w ws' now, OF _ True] Suc.prems(1) unfolding Cons by metis
      have n: "length (us @ ws) = Suc (length rs)" using arg_cong[OF p(1), of length] by (simp add: Cons)
      have "\<exists>head' ls'. stale_loop k now h (adr rs) 0 (adr rs) (sz - 1) =
          Inr ((h, head'), sz - 1 - int (length ([] @ rs) - length ls')) \<and> linked h head' ls' \<and>
        map snd ls' = after_last (stale now) (map snd ([] @ rs)) \<and> length ls' \<le> length ([] @ rs)"
        using Suc.prems(3) p(2) unfolding n by (intro Suc.IH) auto
      then obtain head' ls' where "stale_loop k now h (adr rs) 0 (adr rs) (sz - 1) =
          Inr ((h, head'), sz - 1 - int (length rs - length ls'))" "linked h head' ls'"
          "map snd ls' = after_last (stale now) (map snd rs)" "length ls' \<le> length rs"
        by auto
      then show ?thesis
        using n unfolding Cons p(3,4) by (intro exI[of _ head'] exI[of _ ls']) (simp add: Suc_diff_le)
    qed
  qed
qed simp

section \<open>Implementing the list operations\<close>

text \<open>
  The state represents the firewall's tables, and the nodes \<open>D\<close> are still allocated.
\<close>

definition fw_rep :: "addr set \<Rightarrow> flow_tables \<Rightarrow> firewall \<Rightarrow> bool" where
  "fw_rep D s fw \<longleftrightarrow> holds (ft_rules s) (rules fw) \<and> holds (ft_flows s) (flow_table fw) \<and>
     ft_count s = ft_size fw \<and> D \<subseteq> fset (fmdom (fst (ft_flows s)))"

lemma append_node_holds:
  assumes "allocates malloc" "holds l xs"
  shows "\<exists>l'. append_node malloc x l = Inr l' \<and> holds l' (xs @ [x]) \<and>
    fset (fmdom (fst l')) = insert (malloc (fst l)) (fset (fmdom (fst l)))"
proof -
  from assms(2) obtain ls where ls: "linked (fst l) (snd l) ls" "map snd ls = xs"
    by (auto simp: holds_def)
  obtain h' p' where "append_node malloc x (fst l, snd l) = Inr (h', p')"
      "linked h' p' (ls @ [(malloc (fst l), x)])" "fset (fmdom h') = insert (malloc (fst l)) (fset (fmdom (fst l)))"
    by (rule append_node_linked[OF assms(1) ls(1)])
  with ls(2) show ?thesis by (auto simp: holds_def intro!: exI[of _ "ls @ [(malloc (fst l), x)]"])
qed

lemma rule_contains_rep: "fw_rep D s fw \<Longrightarrow> rule_contains_ptr s c = Inr (rule_contains fw c)"
proof -
  assume "fw_rep D s fw"
  then obtain ls where ls: "linked (fst (ft_rules s)) (snd (ft_rules s)) ls" "map snd ls = rules fw"
    by (auto simp: fw_rep_def holds_def)
  show ?thesis
    by (rule find_node_rep[OF ls(1), of "rule_hit c"])
      (auto simp: rule_contains_ptr_def rule_contains_def rule_walk_iff ls(2) split: prod.splits)
qed

lemma ft_contains_first:
  "\<forall>y \<in> set us. \<not> (same_conn c y \<and> live now y) \<Longrightarrow> same_conn c x \<and> live now x \<Longrightarrow>
   ft_contains (us @ x # vs) c now = Some (length us)"
  by (induction us) auto

lemma ft_contains_rep:
  assumes "fw_rep D s fw"
  obtains "ft_contains_ptr s c now = Inr 0" "ft_contains (flow_table fw) c now = None"
  | p i s' where "ft_contains_ptr s c now = Inr p" "p \<noteq> 0" "ft_contains (flow_table fw) c now = Some i"
    "touch_ptr s p = Inr s'" "fw_rep D s' (touch fw i)"
proof -
  obtain h head where t: "ft_flows s = (h, head)" by (cases "ft_flows s")
  from assms obtain ls where ls: "linked h head ls" "map snd ls = flow_table fw"
    by (auto simp: fw_rep_def holds_def t)
  let ?P = "\<lambda>w. same_conn c w \<and> live now w"
  show thesis
  proof (rule find_node_rep[OF ls(1), of ?P])
    assume "find_node (turns h) ?P h head = Inr 0" "\<forall>x \<in> set (map snd ls). \<not> ?P x"
    then show thesis
      unfolding ls(2) by (intro that(1)) (simp_all add: t ft_contains_ptr_def ft_contains_None)
  next
    fix p us x vs n
    assume f: "find_node (turns h) ?P h head = Inr p" "p \<noteq> 0" "map snd ls = us @ x # vs" "?P x"
        "\<forall>y \<in> set us. \<not> ?P y"
      and w: "\<And>f. \<exists>h' ls'. set_val h p f = Inr h' \<and> linked h' head ls' \<and> map snd ls' = us @ f x # vs \<and>
        fmdom h' = fmdom h \<and> fst ` set ls' = fst ` set ls"
    from w[of refresh] obtain h' ls' where h': "set_val h p refresh = Inr h'" "linked h' head ls'"
        "map snd ls' = us @ refresh x # vs" "fmdom h' = fmdom h" by auto
    have fl: "flow_table fw = us @ x # vs" using ls(2) f(3) by simp
    have "holds (h', head) ((flow_table fw)[length us := refresh (flow_table fw ! length us)])"
      unfolding holds_def fl using h' by auto
    with assms h' have "fw_rep D (s\<lparr>ft_flows := (h', head)\<rparr>) (touch fw (length us))"
      by (simp add: fw_rep_def touch_def t)
    with f h' show thesis
      by (intro that(2)[of p "length us" "s\<lparr>ft_flows := (h', head)\<rparr>"])
        (simp_all add: t ft_contains_ptr_def touch_ptr_def fl ft_contains_first)
  qed
qed

lemma add_connect_rep:
  assumes "allocates malloc" "fw_rep D s fw"
  shows "\<exists>s'. add_connect_ptr malloc s c now = Inr s' \<and> fw_rep D s' (add_connect fw c now)"
proof -
  from assms(2) have "holds (ft_flows s) (flow_table fw)" by (simp add: fw_rep_def)
  from append_node_holds[OF assms(1) this, of "new_entry c (now + TTL_INCREMENT)"] assms(2) show ?thesis
    by (auto simp: add_connect_ptr_def fw_rep_def add_connect_def)
qed

lemma remove_stale_rep:
  assumes "fw_rep D s fw"
  shows "\<exists>s' fw'. remove_stale_entries_ptr s now = Inr s' \<and> remove_stale_entries fw now = Inr fw' \<and>
    fw_rep D s' fw' \<and> fst (ft_flows s') = fst (ft_flows s)"
proof -
  obtain h head where t: "ft_flows s = (h, head)" by (cases "ft_flows s")
  from assms obtain ls where ls: "linked h head ls" "map snd ls = flow_table fw"
    by (auto simp: fw_rep_def holds_def t)
  have "length ls * (length ls + 1) + length ls < turns h * turns h"
  proof -
    have "length ls * (length ls + 1) + length ls < (length ls + 1) * (length ls + 1)" by simp
    also have "\<dots> \<le> turns h * turns h" using linked_length[OF ls(1)] by (intro mult_le_mono) simp_all
    finally show ?thesis .
  qed
  with stale_loop_linked[of h head "[]" ls now "turns h * turns h" "ft_count s"] ls(1) linked_adr[OF ls(1)]
  obtain head' ls' where r: "stale_loop (turns h * turns h) now h head 0 head (ft_count s) =
      Inr ((h, head'), ft_count s - int (length ls - length ls'))" "linked h head' ls'"
      "map snd ls' = after_last (stale now) (flow_table fw)"
    by (auto simp: ls(2))
  have "length ls = length (flow_table fw)" "length ls' = length (after_last (stale now) (flow_table fw))"
    using ls(2) r(3) by (metis length_map)+
  with r assms show ?thesis
    by (auto simp: remove_stale_entries_ptr_def remove_stale_entries_eq t fw_rep_def holds_def)
qed

lemma fw_call_ok:
  assumes "allocates malloc" "fw_rep D s fw"
  shows "rel_sum (=) (rel_prod (fw_rep D) (=)) (fw_call_ptr malloc call s) (fw_call_list call fw)"
proof (cases call)
  case (Rule c)
  from assms(2) have "holds (ft_rules s) (rules fw)" by (simp add: fw_rep_def)
  from append_node_holds[OF assms(1) this, of "new_entry c 0"] assms(2) show ?thesis
    by (auto simp: Rule fw_call_ptr_def fw_call_list_def add_rule_ptr_def add_rule_def fw_rep_def)
next
  case (Check c now)
  show ?thesis
    by (rule ft_contains_rep[OF assms(2), of c now])
      (use assms(2) in \<open>auto simp: Check fw_call_ptr_def fw_call_list_def check_connection_ptr_def
        check_connection_def rule_contains_rep[OF assms(2)]\<close>)
next
  case (Tell c now)
  obtain s1 fw1 where s1: "remove_stale_entries_ptr s now = Inr s1" "remove_stale_entries fw now = Inr fw1"
      "fw_rep D s1 fw1"
    using remove_stale_rep[OF assms(2)] by blast
  then have n: "ft_count s = ft_size fw" "ft_count s1 = ft_size fw1" using assms(2) by (simp_all add: fw_rep_def)
  show ?thesis
    by (rule ft_contains_rep[OF assms(2), of c now])
      (use s1 n add_connect_rep[OF assms, of c now] add_connect_rep[OF assms(1) s1(3), of c now] in
        \<open>auto simp: Tell fw_call_ptr_def fw_call_list_def tell_valid_ptr_def tell_valid_def\<close>)
qed

interpretation fw_nodes: simulation "fw_rep D" "\<lambda>_. allocates malloc" "fw_call_ptr malloc" fw_call_list for D malloc
  by unfold_locales (rule fw_call_ok)

lemma fw_calls_total: "\<exists>fw' out. run_all fw_call_list calls fw = Inr (fw', out)"
proof (induction calls arbitrary: fw)
  case (Cons call calls)
  have "\<exists>fw1 b. fw_call_list call fw = Inr (fw1, b)"
    by (cases call)
      (auto simp: fw_call_list_def tell_valid_def remove_stale_entries_eq split: prod.splits option.splits)
  then obtain fw1 b where "fw_call_list call fw = Inr (fw1, b)" by blast
  moreover obtain fw' out where "run_all fw_call_list calls fw1 = Inr (fw', out)" using Cons.IH by blast
  ultimately show ?case by simp
qed simp

text \<open>
  C32. The pointer code of the firewall implements the list operations. Whatever rules are added, whatever
  connections are checked and told, with whatever allocator, the code on nodes ends each call without a fault, gives the same verdicts and
  leaves nodes that represent the same tables. But none of it ever frees a node of the flow table: every entry that
  \<^verbatim>\<open>remove_stale_entries\<close> unlinks leaks.
\<close>

theorem flow_pointers:
  assumes "allocates malloc" "fw_rep D s fw"
  shows "\<exists>fw' out s'. run_all fw_call_list calls fw = Inr (fw', out) \<and>
           run_all (fw_call_ptr malloc) calls s = Inr (s', out) \<and> fw_rep D s' fw'"
proof -
  obtain fw' out where "run_all fw_call_list calls fw = Inr (fw', out)" using fw_calls_total by blast
  with fw_nodes.no_fault[OF assms(2) _ this] assms(1) show ?thesis by blast
qed

text \<open>A stale entry in a full table: the table loses it, the heap does not.\<close>

definition full_table :: firewall where
  "full_table = \<lparr>rules = [], flow_table = [new_entry \<lparr>c_ip_s = 1, c_ip_d = 2, c_protocol = 6, c_port_s = 3, c_port_d = 4\<rparr> 50],
     ft_size = 30, inter = [], exter = []\<rparr>"

definition full_nodes :: flow_tables where
  "full_nodes = \<lparr>ft_rules = (fmempty, 0),
     ft_flows = (fmupd 1 \<lparr>val = hd (flow_table full_table), nxt = 0\<rparr> fmempty, 1), ft_count = 30\<rparr>"

lemma full_rep: "fw_rep {1} full_nodes full_table"
  by (auto simp: fw_rep_def full_nodes_def full_table_def holds_def seg_Cons
      intro!: exI[of _ "[(1, hd (flow_table full_table))]"])

theorem flow_pointers_witness:
  "\<exists>fw' s'. run_all (fw_call_ptr bump)
       [Tell \<lparr>c_ip_s = 5, c_ip_d = 6, c_protocol = 17, c_port_s = 7, c_port_d = 8\<rparr> 60,
        Check \<lparr>c_ip_s = 5, c_ip_d = 6, c_protocol = 17, c_port_s = 7, c_port_d = 8\<rparr> 70] full_nodes =
       Inr (s', [True, True]) \<and>
     fw_rep {1} s' fw' \<and>
     flow_table fw' = [refresh (new_entry \<lparr>c_ip_s = 5, c_ip_d = 6, c_protocol = 17, c_port_s = 7, c_port_d = 8\<rparr> 110)]"
proof -
  let ?c = "\<lparr>c_ip_s = 5, c_ip_d = 6, c_protocol = 17, c_port_s = 7, c_port_d = 8\<rparr>"
  have "run_all fw_call_list [Tell ?c 60, Check ?c 70] full_table =
      Inr (full_table\<lparr>flow_table := [refresh (new_entry ?c 110)]\<rparr>, [True, True])"
    by (simp add: fw_call_list_def tell_valid_def full_table_def new_entry_def same_conn_def live_def fw_limits
        remove_stale_entries_eq stale_def after_last_def add_connect_def check_connection_def rule_contains_def
        touch_def refresh_def)
  with flow_pointers[OF bump_allocates full_rep, of "[Tell ?c 60, Check ?c 70]"]
  obtain s' where "run_all (fw_call_ptr bump) [Tell ?c 60, Check ?c 70] full_nodes = Inr (s', [True, True])"
      "fw_rep {1} s' (full_table\<lparr>flow_table := [refresh (new_entry ?c 110)]\<rparr>)"
    by auto
  then show ?thesis
    by (intro exI[of _ "full_table\<lparr>flow_table := [refresh (new_entry ?c 110)]\<rparr>"]) auto
qed

end
