(* ===== verification/Ftable_Pointers.thy ===== *)
theory Ftable_Pointers
  imports Heap_Lists Forwarding
begin

text \<open>
  The forwarding table with its pointers: \<^verbatim>\<open>reset_ftable\<close> and \<^verbatim>\<open>update_ftable\<close> of
  \<^verbatim>\<open>top_info.c\<close> on nodes in a heap. They implement \<open>update_ftable\<close> of \<open>Forwarding\<close>: the old table is freed
  node by node and the new one is what the list operations make.
\<close>

section \<open>The code\<close>

primrec reset_loop :: "nat \<Rightarrow> ftable_entry heap \<Rightarrow> addr \<Rightarrow> ftable_entry heap result" where
  "reset_loop 0 h current = Inl Diverges"
| "reset_loop (Suc k) h current =
     (if current = 0 then Inr h
      else rbind (load h current) (\<lambda>c. rbind (free h current) (\<lambda>h'. reset_loop k h' (nxt c))))"

definition reset_ftable :: "ftable_entry linked_list \<Rightarrow> ftable_entry linked_list result" where
  "reset_ftable t = (case t of (h, head) \<Rightarrow> rbind (reset_loop (turns h) h head) (\<lambda>h'. Inr (h', 0)))"

definition ftable_contains_ptr :: "ftable_entry linked_list \<Rightarrow> u32 \<times> u32 \<Rightarrow> addr result" where
  "ftable_contains_ptr t k =
     (case t of (h, head) \<Rightarrow> find_node (turns h) (\<lambda>e. ft_prefix e = fst k \<and> ft_mask e = snd k) h head)"

definition ftable_set :: "ftable_entry linked_list \<Rightarrow> addr \<Rightarrow> u32 \<Rightarrow> string \<Rightarrow> int \<Rightarrow> ftable_entry linked_list result" where
  "ftable_set t p nhop iface hops =
     (case t of (h, head) \<Rightarrow>
        rbind (set_val h p (\<lambda>e. e\<lparr>ft_next_hop := nhop, ft_interface := iface, ft_num_hops := hops\<rparr>))
          (\<lambda>h'. Inr (h', head)))"

definition local_entry_ptr ::
  "(ftable_entry heap \<Rightarrow> addr) \<Rightarrow> pwospf_if list \<Rightarrow> route option \<Rightarrow> route \<Rightarrow> ftable_entry linked_list \<Rightarrow>
     ftable_entry linked_list result" where
  "local_entry_ptr malloc ifs dsub sub t =
     (let new = (case get_subnet_if ifs sub of
            None \<Rightarrow> Inl Assertion_failure
          | Some w \<Rightarrow> append_node malloc \<lparr>ft_prefix = prefix sub, ft_mask = rmask sub,
              ft_next_hop = rnext_hop sub, ft_interface = pif_name w, ft_num_hops = 0\<rparr> t)
      in if snd t = 0 then new
         else (case dsub of
            None \<Rightarrow> Inl Out_of_bounds
          | Some d \<Rightarrow>
              rbind (ftable_contains_ptr t (prefix d, rmask d)) (\<lambda>p.
                if p \<noteq> 0 then
                  (case get_subnet_if ifs sub of
                     None \<Rightarrow> Inl Assertion_failure
                   | Some w \<Rightarrow> ftable_set t p (rnext_hop sub) (pif_name w) 0)
                else new)))"

fun local_entries_ptr ::
  "(ftable_entry heap \<Rightarrow> addr) \<Rightarrow> pwospf_if list \<Rightarrow> route list \<Rightarrow> route list \<Rightarrow> ftable_entry linked_list \<Rightarrow>
     ftable_entry linked_list result" where
  "local_entries_ptr malloc ifs ds [] t = Inr t"
| "local_entries_ptr malloc ifs [] (sub # subs) t =
     rbind (local_entry_ptr malloc ifs None sub t) (local_entries_ptr malloc ifs [] subs)"
| "local_entries_ptr malloc ifs (d # ds) (sub # subs) t =
     rbind (local_entry_ptr malloc ifs (Some d) sub t) (local_entries_ptr malloc ifs ds subs)"

definition remote_entry_ptr ::
  "(ftable_entry heap \<Rightarrow> addr) \<Rightarrow> string \<Rightarrow> u32 \<Rightarrow> int \<Rightarrow> route \<Rightarrow> ftable_entry linked_list \<Rightarrow>
     ftable_entry linked_list result" where
  "remote_entry_ptr malloc iface nhop numhops sub t =
     rbind (ftable_contains_ptr t (prefix sub, rmask sub)) (\<lambda>p.
       if p = 0 then
         (if numhops = 0 then Inl Assertion_failure
          else append_node malloc \<lparr>ft_prefix = prefix sub, ft_mask = rmask sub, ft_next_hop = nhop,
                 ft_interface = iface, ft_num_hops = numhops\<rparr> t)
       else rbind (load (fst t) p) (\<lambda>e.
         if numhops < ft_num_hops (val e) then
           (if numhops = 0 then Inl Assertion_failure else ftable_set t p nhop iface numhops)
         else Inr t))"

primrec ftable_walk_ptr ::
  "(ftable_entry heap \<Rightarrow> addr) \<Rightarrow> topo \<Rightarrow> pwospf_if list \<Rightarrow> nat list \<Rightarrow> ftable_entry linked_list \<Rightarrow>
     (int \<times> ftable_entry linked_list) result" where
  "ftable_walk_ptr malloc s ifs [] t = Inr (1, t)"
| "ftable_walk_ptr malloc s ifs (a # as) t =
     rbind (find_next_hop s a) (\<lambda>(next_hop, numhops).
     rbind (deref s a) (\<lambda>dest.
       case next_hop of
         None \<Rightarrow>
           if numhops = 0 then
             rbind (deref s (this_router s)) (\<lambda>me.
             rbind (local_entries_ptr malloc ifs (subnets dest) (subnets me) t) (ftable_walk_ptr malloc s ifs as))
           else Inr (0, t)
       | Some hp \<Rightarrow>
           rbind (deref s hp) (\<lambda>hr.
           case next_hop_of ifs (rid hr) of (iface, nhop) \<Rightarrow>
             rbind (foldr_res (remote_entry_ptr malloc iface nhop numhops) (subnets dest) t)
               (ftable_walk_ptr malloc s ifs as))))"

text \<open>\<^verbatim>\<open>update_ftable\<close>, from the table there is.\<close>

definition update_ftable_ptr ::
  "(ftable_entry heap \<Rightarrow> addr) \<Rightarrow> topo \<Rightarrow> pwospf_if list \<Rightarrow> ftable_entry linked_list \<Rightarrow>
     (int \<times> ftable_entry linked_list) result" where
  "update_ftable_ptr malloc s ifs t =
     rbind (reset_ftable t) (\<lambda>t1.
     rbind (rassert (snd t1 = 0)) (\<lambda>_. ftable_walk_ptr malloc s ifs (network s) t1))"

section \<open>Each step implements its list operation\<close>

lemma reset_loop_linked:
  "linked h p ls \<Longrightarrow> length ls < k \<Longrightarrow>
   \<exists>h'. reset_loop k h p = Inr h' \<and> fset (fmdom h') = fset (fmdom h) - fst ` set ls"
proof (induction ls arbitrary: h p k)
  case Nil
  then show ?case by (cases k) auto
next
  case (Cons l ls)
  obtain a x where l: "l = (a, x)" by (cases l)
  from Cons.prems obtain k' where k: "k = Suc k'" "length ls < k'" by (cases k) auto
  from Cons.prems(1) obtain q where q: "p = a" "a \<noteq> 0" "fmlookup h a = Some \<lparr>val = x, nxt = q\<rparr>"
      "linked (fmdrop a h) q ls" "fset (fmdom (fmdrop a h)) = fset (fmdom h) - {a}"
    by (auto simp: l elim: linked_unlink_first)
  from Cons.IH[OF q(4) k(2)] q(1,2,3,5) k(1) show ?case by (auto simp: l node_simps)
qed

lemma reset_ftable_owns: "owns t ft \<Longrightarrow> reset_ftable t = Inr (fmempty, 0)"
proof -
  assume "owns t ft"
  then obtain ls where ls: "linked (fst t) (snd t) ls" "fset (fmdom (fst t)) = fst ` set ls"
    by (auto simp: owns_def)
  from reset_loop_linked[OF ls(1) linked_length[OF ls(1)]] obtain h'
    where h': "reset_loop (turns (fst t)) (fst t) (snd t) = Inr h'" "fset (fmdom h') = {}"
    using ls(2) by auto
  from fmdom_empty[OF h'(2)] have "h' = fmempty" .
  with h'(1) show ?thesis by (cases t) (simp add: reset_ftable_def)
qed

lemma ftable_contains_first:
  "\<forall>y \<in> set us. \<not> (ft_prefix y = fst k \<and> ft_mask y = snd k) \<Longrightarrow> ft_prefix x = fst k \<and> ft_mask x = snd k \<Longrightarrow>
   ftable_contains (us @ x # vs) k = Some x \<and> ftable_write f (us @ x # vs) k = us @ f x # vs"
  by (induction us) auto

text \<open>What \<^verbatim>\<open>ftable_contains\<close> finds, and the write through it.\<close>

lemma ftable_find_owns:
  assumes "owns t ft"
  obtains "ftable_contains_ptr t k = Inr 0" "ftable_contains ft k = None"
  | p e n where "ftable_contains_ptr t k = Inr p" "p \<noteq> 0" "ftable_contains ft k = Some e" "load (fst t) p = Inr n"
    "val n = e"
    "\<And>nhop iface hops. \<exists>t'. ftable_set t p nhop iface hops = Inr t' \<and>
       owns t' (ftable_write (\<lambda>e. e\<lparr>ft_next_hop := nhop, ft_interface := iface, ft_num_hops := hops\<rparr>) ft k)"
proof -
  obtain h head where t: "t = (h, head)" by (cases t)
  show thesis
  proof (rule find_node_owns[OF assms[unfolded t], of "\<lambda>e. ft_prefix e = fst k \<and> ft_mask e = snd k"])
    assume "find_node (turns h) (\<lambda>e. ft_prefix e = fst k \<and> ft_mask e = snd k) h head = Inr 0"
      "\<forall>x \<in> set ft. \<not> (ft_prefix x = fst k \<and> ft_mask x = snd k)"
    then show thesis by (intro that(1)) (simp_all add: t ftable_contains_ptr_def ftab.lookup_None)
  next
    fix p us e vs n
    assume f: "find_node (turns h) (\<lambda>e. ft_prefix e = fst k \<and> ft_mask e = snd k) h head = Inr p" "p \<noteq> 0"
        "load h p = Inr n" "val n = e"
      and ft: "ft = us @ e # vs" and e: "ft_prefix e = fst k \<and> ft_mask e = snd k"
        "\<forall>y \<in> set us. \<not> (ft_prefix y = fst k \<and> ft_mask y = snd k)"
      and w: "\<And>f. \<exists>h'. set_val h p f = Inr h' \<and> owns (h', head) (us @ f e # vs)"
    note fst = ftable_contains_first[OF e(2,1)]
    have "\<exists>t'. ftable_set t p nhop iface hops = Inr t' \<and>
       owns t' (ftable_write (\<lambda>e. e\<lparr>ft_next_hop := nhop, ft_interface := iface, ft_num_hops := hops\<rparr>) ft k)"
      for nhop iface hops
      using w[of "\<lambda>e. e\<lparr>ft_next_hop := nhop, ft_interface := iface, ft_num_hops := hops\<rparr>"]
      by (auto simp: t ft ftable_set_def fst)
    with f fst show thesis by (intro that(2)[of p e n]) (auto simp: t ft ftable_contains_ptr_def)
  qed
qed

lemma owns_null: "owns t ft \<Longrightarrow> snd t = 0 \<longleftrightarrow> ft = []"
  by (auto simp: owns_def dest: seg_head linked_adr)

lemma remote_entry_owns:
  assumes "allocates malloc" "owns t ft"
  shows "rel_sum (=) owns (remote_entry_ptr malloc iface nhop numhops sub t) (remote_entry iface nhop numhops sub ft)"
  by (rule ftable_find_owns[OF assms(2), of "(prefix sub, rmask sub)"])
    (use assms append_node_owns[OF assms] in \<open>auto simp: remote_entry_ptr_def remote_entry_def\<close>)

lemma local_entry_owns:
  assumes "allocates malloc" "owns t ft"
  shows "rel_sum (=) owns (local_entry_ptr malloc ifs dsub sub t) (local_entry ifs dsub sub ft)"
proof (cases dsub)
  case None
  then show ?thesis
    using append_node_owns[OF assms] owns_null[OF assms(2)]
    by (auto simp: local_entry_ptr_def local_entry_def Let_def split: option.splits)
next
  case (Some d)
  show ?thesis
    by (rule ftable_find_owns[OF assms(2), of "(prefix d, rmask d)"])
      (use append_node_owns[OF assms] owns_null[OF assms(2)] Some in
        \<open>auto simp: local_entry_ptr_def local_entry_def Let_def split: option.splits\<close>)
qed

lemma local_entries_owns:
  assumes "allocates malloc" "owns t ft"
  shows "rel_sum (=) owns (local_entries_ptr malloc ifs ds subs t) (local_entries ifs ds subs ft)"
  using assms(2)
  by (induction ifs ds subs ft arbitrary: t rule: local_entries.induct)
    (auto intro!: rel_rbind[where R = owns] local_entry_owns[OF assms(1)])

lemma ftable_walk_owns:
  assumes "allocates malloc" "owns t ft"
  shows "rel_sum (=) (rel_prod (=) owns) (ftable_walk_ptr malloc s ifs as t) (ftable_walk s ifs as ft)"
  using assms(2)
proof (induction as arbitrary: t ft)
  case (Cons a as)
  have walk: "rel_sum (=) (rel_prod (=) owns) (rbind c (ftable_walk_ptr malloc s ifs as)) (rbind l (ftable_walk s ifs as))"
    if "rel_sum (=) owns c l" for c l
    by (rule rel_rbind[OF that]) (rule Cons.IH)
  have "rel_sum (=) owns (local_entries_ptr malloc ifs ds subs t) (local_entries ifs ds subs ft)" for ds subs
    by (rule local_entries_owns[OF assms(1) Cons.prems])
  moreover have "rel_sum (=) owns (foldr_res (remote_entry_ptr malloc iface nhop n) subs t)
      (foldr_res (remote_entry iface nhop n) subs ft)" for iface nhop n subs
    by (rule rel_foldr_res[where R = owns, OF Cons.prems]) (rule remote_entry_owns[OF assms(1)])
  ultimately show ?case
    using Cons.prems by (auto intro!: rel_rbind_same walk split: option.splits prod.splits)
qed simp

text \<open>
  C31. The pointer code of \<^verbatim>\<open>update_ftable\<close> implements the list operation. Whatever table there is, with
  whatever allocator, the code frees each of its nodes once, builds in nodes exactly the table that the list operation
  makes, returns the same number and faults only where the list operation does: it follows no null or freed pointer and leaks
  no entry.
\<close>

theorem update_ftable_pointers:
  assumes "allocates malloc" "owns t old"
  shows "case update_ftable s ifs of
           Inl e \<Rightarrow> update_ftable_ptr malloc s ifs t = Inl e
         | Inr (ret, ft) \<Rightarrow> \<exists>t'. update_ftable_ptr malloc s ifs t = Inr (ret, t') \<and> owns t' ft"
proof -
  have "update_ftable_ptr malloc s ifs t = ftable_walk_ptr malloc s ifs (network s) (fmempty, 0)"
    by (simp add: update_ftable_ptr_def reset_ftable_owns[OF assms(2)])
  with ftable_walk_owns[OF assms(1) owns_empty, of s ifs "network s"] show ?thesis
    by (auto simp: update_ftable_def split: sum.splits)
qed

text \<open>
  This router with a subnet, and behind its interface a neighbour with another: the one old entry
  makes way for two.
\<close>

definition two_routers :: topo where
  "two_routers = \<lparr>store = [Some ((new_router 0 1)\<lparr>subnets := [stub 8]\<rparr>),
       Some ((new_router 0 2)\<lparr>subnets := [stub 16], prev := Some 0\<rparr>)],
     network = [0, 1], this_router = 0, init_time = 90\<rparr>"

definition one_if :: pwospf_if where
  "one_if = \<lparr>pif_address = 9, pif_mask = 12, pif_name = ''eth0'', pif_helloint = 5, pif_mac = [],
     pif_neighbors = [\<lparr>nb_id = 2, nb_ip = 10, nb_timenotvalid = 0\<rparr>], pif_nbr_buf_size = 5, pif_nbr_bytes = 40\<rparr>"

definition old_entry :: ftable_entry where
  "old_entry = \<lparr>ft_prefix = 3, ft_mask = 3, ft_next_hop = 0, ft_interface = ''eth1'', ft_num_hops = 0\<rparr>"

lemma owns_old: "owns (fmupd 1 \<lparr>val = old_entry, nxt = 0\<rparr> fmempty, 1) [old_entry]"
  by (auto simp: owns_def seg_Cons intro!: exI[of _ "[(1, old_entry)]"])

lemma two_routers_ftable:
  "update_ftable two_routers [one_if] = Inr (1,
     [\<lparr>ft_prefix = 8, ft_mask = rmask (stub 8), ft_next_hop = rnext_hop (stub 8), ft_interface = ''eth0'', ft_num_hops = 0\<rparr>,
      \<lparr>ft_prefix = 16, ft_mask = rmask (stub 16), ft_next_hop = 10, ft_interface = ''eth0'', ft_num_hops = 1\<rparr>])"
  by (simp add: update_ftable_def two_routers_def one_if_def find_next_hop_def deref_def new_router_def
      local_entry_def remote_entry_def next_hop_of_def stub_def Let_def)

theorem update_ftable_pointers_witness:
  "\<exists>t'. update_ftable_ptr bump two_routers [one_if] (fmupd 1 \<lparr>val = old_entry, nxt = 0\<rparr> fmempty, 1) = Inr (1, t') \<and>
     owns t' [\<lparr>ft_prefix = 8, ft_mask = rmask (stub 8), ft_next_hop = rnext_hop (stub 8), ft_interface = ''eth0'', ft_num_hops = 0\<rparr>,
       \<lparr>ft_prefix = 16, ft_mask = rmask (stub 16), ft_next_hop = 10, ft_interface = ''eth0'', ft_num_hops = 1\<rparr>]"
  using update_ftable_pointers[OF bump_allocates owns_old, of two_routers "[one_if]"]
  by (simp add: two_routers_ftable)

end
