(* ===== verification/Buffer_Pointers.thy ===== *)
theory Buffer_Pointers
  imports Heap_Lists Buffers
begin

text \<open>
  The buffers of packets and LSUs with their pointers (\<^verbatim>\<open>buffer.c\<close>, \<^verbatim>\<open>lsu_buf.c\<close>): nodes in one heap,
  the blocks of bytes they point to in another. The code implements the operations of \<open>Buffers\<close>,
  and sending or deleting frees every node and every block exactly once.
\<close>

section \<open>Blocks of bytes\<close>

type_synonym blocks = "(addr, bytes) fmap"

definition block_at :: "blocks \<Rightarrow> addr \<Rightarrow> bytes result" where
  "block_at m p = (if p = 0 then Inl Null_pointer
                   else case fmlookup m p of None \<Rightarrow> Inl Use_after_free | Some b \<Rightarrow> Inr b)"

definition free_block :: "addr \<Rightarrow> blocks \<Rightarrow> blocks result" where
  "free_block p m = rbind (block_at m p) (\<lambda>_. Inr (fmdrop p m))"

section \<open>The code\<close>

record pack_node =
  pn_packet :: addr
  pn_len :: u16
  pn_eth :: addr

record lsu_node =
  ln_packet :: addr
  ln_len :: u16

type_synonym 'n buffer = "'n linked_list \<times> blocks"

definition add_to_pack_buff_ptr ::
  "(pack_node heap \<Rightarrow> addr) \<Rightarrow> (blocks \<Rightarrow> addr) \<Rightarrow> pack_node buffer \<Rightarrow> bytes \<Rightarrow> u16 \<Rightarrow> bytes \<Rightarrow>
     pack_node buffer result" where
  "add_to_pack_buff_ptr malloc malloc_block s pac pack_len orig_eth =
     (case s of (l, m) \<Rightarrow>
        rbind (get_bytes 0 (unat pack_len) pac) (\<lambda>p.
        let a = malloc_block m; m1 = fmupd a p m in
        rbind (get_bytes 0 ETHER_HDR_LEN orig_eth) (\<lambda>e.
        let b = malloc_block m1; m2 = fmupd b e m1 in
        rbind (append_node malloc \<lparr>pn_packet = a, pn_len = pack_len, pn_eth = b\<rparr> l) (\<lambda>l'. Inr (l', m2)))))"

text \<open>The new node of \<^verbatim>\<open>add_to_lsu_buff\<close> becomes the head and points to the old one.\<close>

definition add_to_lsu_buff_ptr ::
  "(lsu_node heap \<Rightarrow> addr) \<Rightarrow> (blocks \<Rightarrow> addr) \<Rightarrow> lsu_node buffer \<Rightarrow> bytes \<Rightarrow> u16 \<Rightarrow> lsu_node buffer result" where
  "add_to_lsu_buff_ptr malloc malloc_block s pack pack_len =
     (case s of ((h, head), m) \<Rightarrow>
        rbind (get_bytes 0 (unat pack_len) pack) (\<lambda>p.
        let a = malloc_block m; w = malloc h in
          Inr ((fmupd w \<lparr>val = \<lparr>ln_packet = a, ln_len = pack_len\<rparr>, nxt = head\<rparr> h, w), fmupd a p m)))"

text \<open>
  The loop of the functions that empty a buffer: each turn does something with the node, moves on, frees
  the blocks of the node it has left (\<open>ptrs\<close>, in this order) and then the node.
\<close>

primrec drain_loop ::
  "nat \<Rightarrow> ('n \<Rightarrow> addr list) \<Rightarrow> (blocks \<Rightarrow> 'n \<Rightarrow> (blocks \<times> frame list) result) \<Rightarrow> 'n heap \<Rightarrow> blocks \<Rightarrow> addr \<Rightarrow>
     ('n heap \<times> blocks \<times> frame list) result" where
  "drain_loop 0 ptrs act h m buff = Inl Diverges"
| "drain_loop (Suc k) ptrs act h m buff =
     (if buff = 0 then Inr (h, m, [])
      else rbind (load h buff) (\<lambda>n.
           rbind (act m (val n)) (\<lambda>(m1, out).
           rbind (foldr_res free_block (ptrs (val n)) m1) (\<lambda>m2.
           rbind (free h buff) (\<lambda>h1.
           rbind (drain_loop k ptrs act h1 m2 (nxt n)) (\<lambda>(h2, m3, outs). Inr (h2, m3, out @ outs)))))))"

text \<open>What the callers keep of the list is the null pointer they write to its head.\<close>

definition drain ::
  "('n \<Rightarrow> addr list) \<Rightarrow> (blocks \<Rightarrow> 'n \<Rightarrow> (blocks \<times> frame list) result) \<Rightarrow> 'n buffer \<Rightarrow> ('n buffer \<times> frame list) result" where
  "drain ptrs act s =
     (case s of ((h, head), m) \<Rightarrow>
        rbind (drain_loop (turns h) ptrs act h m head) (\<lambda>(h1, m1, out). Inr (((h1, 0), m1), out)))"

text \<open>Writing the destination into the packet's own block, and sending from there.\<close>

definition send_block :: "sr_if list \<Rightarrow> mac \<Rightarrow> string \<Rightarrow> blocks \<Rightarrow> addr \<Rightarrow> u16 \<Rightarrow> (blocks \<times> frame list) result" where
  "send_block ifs mac iface m p len =
     rbind (block_at m p) (\<lambda>pac.
     rbind (put_bytes 0 (take ETHER_ADDR_LEN mac) pac) (\<lambda>pac1.
     rbind (sr_send_packet ifs pac1 (unat len) iface) (\<lambda>out. Inr (fmupd p pac1 m, out))))"

definition pack_ptrs :: "pack_node \<Rightarrow> addr list" where
  "pack_ptrs n = [pn_packet n, pn_eth n]"

definition send_all_packs_ptr ::
  "pack_node buffer \<Rightarrow> mac \<Rightarrow> string \<Rightarrow> sr_if list \<Rightarrow> (pack_node buffer \<times> frame list) result" where
  "send_all_packs_ptr s mac iface ifs =
     drain pack_ptrs (\<lambda>m n. send_block ifs mac iface m (pn_packet n) (pn_len n)) s"

definition send_all_icmps_ptr ::
  "pack_node buffer \<Rightarrow> bytes \<Rightarrow> sr_if list \<Rightarrow> (pack_node buffer \<times> frame list) result" where
  "send_all_icmps_ptr s blk ifs =
     drain pack_ptrs (\<lambda>m n.
       rbind (block_at m (pn_packet n)) (\<lambda>p.
       rbind (block_at m (pn_eth n)) (\<lambda>e.
       rbind (send_icmp ifs blk p (pn_len n) e) (\<lambda>out. Inr (m, out))))) s"

definition delete_all_pack_ptr :: "pack_node buffer \<Rightarrow> (pack_node buffer \<times> frame list) result" where
  "delete_all_pack_ptr s = drain pack_ptrs (\<lambda>m n. Inr (m, [])) s"

definition send_all_lsus_ptr ::
  "lsu_node buffer \<Rightarrow> mac \<Rightarrow> string \<Rightarrow> sr_if list \<Rightarrow> (lsu_node buffer \<times> frame list) result" where
  "send_all_lsus_ptr s mac iface ifs =
     drain (\<lambda>n. [ln_packet n]) (\<lambda>m n. send_block ifs mac iface m (ln_packet n) (ln_len n)) s"

definition delete_all_lsu_ptr :: "lsu_node buffer \<Rightarrow> (lsu_node buffer \<times> frame list) result" where
  "delete_all_lsu_ptr s = drain (\<lambda>n. [ln_packet n]) (\<lambda>m n. Inr (m, [])) s"

section \<open>Buffers and what they own\<close>

text \<open>The same loop over the list: what it does to an entry, and the frames.\<close>

primrec drain_list :: "('b \<Rightarrow> frame list result) \<Rightarrow> 'b list \<Rightarrow> frame list result" where
  "drain_list g [] = Inr []"
| "drain_list g (b # bs) = rbind (g b) (\<lambda>out. rbind (drain_list g bs) (\<lambda>outs. Inr (out @ outs)))"

text \<open>
  The blocks of a list of nodes, in order; nodes \<open>ls\<close> that stand for the entries \<open>bs\<close>; and a buffer that
  owns exactly its nodes and their blocks.
\<close>

definition owned :: "('n \<Rightarrow> addr list) \<Rightarrow> (addr \<times> 'n) list \<Rightarrow> addr list" where
  "owned ptrs ls = concat (map (\<lambda>l. ptrs (snd l)) ls)"

definition entries ::
  "('n \<Rightarrow> addr list) \<Rightarrow> (blocks \<Rightarrow> 'n \<Rightarrow> 'b \<Rightarrow> bool) \<Rightarrow> blocks \<Rightarrow> (addr \<times> 'n) list \<Rightarrow> 'b list \<Rightarrow> bool" where
  "entries ptrs stands m ls bs \<longleftrightarrow>
     list_all2 (\<lambda>l. stands m (snd l)) ls bs \<and> distinct (owned ptrs ls) \<and> 0 \<notin> set (owned ptrs ls)"

definition buf_owns ::
  "('n \<Rightarrow> addr list) \<Rightarrow> (blocks \<Rightarrow> 'n \<Rightarrow> 'b \<Rightarrow> bool) \<Rightarrow> 'n buffer \<Rightarrow> 'b list \<Rightarrow> bool" where
  "buf_owns ptrs stands s bs \<longleftrightarrow>
     (\<exists>ls. linked (fst (fst s)) (snd (fst s)) ls \<and> fset (fmdom (fst (fst s))) = fst ` set ls \<and>
           entries ptrs stands (snd s) ls bs \<and> fset (fmdom (snd s)) = set (owned ptrs ls))"

lemma owned_simps [simp]:
  "owned ptrs [] = []" "owned ptrs (l # ls) = ptrs (snd l) @ owned ptrs ls"
  "owned ptrs (ls @ ls') = owned ptrs ls @ owned ptrs ls'"
  by (simp_all add: owned_def)

lemma free_blocks:
  "distinct as \<Longrightarrow> 0 \<notin> set as \<Longrightarrow> \<forall>a \<in> set as. fmlookup m a \<noteq> None \<Longrightarrow>
   \<exists>m'. foldr_res free_block as m = Inr m' \<and> fset (fmdom m') = fset (fmdom m) - set as \<and>
     (\<forall>a. a \<notin> set as \<longrightarrow> fmlookup m' a = fmlookup m a)"
proof (induction as arbitrary: m)
  case (Cons a as)
  then have "free_block a m = Inr (fmdrop a m)" by (auto simp: free_block_def block_at_def)
  moreover have "\<exists>m'. foldr_res free_block as (fmdrop a m) = Inr m' \<and>
      fset (fmdom m') = fset (fmdom (fmdrop a m)) - set as \<and>
      (\<forall>b. b \<notin> set as \<longrightarrow> fmlookup m' b = fmlookup (fmdrop a m) b)"
    using Cons.prems by (intro Cons.IH) auto
  ultimately show ?case by auto
qed simp

text \<open>
  What the proofs need of a node type: the blocks it points to are allocated, and what it
  stands for depends on these blocks only.
\<close>

locale buffer_nodes =
  fixes ptrs :: "'n \<Rightarrow> addr list" and stands :: "blocks \<Rightarrow> 'n \<Rightarrow> 'b \<Rightarrow> bool"
  assumes alive: "stands m n b \<Longrightarrow> a \<in> set (ptrs n) \<Longrightarrow> fmlookup m a \<noteq> None"
    and frame: "stands m n b \<Longrightarrow> \<forall>a \<in> set (ptrs n). fmlookup m' a = fmlookup m a \<Longrightarrow> stands m' n b"
begin

lemma entries_frame:
  assumes "entries ptrs stands m ls bs" "\<forall>a \<in> set (owned ptrs ls). fmlookup m' a = fmlookup m a"
  shows "entries ptrs stands m' ls bs"
proof -
  have "list_all2 (\<lambda>l. stands m' (snd l)) ls bs"
    if "list_all2 (\<lambda>l. stands m (snd l)) ls bs" "\<forall>a \<in> set (owned ptrs ls). fmlookup m' a = fmlookup m a"
    using that by (induction rule: list_all2_induct) (auto intro: frame)
  with assms show ?thesis by (simp add: entries_def)
qed

text \<open>
  A loop whose action on a node gives the frames of its entry and writes to its blocks only gives the
  frames of all, and leaves neither nodes nor blocks.
\<close>

lemma drain_loop_ok:
  assumes act: "\<And>m n b. stands m n b \<Longrightarrow> 0 \<notin> set (ptrs n) \<Longrightarrow> rel_sum (=)
      (\<lambda>(m', out) out'. out = out' \<and> fmdom m' = fmdom m \<and> (\<forall>a. a \<notin> set (ptrs n) \<longrightarrow> fmlookup m' a = fmlookup m a))
      (act m n) (g b)"
  shows "linked h p ls \<Longrightarrow> entries ptrs stands m ls bs \<Longrightarrow> length ls < k \<Longrightarrow> rel_sum (=)
      (\<lambda>(h', m', out) out'. out = out' \<and> fset (fmdom h') = fset (fmdom h) - fst ` set ls \<and>
         fset (fmdom m') = fset (fmdom m) - set (owned ptrs ls))
      (drain_loop k ptrs act h m p) (drain_list g bs)"
proof (induction ls arbitrary: h m p bs k)
  case Nil
  then have "bs = []" "p = 0" by (auto simp: entries_def)
  with Nil show ?case by (cases k) auto
next
  case (Cons l ls)
  obtain a n where l: "l = (a, n)" by (cases l)
  from Cons.prems(2) obtain b bs' where bs: "bs = b # bs'" "stands m n b"
      and en: "entries ptrs stands m ls bs'" "distinct (ptrs n)" "set (ptrs n) \<inter> set (owned ptrs ls) = {}" "0 \<notin> set (ptrs n)"
    by (auto simp: entries_def l list_all2_Cons1)
  from Cons.prems(3) obtain k' where k: "k = Suc k'" "length ls < k'" by (cases k) auto
  from Cons.prems(1) obtain q where q: "p = a" "a \<noteq> 0" "fmlookup h a = Some \<lparr>val = n, nxt = q\<rparr>"
      "linked (fmdrop a h) q ls" "fset (fmdom (fmdrop a h)) = fset (fmdom h) - {a}"
    by (auto simp: l elim: linked_unlink_first)
  show ?case
  proof (cases "g b")
    case (Inl e)
    with act[OF bs(2) en(4)] q k show ?thesis by (simp add: bs node_simps)
  next
    case (Inr out)
    with act[OF bs(2) en(4)] obtain m1 where m1: "act m n = Inr (m1, out)" "fmdom m1 = fmdom m"
        "\<And>a. a \<notin> set (ptrs n) \<Longrightarrow> fmlookup m1 a = fmlookup m a"
      by auto
    have "\<forall>a \<in> set (ptrs n). fmlookup m1 a \<noteq> None"
      using alive[OF bs(2)] m1(2) by (metis fmdom_notI fmdom_notD)
    from free_blocks[OF en(2,4) this] obtain m2 where m2: "foldr_res free_block (ptrs n) m1 = Inr m2"
        "fset (fmdom m2) = fset (fmdom m1) - set (ptrs n)" "\<And>a. a \<notin> set (ptrs n) \<Longrightarrow> fmlookup m2 a = fmlookup m1 a"
      by auto
    have "entries ptrs stands m2 ls bs'"
      using en(3) m1(3) m2(3) by (intro entries_frame[OF en(1)]) auto
    from Cons.IH[OF q(4) this k(2)] show ?thesis
      using q(1,2,3,5) m1 m2 Inr
      by (cases "drain_list g bs'") (auto simp: k bs l node_simps)
  qed
qed

lemma drain_ok:
  assumes "\<And>m n b. stands m n b \<Longrightarrow> 0 \<notin> set (ptrs n) \<Longrightarrow> rel_sum (=)
      (\<lambda>(m', out) out'. out = out' \<and> fmdom m' = fmdom m \<and> (\<forall>a. a \<notin> set (ptrs n) \<longrightarrow> fmlookup m' a = fmlookup m a))
      (act m n) (g b)"
    and "buf_owns ptrs stands s bs"
  shows "rel_sum (=) (\<lambda>(s', out) out'. out = out' \<and> s' = ((fmempty, 0), fmempty)) (drain ptrs act s) (drain_list g bs)"
proof -
  obtain h p m where s: "s = ((h, p), m)" by (metis prod.collapse)
  from assms(2) obtain ls where ls: "linked h p ls" "fset (fmdom h) = fst ` set ls" "entries ptrs stands m ls bs"
      "fset (fmdom m) = set (owned ptrs ls)"
    by (auto simp: buf_owns_def s)
  show ?thesis
    using drain_loop_ok[of act g, OF assms(1) ls(1,3) linked_length[OF ls(1)]] ls(2,4)
    by (cases "drain_list g bs") (auto simp: s drain_def dest: fmdom_empty)
qed

text \<open>A new entry with new blocks, at the end or at the front.\<close>

lemma entries_new:
  assumes "entries ptrs stands m ls bs" "fset (fmdom m) = set (owned ptrs ls)"
    and "\<forall>a \<in> fset (fmdom m). fmlookup m' a = fmlookup m a" "stands m' n b"
    and "distinct (ptrs n)" "0 \<notin> set (ptrs n)" "set (ptrs n) \<inter> fset (fmdom m) = {}"
  shows "entries ptrs stands m' (ls @ [(a, n)]) (bs @ [b])" "entries ptrs stands m' ((a, n) # ls) (b # bs)"
  using entries_frame[OF assms(1), of m'] assms by (auto simp: entries_def list_all2_appendI)

end

section \<open>Implementing the list operations\<close>

definition pack_stands :: "blocks \<Rightarrow> pack_node \<Rightarrow> packet_buffer \<Rightarrow> bool" where
  "pack_stands m n b \<longleftrightarrow> fmlookup m (pn_packet n) = Some (pb_packet b) \<and> pn_len n = pb_len b \<and>
     fmlookup m (pn_eth n) = Some (pb_old_eth b)"

definition lsu_stands :: "blocks \<Rightarrow> lsu_node \<Rightarrow> lsu_buf_ent \<Rightarrow> bool" where
  "lsu_stands m n b \<longleftrightarrow> fmlookup m (ln_packet n) = Some (lsu_packet b) \<and> ln_len n = lsu_len b"

interpretation pack_nodes: buffer_nodes pack_ptrs pack_stands
  by unfold_locales (auto simp: pack_stands_def pack_ptrs_def)

interpretation lsu_nodes: buffer_nodes "\<lambda>n. [ln_packet n]" lsu_stands
  by unfold_locales (auto simp: lsu_stands_def)

text \<open>The two buffers of a queue entry, the calls made on them, on nodes and on lists.\<close>

type_synonym buffers_ptr = "pack_node buffer \<times> lsu_node buffer"
type_synonym buffers_list = "packet_buffer list \<times> lsu_buf_ent list"

datatype buffer_call =
    Add_pack bytes u16 bytes | Add_lsu bytes u16
  | Send_packs mac string "sr_if list" | Send_lsus mac string "sr_if list"
  | Send_icmps bytes "sr_if list" | Delete_packs | Delete_lsus

definition buffer_call_ptr ::
  "(pack_node heap \<Rightarrow> addr) \<Rightarrow> (lsu_node heap \<Rightarrow> addr) \<Rightarrow> (blocks \<Rightarrow> addr) \<Rightarrow> buffer_call \<Rightarrow> buffers_ptr \<Rightarrow>
     (buffers_ptr \<times> frame list) result" where
  "buffer_call_ptr malloc_pack malloc_lsu malloc_block call s =
     (case s of (q, l) \<Rightarrow>
        (case call of
           Add_pack pac len eth \<Rightarrow>
             rbind (add_to_pack_buff_ptr malloc_pack malloc_block q pac len eth) (\<lambda>q1. Inr ((q1, l), []))
         | Add_lsu pac len \<Rightarrow>
             rbind (add_to_lsu_buff_ptr malloc_lsu malloc_block l pac len) (\<lambda>l1. Inr ((q, l1), []))
         | Send_packs mac iface ifs \<Rightarrow>
             rbind (send_all_packs_ptr q mac iface ifs) (\<lambda>(q1, out). Inr ((q1, l), out))
         | Send_lsus mac iface ifs \<Rightarrow>
             rbind (send_all_lsus_ptr l mac iface ifs) (\<lambda>(l1, out). Inr ((q, l1), out))
         | Send_icmps blk ifs \<Rightarrow>
             rbind (send_all_icmps_ptr q blk ifs) (\<lambda>(q1, out). Inr ((q1, l), out))
         | Delete_packs \<Rightarrow> rbind (delete_all_pack_ptr q) (\<lambda>(q1, out). Inr ((q1, l), out))
         | Delete_lsus \<Rightarrow> rbind (delete_all_lsu_ptr l) (\<lambda>(l1, out). Inr ((q, l1), out))))"

definition buffer_call_list :: "buffer_call \<Rightarrow> buffers_list \<Rightarrow> (buffers_list \<times> frame list) result" where
  "buffer_call_list call s =
     (case s of (q, l) \<Rightarrow>
        (case call of
           Add_pack pac len eth \<Rightarrow> rbind (add_to_pack_buff q pac len eth) (\<lambda>q1. Inr ((q1, l), []))
         | Add_lsu pac len \<Rightarrow> rbind (add_to_lsu_buff l pac len) (\<lambda>l1. Inr ((q, l1), []))
         | Send_packs mac iface ifs \<Rightarrow> rbind (send_all_packs q mac iface ifs) (\<lambda>out. Inr (([], l), out))
         | Send_lsus mac iface ifs \<Rightarrow> rbind (send_all_lsus l mac iface ifs) (\<lambda>out. Inr ((q, []), out))
         | Send_icmps blk ifs \<Rightarrow> rbind (send_all_icmps q blk ifs) (\<lambda>out. Inr (([], l), out))
         | Delete_packs \<Rightarrow> Inr (([], l), [])
         | Delete_lsus \<Rightarrow> Inr ((q, []), [])))"

definition buffers_own :: "buffers_ptr \<Rightarrow> buffers_list \<Rightarrow> bool" where
  "buffers_own s t \<longleftrightarrow> buf_owns pack_ptrs pack_stands (fst s) (fst t) \<and>
     buf_owns (\<lambda>n. [ln_packet n]) lsu_stands (snd s) (snd t)"

lemma buf_owns_empty [simp]: "buf_owns ptrs stands ((fmempty, 0), fmempty) []"
  by (simp add: buf_owns_def entries_def)

lemma drain_lists:
  "send_all_packs q mac iface ifs = drain_list (\<lambda>b. send_to_mac ifs mac iface (pb_packet b) (pb_len b)) q"
  "send_all_lsus l mac iface ifs = drain_list (\<lambda>b. send_to_mac ifs mac iface (lsu_packet b) (lsu_len b)) l"
  "send_all_icmps q blk ifs = drain_list (\<lambda>b. send_icmp ifs blk (pb_packet b) (pb_len b) (pb_old_eth b)) q"
  "drain_list (\<lambda>_. Inr []) bs = Inr []"
  by (induction q, simp_all) (induction l, simp_all, induction bs, simp_all)

lemma send_block_ok:
  assumes "fmlookup m p = Some pac" "p \<noteq> 0"
  shows "rel_sum (=) (\<lambda>(m', out) out'. out = out' \<and> fmdom m' = fmdom m \<and> (\<forall>a. a \<noteq> p \<longrightarrow> fmlookup m' a = fmlookup m a))
      (send_block ifs mac iface m p len) (send_to_mac ifs mac iface pac len)"
proof -
  have "finsert p (fmdom m) = fmdom m" using assms(1) by (intro finsert_absorb fmdomI)
  with assms show ?thesis
    by (auto simp: send_block_def send_to_mac_def block_at_def rbind_def split: sum.splits)
qed

lemma add_to_pack_buff_ok:
  assumes "allocates malloc" "allocates malloc_block" "buf_owns pack_ptrs pack_stands s q"
  shows "rel_sum (=) (buf_owns pack_ptrs pack_stands) (add_to_pack_buff_ptr malloc malloc_block s pac len eth)
      (add_to_pack_buff q pac len eth)"
proof -
  obtain h p m where s: "s = ((h, p), m)" by (metis prod.collapse)
  from assms(3) obtain ls where ls: "linked h p ls" "fset (fmdom h) = fst ` set ls"
      "entries pack_ptrs pack_stands m ls q" "fset (fmdom m) = set (owned pack_ptrs ls)"
    by (auto simp: buf_owns_def s)
  have app: "\<exists>h' p'. append_node malloc n (h, p) = Inr (h', p') \<and> linked h' p' (ls @ [(malloc h, n)]) \<and>
      fset (fmdom h') = fst ` set (ls @ [(malloc h, n)])" for n
    by (rule append_node_linked[OF assms(1) ls(1), of n]) (use ls(2) in auto)
  have new: "entries pack_ptrs pack_stands (fmupd b e (fmupd a d m)) (ls @ [(x, \<lparr>pn_packet = a, pn_len = len, pn_eth = b\<rparr>)])
      (q @ [\<lparr>pb_packet = d, pb_len = len, pb_old_eth = e\<rparr>])"
    if "a = malloc_block m" "b = malloc_block (fmupd a d m)" for a b d e x
  proof -
    have "a \<noteq> 0" "b \<noteq> 0" "fmlookup m a = None" "fmlookup (fmupd a d m) b = None"
      using allocatesD[OF assms(2)] that by auto
    then have "a \<noteq> 0" "b \<noteq> 0" "b \<noteq> a" "a |\<notin>| fmdom m" "b |\<notin>| fmdom m" by (auto split: if_splits)
    then show ?thesis
      by (intro pack_nodes.entries_new[OF ls(3,4)]) (auto simp: pack_stands_def pack_ptrs_def)
  qed
  show ?thesis
  proof (cases "get_bytes 0 (unat len) pac")
    case (Inr d)
    show ?thesis
    proof (cases "get_bytes 0 ETHER_HDR_LEN eth")
      case e: (Inr e)
      let ?a = "malloc_block m" let ?b = "malloc_block (fmupd ?a d m)"
      let ?n = "\<lparr>pn_packet = ?a, pn_len = len, pn_eth = ?b\<rparr>"
      obtain h' p' where l: "append_node malloc ?n (h, p) = Inr (h', p')" "linked h' p' (ls @ [(malloc h, ?n)])"
          "fset (fmdom h') = fst ` set (ls @ [(malloc h, ?n)])"
        using app[of ?n] by blast
      have "buf_owns pack_ptrs pack_stands ((h', p'), fmupd ?b e (fmupd ?a d m))
          (q @ [\<lparr>pb_packet = d, pb_len = len, pb_old_eth = e\<rparr>])"
        unfolding buf_owns_def using l(2,3) ls(4) new[where d = d and e = e and x = "malloc h", OF refl refl]
        by (intro exI[of _ "ls @ [(malloc h, ?n)]"] conjI) (simp_all add: pack_ptrs_def insert_commute)
      with l(1) show ?thesis
        by (simp add: add_to_pack_buff_ptr_def add_to_pack_buff_def s Inr e Let_def)
    qed (simp add: add_to_pack_buff_ptr_def add_to_pack_buff_def s Inr Let_def)
  qed (simp add: add_to_pack_buff_ptr_def add_to_pack_buff_def s)
qed

lemma add_to_lsu_buff_ok:
  assumes "allocates malloc" "allocates malloc_block" "buf_owns (\<lambda>n. [ln_packet n]) lsu_stands s l"
  shows "rel_sum (=) (buf_owns (\<lambda>n. [ln_packet n]) lsu_stands) (add_to_lsu_buff_ptr malloc malloc_block s pac len)
      (add_to_lsu_buff l pac len)"
proof -
  obtain h p m where s: "s = ((h, p), m)" by (metis prod.collapse)
  let ?ptrs = "\<lambda>n. [ln_packet n]"
  from assms(3) obtain ls where ls: "linked h p ls" "fset (fmdom h) = fst ` set ls"
      "entries ?ptrs lsu_stands m ls l" "fset (fmdom m) = set (owned ?ptrs ls)"
    by (auto simp: buf_owns_def s)
  note w = allocatesD[OF assms(1), of h] and a = allocatesD[OF assms(2), of m]
  have "malloc h \<notin> fst ` set ls" using w(2) ls(2) by (metis fmdom_notI)
  then have li: "linked (fmupd (malloc h) \<lparr>val = n, nxt = p\<rparr> h) (malloc h) ((malloc h, n) # ls)" for n
    using ls(1) w(1) by (simp add: seg_Cons)
  have "malloc_block m |\<notin>| fmdom m" using a(2) by (rule fmdom_notI)
  then have "entries ?ptrs lsu_stands (fmupd (malloc_block m) d m)
      ((x, \<lparr>ln_packet = malloc_block m, ln_len = len\<rparr>) # ls) (\<lparr>lsu_packet = d, lsu_len = len\<rparr> # l)" for d x
    using a(1) by (intro lsu_nodes.entries_new[OF ls(3,4)]) (auto simp: lsu_stands_def)
  with li[of "\<lparr>ln_packet = malloc_block m, ln_len = len\<rparr>"] ls(2,4) show ?thesis
    by (cases "get_bytes 0 (unat len) pac")
      (auto simp: add_to_lsu_buff_ptr_def add_to_lsu_buff_def s Let_def buf_owns_def
        intro!: exI[of _ "(malloc h, \<lparr>ln_packet = malloc_block m, ln_len = len\<rparr>) # ls"])
qed

text \<open>The functions that empty a buffer leave neither nodes nor blocks.\<close>

lemma drain_packs_ok:
  assumes "buf_owns pack_ptrs pack_stands s q"
  shows "rel_sum (=) (\<lambda>(s', out) out'. out = out' \<and> s' = ((fmempty, 0), fmempty))
      (send_all_packs_ptr s mac iface ifs) (send_all_packs q mac iface ifs)"
    and "rel_sum (=) (\<lambda>(s', out) out'. out = out' \<and> s' = ((fmempty, 0), fmempty))
      (send_all_icmps_ptr s blk ifs) (send_all_icmps q blk ifs)"
    and "delete_all_pack_ptr s = Inr (((fmempty, 0), fmempty), [])"
proof -
  show "rel_sum (=) (\<lambda>(s', out) out'. out = out' \<and> s' = ((fmempty, 0), fmempty))
      (send_all_packs_ptr s mac iface ifs) (send_all_packs q mac iface ifs)"
    unfolding send_all_packs_ptr_def drain_lists
  proof (rule pack_nodes.drain_ok[OF _ assms])
    fix m n b
    assume "pack_stands m n b" "0 \<notin> set (pack_ptrs n)"
    then have "fmlookup m (pn_packet n) = Some (pb_packet b)" "pn_packet n \<noteq> 0" "pn_len n = pb_len b"
      by (auto simp: pack_stands_def pack_ptrs_def)
    from send_block_ok[OF this(1,2), of ifs mac iface "pb_len b"] this(3)
    show "rel_sum (=) (\<lambda>(m', out) out'. out = out' \<and> fmdom m' = fmdom m \<and>
        (\<forall>a. a \<notin> set (pack_ptrs n) \<longrightarrow> fmlookup m' a = fmlookup m a))
      (send_block ifs mac iface m (pn_packet n) (pn_len n)) (send_to_mac ifs mac iface (pb_packet b) (pb_len b))"
      by (cases "send_to_mac ifs mac iface (pb_packet b) (pb_len b)") (auto simp: pack_ptrs_def)
  qed
  show "rel_sum (=) (\<lambda>(s', out) out'. out = out' \<and> s' = ((fmempty, 0), fmempty))
      (send_all_icmps_ptr s blk ifs) (send_all_icmps q blk ifs)"
    unfolding send_all_icmps_ptr_def drain_lists
  proof (rule pack_nodes.drain_ok[OF _ assms])
    fix m n b
    assume "pack_stands m n b" "0 \<notin> set (pack_ptrs n)"
    then show "rel_sum (=) (\<lambda>(m', out) out'. out = out' \<and> fmdom m' = fmdom m \<and>
        (\<forall>a. a \<notin> set (pack_ptrs n) \<longrightarrow> fmlookup m' a = fmlookup m a))
      (rbind (block_at m (pn_packet n)) (\<lambda>p. rbind (block_at m (pn_eth n)) (\<lambda>e.
         rbind (send_icmp ifs blk p (pn_len n) e) (\<lambda>out. Inr (m, out)))))
      (send_icmp ifs blk (pb_packet b) (pb_len b) (pb_old_eth b))"
      by (cases "send_icmp ifs blk (pb_packet b) (pb_len b) (pb_old_eth b)")
        (auto simp: pack_stands_def pack_ptrs_def block_at_def)
  qed
  show "delete_all_pack_ptr s = Inr (((fmempty, 0), fmempty), [])"
    using pack_nodes.drain_ok[OF _ assms, of "\<lambda>m n. Inr (m, [])" "\<lambda>_. Inr []"]
    by (auto simp: delete_all_pack_ptr_def drain_lists)
qed

lemma drain_lsus_ok:
  assumes "buf_owns (\<lambda>n. [ln_packet n]) lsu_stands s l"
  shows "rel_sum (=) (\<lambda>(s', out) out'. out = out' \<and> s' = ((fmempty, 0), fmempty))
      (send_all_lsus_ptr s mac iface ifs) (send_all_lsus l mac iface ifs)"
    and "delete_all_lsu_ptr s = Inr (((fmempty, 0), fmempty), [])"
proof -
  show "rel_sum (=) (\<lambda>(s', out) out'. out = out' \<and> s' = ((fmempty, 0), fmempty))
      (send_all_lsus_ptr s mac iface ifs) (send_all_lsus l mac iface ifs)"
    unfolding send_all_lsus_ptr_def drain_lists
  proof (rule lsu_nodes.drain_ok[OF _ assms])
    fix m n b
    assume "lsu_stands m n b" "0 \<notin> set [ln_packet n]"
    then have "fmlookup m (ln_packet n) = Some (lsu_packet b)" "ln_packet n \<noteq> 0" "ln_len n = lsu_len b"
      by (auto simp: lsu_stands_def)
    from send_block_ok[OF this(1,2), of ifs mac iface "lsu_len b"] this(3)
    show "rel_sum (=) (\<lambda>(m', out) out'. out = out' \<and> fmdom m' = fmdom m \<and>
        (\<forall>a. a \<notin> set [ln_packet n] \<longrightarrow> fmlookup m' a = fmlookup m a))
      (send_block ifs mac iface m (ln_packet n) (ln_len n)) (send_to_mac ifs mac iface (lsu_packet b) (lsu_len b))"
      by simp
  qed
  show "delete_all_lsu_ptr s = Inr (((fmempty, 0), fmempty), [])"
    using lsu_nodes.drain_ok[OF _ assms, of "\<lambda>m n. Inr (m, [])" "\<lambda>_. Inr []"]
    by (auto simp: delete_all_lsu_ptr_def drain_lists)
qed

lemma rel_drained:
  assumes "rel_sum (=) (\<lambda>(s', out) out'. out = out' \<and> s' = e) c a" "R (f e) g"
  shows "rel_sum (=) (rel_prod R (=)) (rbind c (\<lambda>(s', out). Inr (f s', out))) (rbind a (\<lambda>out. Inr (g, out)))"
  using assms by (cases a) auto

lemma rel_added:
  assumes "rel_sum (=) Q c a" "\<And>s t. Q s t \<Longrightarrow> R (f s) (g t)"
  shows "rel_sum (=) (rel_prod R (=)) (rbind c (\<lambda>s. Inr (f s, []))) (rbind a (\<lambda>t. Inr (g t, [])))"
  using assms by (cases a) auto

lemma buffer_call_ok:
  assumes "allocates malloc_pack" "allocates malloc_lsu" "allocates malloc_block" "buffers_own s t"
  shows "rel_sum (=) (rel_prod buffers_own (=)) (buffer_call_ptr malloc_pack malloc_lsu malloc_block call s)
    (buffer_call_list call t)"
proof -
  obtain q l where s: "s = (q, l)" by (cases s)
  obtain qs lsu where t: "t = (qs, lsu)" by (cases t)
  from assms(4) have q: "buf_owns pack_ptrs pack_stands q qs" and l: "buf_owns (\<lambda>n. [ln_packet n]) lsu_stands l lsu"
    by (simp_all add: buffers_own_def s t)
  note defs = buffer_call_ptr_def buffer_call_list_def s t
  show ?thesis
  proof (cases call)
    case (Add_pack pac len eth)
    from rel_added[where R = buffers_own and f = "\<lambda>q. (q, l)" and g = "\<lambda>q. (q, lsu)",
        OF add_to_pack_buff_ok[OF assms(1,3) q]] l
    show ?thesis by (simp add: defs Add_pack buffers_own_def)
  next
    case (Add_lsu pac len)
    from rel_added[where R = buffers_own and f = "Pair q" and g = "Pair qs", OF add_to_lsu_buff_ok[OF assms(2,3) l]] q
    show ?thesis by (simp add: defs Add_lsu buffers_own_def)
  next
    case (Send_packs mac iface ifs)
    from rel_drained[where R = buffers_own and f = "\<lambda>q. (q, l)" and g = "([], lsu)", OF drain_packs_ok(1)[OF q]] l
    show ?thesis by (simp add: defs Send_packs buffers_own_def)
  next
    case (Send_icmps blk ifs)
    from rel_drained[where R = buffers_own and f = "\<lambda>q. (q, l)" and g = "([], lsu)", OF drain_packs_ok(2)[OF q]] l
    show ?thesis by (simp add: defs Send_icmps buffers_own_def)
  next
    case (Send_lsus mac iface ifs)
    from rel_drained[where R = buffers_own and f = "Pair q" and g = "(qs, [])", OF drain_lsus_ok(1)[OF l]] q
    show ?thesis by (simp add: defs Send_lsus buffers_own_def)
  next
    case Delete_packs
    with drain_packs_ok(3)[OF q] l show ?thesis by (simp add: defs buffers_own_def)
  next
    case Delete_lsus
    with drain_lsus_ok(2)[OF l] q show ?thesis by (simp add: defs buffers_own_def)
  qed
qed

interpretation queue_nodes: simulation buffers_own
  "\<lambda>_. allocates malloc_pack \<and> allocates malloc_lsu \<and> allocates malloc_block"
  "buffer_call_ptr malloc_pack malloc_lsu malloc_block" buffer_call_list for malloc_pack malloc_lsu malloc_block
  by unfold_locales (auto intro: buffer_call_ok)



end
