(* ===== verification/Spec2Isabelle.thy ===== *)
theory Spec2Isabelle
  imports Routes Process Locks Vns_Messages Cache_Pointers Flow_Pointers Ftable_Pointers Buffer_Pointers
begin

text \<open>
  A router for a virtual network: it forwards IP packets, answers ARP requests and pings, filters
  with a stateful firewall, and learns its routes from the other routers by PWOSPF, a small link
  state protocol. This development models the C sources under \<^verbatim>\<open>src/\<close> as functions on the router's
  state and proves what the parts promise to each other and what the whole does.

  \<^bold>\<open>The program.\<close> \<^verbatim>\<open>sr_main.c\<close> connects to the virtual network (\<^verbatim>\<open>sr_vns_comm.c\<close>), which describes the
  interfaces (\<^verbatim>\<open>sr_handle_hwinfo\<close>) and then delivers frames. Each frame goes to \<^verbatim>\<open>sr_handlepacket\<close>
  (\<^verbatim>\<open>sr_router.c\<close>), which hands ARP to \<^verbatim>\<open>arp.c\<close> and IP to \<^verbatim>\<open>handle_ip\<close>: packets for the router go to
  \<^verbatim>\<open>icmp.c\<close> or \<^verbatim>\<open>sr_pwospf.c\<close> (HELLOs in \<^verbatim>\<open>hello.c\<close>, updates in \<^verbatim>\<open>lsu.c\<close>), the others are looked up in the
  forwarding table and the static routes, shown to the firewall (\<^verbatim>\<open>fw.c\<close>) and sent, with the MAC of the
  next hop from the ARP cache. Packets whose next hop is unknown wait in \<^verbatim>\<open>arpq.c\<close>, where a thread per
  next hop repeats the request and sends or gives up what is buffered (\<^verbatim>\<open>buffer.c\<close>, \<^verbatim>\<open>lsu_buf.c\<close>). Another
  thread sends HELLOs and updates and expires the topology. Updates are merged into the database
  (\<^verbatim>\<open>top_info.c\<close>), after which shortest paths and forwarding table are computed anew.

  \<^bold>\<open>The theories.\<close> Each models the files it names; the definitions carry the names of the C
  functions, and parts of long functions have names of their own.
    \<^item> \<open>Prelude\<close>: bytes and words in the order of a little-endian machine, results that may fault, loops.
    \<^item> \<open>Checksum\<close>, \<open>Interfaces\<close>, \<open>Routing\<close>, \<open>Link\<close>: the Internet checksum and header update; the list of
      interfaces; both route lookups (longest prefix in a locale shared by them); sending a frame.
    \<^item> \<open>Firewall\<close>: rules, interface categories and the flow table, with the runs of its operations.
    \<^item> \<open>Buffers\<close>, \<open>Arp_Cache\<close>, \<open>Arp_Queue\<close>: the buffers of unresolved next hops, the cache with requests and
      replies, and the threads as steps between lock regions over a heap of packet nodes.
    \<^item> \<open>Topology\<close>, \<open>Shortest_Paths\<close>, \<open>Forwarding\<close>: routers at addresses with their pointer arrays, merging,
      pruning and expiry of updates; Dijkstra's algorithm on them; the forwarding table.
    \<^item> \<open>Icmp\<close>, \<open>Hello\<close>, \<open>Lsu\<close>, \<open>Pwospf\<close>: the ICMP messages, both kinds of PWOSPF packets from byte to state and
      back, the start of the subsystem, its dispatch and its periodic thread.
    \<^item> \<open>Router\<close>: the packet handler. \<open>System\<close>: the runs of the whole router as an inductive relation over
      packets, thread steps, HELLOs, expiry and updates. \<open>Routes\<close>: from an update, merged or on the wire, to a lookup.
    \<^item> \<open>Sha1\<close>, \<open>Config\<close>, \<open>Dumper\<close>, \<open>Vns\<close>: the digest of the authentication; the files read at the start; the packet log
      (\<^verbatim>\<open>sr_dumper.c\<close>) as the bytes of a capture file; messages cut out of the socket's stream, their dispatch, the session.
      \<open>Vns_Messages\<close>: the structures of \<^verbatim>\<open>vnscommand.h\<close>, and what the main loop does in terms of their fields.
    \<^item> \<open>Options\<close>, \<open>Print\<close>, \<open>Startup\<close>, \<open>Process\<close>: the command line and the names in the \<^verbatim>\<open>sr_instance\<close>; the text of all
      functions that print a part of the state; \<^verbatim>\<open>main\<close> from its arguments to its end; its loop together with the threads.
    \<^item> \<open>Locks\<close>: the three mutexes, the creation of threads, and what each function locks and touches, as steps of their own.
    \<^item> \<open>Heap_Lists\<close>, \<open>Cache_Pointers\<close>, \<open>Flow_Pointers\<close>, \<open>Ftable_Pointers\<close>, \<open>Buffer_Pointers\<close>: one level further down. The tables that the
      other theories take as lists in link order are here nodes in a heap, with \<^verbatim>\<open>malloc\<close> and \<^verbatim>\<open>free\<close>; the code's own loops over
      \<^verbatim>\<open>next\<close> pointers implement the list operations (the locale \<open>simulation\<close>, interpreted on each table).

  \<^bold>\<open>What the lemmas show.\<close> Of each part its functional behaviour, errors included: checksums against
  the mathematical sum, lookups against the longest prefix, the ARP exchange, HELLO and update from the
  sender's bytes to the receiver's state, the shortest paths, the forwarding table as the best entry for
  each prefix. Of the state, invariants that every operation keeps: the database has no dangling pointers
  and terminates all its walks, the ARP queue has one thread per waiting next hop, the flow table its size.
  SHA-1 is proved against the definition of the standard. The session is followed from the socket's pieces
  to the frames handed over, and \<^verbatim>\<open>main\<close> to the state in which the runs of \<open>System\<close> begin; from there the loop and the
  threads take only the steps of these runs. The files that the router reads and writes go round: routes and rules are read
  as they are printed, the packet log is read back by a reader of capture files. The locks are
  acquired in an order (a locale with this contract, interpreted on the router's threads): no deadlock, and every access
  to shared data under its mutex, but for the MAC that a search of the cache returns a pointer to. The pointer code of the cache,
  of the firewall's tables, of the forwarding table and of the buffers refines the list operations: no freed node is read, none is
  freed twice, and what is allocated is what the lists hold, except for the flow table, whose removed entries all leak.
  \<open>System\<close> composes them (\<open>post\<close> is its calculus for results that may fault): in every run the state is well formed and
  every frame ever sent carries the MAC of the interface it leaves by. Where the code is wrong, the
  theorems say what it does: the flow table that loses live entries, the forwarding table cut at the first
  unreachable router, the copy that reads past a packet, the arrays grown by bytes instead of elements,
  the race between an ARP thread and an arriving packet, the MAC that is used after its entry has expired, the table of a
  template that is stored under one name and read under another.

  \<^bold>\<open>Faults, memory, machine.\<close> An operation is a value of \<open>fault + 'a\<close>: the left side is a failed assertion, a
  dereferenced null or freed pointer, an access out of a block, or a loop that does not end. The model
  is of Linux on a little-endian machine with 8-byte pointers; integers have their widths, network
  order fields are words in the machine's order, and \<open>ntohl\<close> swaps bytes. The clock is read once per
  operation. The contents of fresh memory are arguments. Allocation, locking and the creation of threads
  are taken to succeed; where addresses matter, \<^verbatim>\<open>malloc\<close> is any function that returns an address not in use (\<open>allocates\<close>).
  \<^verbatim>\<open>realloc\<close> is modelled by the size of the block it returns.

  \<^bold>\<open>Bounds and fuel.\<close> Only walks along pointers need fuel, which is chosen so that it cannot run out in a
  well-formed database: the main loop of \<open>dijkstra\<close> and the walk of \<open>find_next_hop\<close> get one more than
  the number of linked routers, each of whom is visited once; the pruning of a router's subnets gets one more than it has subnets,
  each round removing one. Over the nodes of a heap a walk gets one turn more than there are nodes, as a longer one goes round a
  cycle; \<^verbatim>\<open>remove_stale_entries\<close>, which begins again at the head after each removal, gets the square of that. That it suffices is part of the theorems: they state that the operation returns.

  The socket is the list of what its calls meet; behind the last event the peer has closed the connection.
  The main loop is modelled over a given number of messages, in \<open>Process\<close> over any number, and so are the rounds of the
  periodic thread in \<open>Locks\<close>.

  \<^bold>\<open>Outside the sources.\<close> Of the C library \<^verbatim>\<open>fgets\<close>, \<^verbatim>\<open>sscanf\<close>, \<^verbatim>\<open>inet_aton\<close>, \<^verbatim>\<open>inet_ntoa\<close>, \<^verbatim>\<open>strncpy\<close>, \<^verbatim>\<open>getopt\<close> and \<^verbatim>\<open>atoi\<close> are
  modelled as far as the router uses them. The files, the password entry, \<^verbatim>\<open>gethostbyname\<close> and \<^verbatim>\<open>connect\<close> are
  parameters (\<open>machine\<close>), as are the time and what the socket delivers.

  \<^bold>\<open>Not modelled.\<close> What is printed is no part of the state: the printing functions are functions to text,
  and the messages that other functions print in passing are left out. The log has an entry for each frame received; those of
  the frames a handler sends are in the model of \<^verbatim>\<open>sr_send_packet\<close> with a log, but not threaded through the handlers.
  The detailed theories take the code between two lock operations as one step, and a received frame as one step of the
  main thread; \<open>Locks\<close> shows that the accesses of such steps exclude each other, but the two levels are not connected by a
  simulation.
\<close>

end
